(* ===== verification/Prelude.thy ===== *)
theory Prelude
  imports Complex_Main "HOL-Library.Word"
begin

text \<open>
  Shared vocabulary of the development: the machine integers of the Rust code (\<open>usize\<close> is
  taken to be 64 bits wide, as on every platform the crate is released for), Rust's saturating and
  rounding integer operations, the \<open>Poll\<close> type of the async code, and the generic lemmas on words,
  lists and finite sets that the component theories share. The collection \<open>unat_simps\<close> rewrites
  machine arithmetic into arithmetic on natural numbers.
\<close>

type_synonym usize = "64 word"
type_synonym u64 = "64 word"
type_synonym u32 = "32 word"
type_synonym byte = "8 word"

named_theorems unat_simps \<open>machine integers read as natural numbers\<close>

section \<open>Rust's integer operations\<close>

definition sat_add :: "'a::len word \<Rightarrow> 'a word \<Rightarrow> 'a word" where
  "sat_add a b = (if unat a + unat b < 2 ^ LENGTH('a) then a + b else - 1)"

definition sat_sub :: "'a::len word \<Rightarrow> 'a word \<Rightarrow> 'a word" where
  "sat_sub a b = (if b \<le> a then a - b else 0)"

definition sat_mul :: "'a::len word \<Rightarrow> 'a word \<Rightarrow> 'a word" where
  "sat_mul a b = (if unat a * unat b < 2 ^ LENGTH('a) then a * b else - 1)"

definition div_ceil :: "'a::len word \<Rightarrow> 'a word \<Rightarrow> 'a word" where
  "div_ceil a b = (if a mod b = 0 then a div b else a div b + 1)"

definition clamp :: "'a::linorder \<Rightarrow> 'a \<Rightarrow> 'a \<Rightarrow> 'a" where
  "clamp x lo hi = (if x < lo then lo else if hi < x then hi else x)"

lemma unat_max_word: "unat (- 1 :: 'a::len word) = 2 ^ LENGTH('a) - 1"
  by (simp add: unsigned_minus_1_eq_mask mask_eq_exp_minus_1)

lemma unat_sat_add [unat_simps]:
  "unat (sat_add a b :: 'a::len word) = min (unat a + unat b) (2 ^ LENGTH('a) - 1)"
  by (auto simp: sat_add_def unat_word_ariths unat_max_word min_def)

lemma unat_sat_sub [unat_simps]: "unat (sat_sub a b) = unat a - unat b"
  by (auto simp: sat_sub_def unat_sub word_le_nat_alt)

lemma unat_sat_mul [unat_simps]:
  "unat (sat_mul a b :: 'a::len word) = min (unat a * unat b) (2 ^ LENGTH('a) - 1)"
proof -
  have "unat (a * b) = unat a * unat b" if "unat a * unat b < 2 ^ LENGTH('a)"
    using that by (simp add: unat_word_ariths)
  then show ?thesis by (auto simp: sat_mul_def unat_max_word)
qed

lemma unat_min [unat_simps]: "unat (min a b) = min (unat a) (unat b)"
  by (simp add: min_def word_le_nat_alt)

lemma unat_max [unat_simps]: "unat (max a b) = max (unat a) (unat b)"
  by (simp add: max_def word_le_nat_alt)

lemma unat_clamp [unat_simps]: "unat (clamp x lo hi) = clamp (unat x) (unat lo) (unat hi)"
  by (simp add: clamp_def word_less_nat_alt)

lemma nat_div_ceil:
  fixes a b :: nat
  assumes "0 < b" and "a mod b \<noteq> 0"
  shows "(a + b - 1) div b = a div b + 1"
proof -
  obtain q r where a: "a = q * b + r" and r: "0 < r" "r < b"
    using assms by (metis div_mult_mod_eq mod_less_divisor neq0_conv)
  then have "a + b - 1 = (q + 1) * b + (r - 1)" by (simp add: algebra_simps)
  moreover have "((q + 1) * b + (r - 1)) div b = q + 1" using r by (intro div_nat_eqI) (auto simp: algebra_simps)
  moreover have "a div b = q" using a r by (intro div_nat_eqI) (auto simp: algebra_simps)
  ultimately show ?thesis by simp
qed

lemma unat_div_ceil [unat_simps]:
  fixes a b :: "'a::len word"
  assumes "1 < unat b"
  shows "unat (div_ceil a b) = (unat a + unat b - 1) div unat b"
proof -
  have q: "unat a div unat b < 2 ^ LENGTH('a) - 1" if "unat a mod unat b \<noteq> 0"
  proof -
    have "unat a div unat b < unat a"
      using that assms by (intro div_less_dividend) (auto intro: Nat.gr0I)
    moreover have "unat a < 2 ^ LENGTH('a)" by simp
    ultimately show ?thesis by linarith
  qed
  have z: "a mod b = 0 \<longleftrightarrow> unat a mod unat b = 0"
    by (metis unat_eq_zero unat_mod_distrib)
  show ?thesis
  proof (cases "unat a mod unat b = 0")
    case True
    then obtain k where k: "unat a = k * unat b" by (metis dvd_def mod_eq_0_iff_dvd mult.commute)
    have "(k * unat b + unat b - 1) div unat b = k"
      using assms by (intro div_nat_eqI) (auto simp: algebra_simps)
    with True k assms show ?thesis by (simp add: div_ceil_def z unat_div_distrib)
  next
    case False
    have "unat (a div b + 1) = unat a div unat b + 1"
      using q [OF False] by (simp add: unat_word_ariths unat_div_distrib)
    moreover have "(unat a + unat b - 1) div unat b = unat a div unat b + 1"
      using False assms by (intro nat_div_ceil) auto
    ultimately show ?thesis using False by (simp add: div_ceil_def z)
  qed
qed

lemma unat_u64_le: "unat (x :: u64) \<le> 2 ^ 64 - 1"
proof -
  have "x \<le> - 1" by simp
  then have "unat x \<le> unat (- 1 :: u64)" by (simp only: word_le_nat_alt)
  then show ?thesis by (simp add: unat_max_word)
qed

lemma unat_of_small: "n < 2 ^ LENGTH('a) \<Longrightarrow> unat (of_nat n :: 'a::len word) = n"
  by (simp add: unat_of_nat take_bit_nat_eq_self)

lemma unat_inc: "x \<noteq> - 1 \<Longrightarrow> unat (x + 1 :: 'a::len word) = unat x + 1"
proof -
  assume "x \<noteq> - 1"
  then have "unat x \<noteq> 2 ^ LENGTH('a) - 1" by (metis unat_max_word unsigned_word_eqI)
  moreover have "unat x < 2 ^ LENGTH('a)" by simp
  ultimately have "unat x + 1 < 2 ^ LENGTH('a)" by linarith
  then show ?thesis by (simp add: unat_word_ariths)
qed

lemma unat_dec: "x \<noteq> 0 \<Longrightarrow> unat (x - 1 :: 'a::len word) = unat x - 1"
  by (metis unat_minus_one)

lemma word_le_inc: "x \<noteq> - 1 \<Longrightarrow> x \<le> (x + 1 :: 'a::len word)"
  by (simp add: word_le_nat_alt unat_inc)

lemma clamp_bounds: "lo \<le> hi \<Longrightarrow> lo \<le> clamp x lo hi \<and> clamp x lo hi \<le> hi"
  by (auto simp: clamp_def)

lemma clamp_id: "lo \<le> x \<Longrightarrow> x \<le> hi \<Longrightarrow> clamp x lo hi = x"
  by (auto simp: clamp_def)

text \<open>
  A counter that is decremented on drop is compared with the number of its live owners: the
  equality is kept modulo the width of the counter, so it survives wrap-around.
\<close>

lemma of_nat_card_insert:
  "finite A \<Longrightarrow> x \<notin> A \<Longrightarrow> (of_nat (card (insert x A)) :: 'a::len word) = of_nat (card A) + 1"
  by simp

lemma of_nat_card_remove:
  assumes "finite A" and "x \<in> A"
  shows "(of_nat (card (A - {x})) :: 'a::len word) = of_nat (card A) - 1"
proof -
  have "card A = Suc (card (A - {x}))" using assms by (metis card.remove)
  then show ?thesis by simp
qed

lemma of_nat_card_pred:
  "finite A \<Longrightarrow> x \<in> A \<Longrightarrow> (of_nat (card A - Suc 0) :: 'a::len word) = of_nat (card A) - 1"
  using of_nat_card_remove [of A x] by simp

lemma replicate_numeral [simp]: "replicate (numeral k) x = x # replicate (pred_numeral k) x"
  by (simp add: numeral_eq_Suc)

section \<open>Counting owners\<close>

text \<open>
  \<open>cnt P f\<close> is the number of indices whose entry satisfies \<open>P\<close>. The update rule is stated in
  any ring, so that the same lemma serves natural, integer and wrapping machine counters.
\<close>

definition owners :: "('b \<Rightarrow> bool) \<Rightarrow> ('i \<Rightarrow> 'b) \<Rightarrow> 'i set" where
  "owners P f = {i. P (f i)}"

definition cnt :: "('b \<Rightarrow> bool) \<Rightarrow> ('i \<Rightarrow> 'b) \<Rightarrow> nat" where
  "cnt P f = card (owners P f)"

lemma owners_upd:
  "owners P (f(t := x)) = (if P x then insert t (owners P f) else owners P f - {t})"
  by (auto simp: owners_def)

lemma finite_owners_upd [simp]: "finite (owners P f) \<Longrightarrow> finite (owners P (f(t := x)))"
  by (simp add: owners_upd)

lemma cnt_upd_nat:
  assumes "finite (owners P f)"
  shows "cnt P (f(t := x)) + (if P (f t) then 1 else 0) = cnt P f + (if P x then 1 else 0)"
proof (cases "P (f t)")
  case True
  then have t: "t \<in> owners P f" by (simp add: owners_def)
  with assms have "card (owners P f) = Suc (card (owners P f - {t}))"
    by (rule card.remove)
  with True t show ?thesis by (simp add: cnt_def owners_upd insert_absorb)
next
  case False
  then have "t \<notin> owners P f" by (simp add: owners_def)
  with assms False show ?thesis by (simp add: cnt_def owners_upd)
qed

lemma cnt_upd:
  assumes "finite (owners P f)"
  shows "(of_nat (cnt P (f(t := x))) :: 'r::ring_1) =
    of_nat (cnt P f) + (if P x then 1 else 0) - (if P (f t) then 1 else 0)"
proof -
  have "(of_nat (cnt P (f(t := x)) + (if P (f t) then 1 else 0)) :: 'r) =
      of_nat (cnt P f + (if P x then 1 else 0))"
    by (simp only: cnt_upd_nat [OF assms])
  then show ?thesis by (auto simp: eq_diff_eq split: if_splits)
qed

lemma owners_none [simp]: "(\<And>i. \<not> P (f i)) \<Longrightarrow> owners P f = {}"
  by (auto simp: owners_def)

lemma cnt_none [simp]: "(\<And>i. \<not> P (f i)) \<Longrightarrow> cnt P f = 0"
  by (simp add: cnt_def)

lemma cnt_upd_same: "P x = P (f t) \<Longrightarrow> cnt P (f(t := x)) = cnt P f"
proof -
  assume "P x = P (f t)"
  then have "owners P (f(t := x)) = owners P f" by (auto simp: owners_def)
  then show ?thesis by (simp add: cnt_def)
qed

section \<open>Decimal numbers\<close>

text \<open>Rust's \<open>str::parse\<close> for an unsigned integer of \<open>w\<close> bits.\<close>

definition is_digit :: "char \<Rightarrow> bool" where
  "is_digit c \<longleftrightarrow> of_char c \<in> {48..57 :: nat}"

definition digits_value :: "string \<Rightarrow> nat" where
  "digits_value ds = foldl (\<lambda>v c. 10 * v + (of_char c - 48)) 0 ds"

definition parse_uint :: "nat \<Rightarrow> string \<Rightarrow> nat option" where
  "parse_uint w s =
     (let ds = (case s of [] \<Rightarrow> [] | c # cs \<Rightarrow> if c = CHR ''+'' then cs else s) in
      if ds = [] \<or> \<not> list_all is_digit ds then None
      else if digits_value ds < 2 ^ w then Some (digits_value ds) else None)"

lemma parse_uint_bound: "parse_uint w s = Some n \<Longrightarrow> n < 2 ^ w"
  by (auto simp: parse_uint_def Let_def split: if_splits)

text \<open>Rust's \<open>to_string\<close> of an unsigned integer.\<close>

fun show_nat :: "nat \<Rightarrow> string" where
  "show_nat n = (if n < 10 then [char_of (48 + n)] else show_nat (n div 10) @ [char_of (48 + n mod 10)])"

declare show_nat.simps [simp del]

lemma of_char_digit: "n < 10 \<Longrightarrow> of_char (char_of (48 + n) :: char) = 48 + n" for n :: nat
  by (simp add: of_char_of)

lemma show_nat_digits: "show_nat n \<noteq> [] \<and> list_all is_digit (show_nat n) \<and> digits_value (show_nat n) = n"
proof (induction n rule: show_nat.induct)
  case (1 n)
  have m: "n mod 10 < 10" by simp
  show ?case
  proof (cases "n < 10")
    case True
    then show ?thesis
      by (simp add: show_nat.simps [of n] is_digit_def digits_value_def of_char_digit [OF True, simplified])
  next
    case False
    with 1 have IH: "show_nat (n div 10) \<noteq> []" "list_all is_digit (show_nat (n div 10))"
      "digits_value (show_nat (n div 10)) = n div 10" by auto
    have "digits_value (xs @ [c]) = 10 * digits_value xs + (of_char c - 48)" for xs c
      by (simp add: digits_value_def)
    moreover have "is_digit (char_of (48 + n mod 10))"
      using m by (simp add: is_digit_def of_char_digit [OF m, simplified])
    ultimately show ?thesis using IH False
      by (simp add: show_nat.simps [of n] of_char_digit [OF m, simplified])
  qed
qed

lemma parse_show_nat [simp]:
  assumes "n < 2 ^ w"
  shows "parse_uint w (show_nat n) = Some n"
proof -
  obtain c cs where c: "show_nat n = c # cs" using show_nat_digits [of n] by (cases "show_nat n") auto
  with show_nat_digits [of n] have "is_digit c" by simp
  then have "c \<noteq> CHR ''+''" by (auto simp: is_digit_def)
  with c show_nat_digits [of n] assms show ?thesis by (simp add: parse_uint_def)
qed

section \<open>Association lists\<close>

text \<open>
  Insertion-ordered maps: \<open>im_put\<close> overwrites in place or appends, \<open>im_modify\<close> changes the value of a present
  key.
\<close>

fun im_put :: "'k \<Rightarrow> 'v \<Rightarrow> ('k \<times> 'v) list \<Rightarrow> ('k \<times> 'v) list" where
  "im_put k v [] = [(k, v)]"
| "im_put k v ((k', v') # m) = (if k' = k then (k, v) # m else (k', v') # im_put k v m)"

fun im_modify :: "'k \<Rightarrow> ('v \<Rightarrow> 'v) \<Rightarrow> ('k \<times> 'v) list \<Rightarrow> ('k \<times> 'v) list" where
  "im_modify k f [] = []"
| "im_modify k f ((k', v') # m) = (if k' = k then (k', f v') # m else (k', v') # im_modify k f m)"

lemma map_of_im_put [simp]: "map_of (im_put k v m) = (map_of m)(k \<mapsto> v)"
  by (induction m) (auto simp: fun_eq_iff)

lemma map_of_im_modify: "map_of (im_modify k f m) = (map_of m)(k := map_option f (map_of m k))"
  by (induction m) (auto simp: fun_eq_iff)

lemma map_of_im_modify_Some [simp]:
  "map_of m k = Some v \<Longrightarrow> map_of (im_modify k f m) = (map_of m)(k \<mapsto> f v)"
  by (simp add: map_of_im_modify)

lemma keys_im_put: "map fst (im_put k v m) = (if k \<in> set (map fst m) then map fst m else map fst m @ [k])"
  by (induction k v m rule: im_put.induct) auto

lemma keys_im_modify [simp]: "map fst (im_modify k f m) = map fst m"
  by (induction m) auto

text \<open>The weight of a map: the sum of a measure of its values.\<close>

definition im_sum :: "('v \<Rightarrow> nat) \<Rightarrow> ('k \<times> 'v) list \<Rightarrow> nat" where
  "im_sum f m = sum_list (map (f \<circ> snd) m)"

lemma im_sum_simps [simp]: "im_sum f [] = 0" "im_sum f ((k, v) # m) = f v + im_sum f m"
  by (simp_all add: im_sum_def)

lemma im_sum_put:
  "im_sum f (im_put k v m) + (case map_of m k of None \<Rightarrow> 0 | Some old \<Rightarrow> f old) = im_sum f m + f v"
  by (induction m) (auto split: option.splits)

lemma im_sum_modify:
  "map_of m k = Some v \<Longrightarrow> im_sum f (im_modify k g m) + f v = im_sum f m + f (g v)"
  by (induction m) (auto split: if_splits)

lemma im_sum_ge: "map_of m k = Some v \<Longrightarrow> f v \<le> im_sum f m"
  by (induction m) (auto split: if_splits)

section \<open>Durations\<close>

text \<open>A duration is its number of nanoseconds.\<close>

definition from_millis :: "nat \<Rightarrow> nat" where
  "from_millis ms = ms * 1000000"

definition from_secs :: "nat \<Rightarrow> nat" where
  "from_secs s = s * 1000000000"

definition DURATION_MAX :: nat where
  "DURATION_MAX = 2 ^ 64 * 1000000000 - 1"

section \<open>Polling\<close>

datatype 'a poll = Pending | Ready (the_ready: 'a)

fun poll_map :: "('a \<Rightarrow> 'b) \<Rightarrow> 'a poll \<Rightarrow> 'b poll" where
  "poll_map f Pending = Pending"
| "poll_map f (Ready x) = Ready (f x)"

lemma poll_map_Ready [simp]: "poll_map f p = Ready y \<longleftrightarrow> (\<exists>x. p = Ready x \<and> y = f x)"
  by (cases p) auto

lemma poll_map_Pending [simp]: "poll_map f p = Pending \<longleftrightarrow> p = Pending"
  by (cases p) auto

end
