(* ===== verification/Arbitration.thy ===== *)
theory Arbitration
  imports Prelude
begin

text \<open>
  The encode/decode arbiter of the shared Rayon pool, \<open>src/parallelize/cpu/arbitration.rs\<close>:
  its configuration, the pure admission policy \<open>decode_admit_cap\<close>, the configuration calls, and
  the admission loop \<open>admit_decode\<close> / \<open>try_reserve_decode\<close> as a machine whose steps are the
  single atomic operations of the code, so that any number of admitters, finishing tasks and
  configuration calls interleave.
\<close>

section \<open>Configuration\<close>

datatype ArbitrationConfig = Disabled | Enabled (occupancy_pct: u32) (encode_reserve_pct: u32)

datatype ArbitrationConfigError = OccupancyOutOfRange u32 | EncodeReserveOutOfRange u32

fun validate :: "ArbitrationConfig \<Rightarrow> ArbitrationConfigError + unit" where
  "validate Disabled = Inr ()"
| "validate (Enabled occ res) =
     (if \<not> (1 \<le> occ \<and> occ \<le> 100) then Inl (OccupancyOutOfRange occ)
      else if \<not> (1 \<le> res \<and> res \<le> 100) then Inl (EncodeReserveOutOfRange res)
      else Inr ())"

text \<open>
  The statics of the module and the three counters of \<open>cpu\<close> it reads. The event is the number of
  \<open>notify\<close> calls issued on it: a listener remembers the count at which it was created, and may
  only be woken by a later call.
\<close>

record arbiter =
  ARBITRATION_ENABLED :: bool
  ARBITRATION_OCCUPANCY_PCT :: u32
  ARBITRATION_ENCODE_RESERVE_PCT :: u32
  RUNNING :: usize
  ARBITRATION_EVENT :: nat
  ARBITRATION_CONFIGURED :: bool
  POOL_THREAD_COUNT :: usize
  ENCODE_OUTSTANDING :: usize
  DECODE_OUTSTANDING :: usize

definition arbiter_init :: arbiter where
  "arbiter_init = \<lparr>ARBITRATION_ENABLED = True, ARBITRATION_OCCUPANCY_PCT = 75,
     ARBITRATION_ENCODE_RESERVE_PCT = 50, RUNNING = 0, ARBITRATION_EVENT = 0,
     ARBITRATION_CONFIGURED = False, POOL_THREAD_COUNT = 0,
     ENCODE_OUTSTANDING = 0, DECODE_OUTSTANDING = 0\<rparr>"

text \<open>\<open>apply\<close> is its stores followed by the wake-up of every listener.\<close>

fun apply_stores :: "ArbitrationConfig \<Rightarrow> arbiter \<Rightarrow> arbiter" where
  "apply_stores Disabled a = a\<lparr>ARBITRATION_ENABLED := False\<rparr>"
| "apply_stores (Enabled occ res) a =
     a\<lparr>ARBITRATION_OCCUPANCY_PCT := clamp occ 1 100,
       ARBITRATION_ENCODE_RESERVE_PCT := clamp res 1 100,
       ARBITRATION_ENABLED := True\<rparr>"

definition notify :: "'a arbiter_scheme \<Rightarrow> 'a arbiter_scheme" where
  "notify a = a\<lparr>ARBITRATION_EVENT := ARBITRATION_EVENT a + 1\<rparr>"

definition apply_config :: "ArbitrationConfig \<Rightarrow> arbiter \<Rightarrow> arbiter" where
  "apply_config c a = notify (apply_stores c a)"

definition with_arbitration :: "ArbitrationConfig \<Rightarrow> arbiter \<Rightarrow> arbiter" where
  "with_arbitration c a = (apply_config c a)\<lparr>ARBITRATION_CONFIGURED := True\<rparr>"

definition with_arbitration_once :: "ArbitrationConfig \<Rightarrow> arbiter \<Rightarrow> bool \<times> arbiter" where
  "with_arbitration_once c a =
     (if ARBITRATION_CONFIGURED a then (False, a)
      else (True, apply_config c (a\<lparr>ARBITRATION_CONFIGURED := True\<rparr>)))"

section \<open>The admission policy\<close>

definition DECODE_FLOOD_FACTOR :: usize where
  "DECODE_FLOOD_FACTOR = 2"

definition decode_admit_cap ::
  "usize \<Rightarrow> usize \<Rightarrow> usize \<Rightarrow> usize \<Rightarrow> u32 \<Rightarrow> u32 \<Rightarrow> usize option" where
  "decode_admit_cap pool_threads running decode_outstanding enc_outstanding occ res =
     (let occupancy_threshold = max (pool_threads * ucast occ div 100) 1 in
      if running < occupancy_threshold then None
      else if enc_outstanding = 0 then None
      else if decode_outstanding \<le> sat_mul enc_outstanding DECODE_FLOOD_FACTOR then None
      else let reserve = min (div_ceil (pool_threads * ucast res) 100) enc_outstanding
           in Some (max (sat_sub pool_threads reserve) 1))"

definition decode_limit :: "usize \<Rightarrow> usize \<Rightarrow> usize \<Rightarrow> usize \<Rightarrow> u32 \<Rightarrow> u32 \<Rightarrow> usize" where
  "decode_limit p run dec enc occ res =
     (case decode_admit_cap p run dec enc occ res of None \<Rightarrow> - 1 | Some cap \<Rightarrow> cap)"

definition refused :: "usize \<Rightarrow> usize \<Rightarrow> usize \<Rightarrow> usize \<Rightarrow> u32 \<Rightarrow> u32 \<Rightarrow> bool" where
  "refused p run dec enc occ res \<longleftrightarrow> decode_limit p run dec enc occ res \<le> dec"

text \<open>One uncontended call of \<open>try_reserve_decode\<close>: its compare-exchange succeeds.\<close>

definition try_reserve_decode :: "usize \<Rightarrow> u32 \<Rightarrow> u32 \<Rightarrow> arbiter \<Rightarrow> bool \<times> arbiter" where
  "try_reserve_decode p occ res a =
     (let dec = DECODE_OUTSTANDING a in
      if decode_limit p (RUNNING a) dec (ENCODE_OUTSTANDING a) occ res \<le> dec then (False, a)
      else (True, a\<lparr>DECODE_OUTSTANDING := dec + 1\<rparr>))"

section \<open>Guards\<close>

text \<open>
  \<open>TaggedGuard\<close> and \<open>RunningGuard\<close>: the decrement and the notification of a drop are two
  atomic operations; \<open>*_drop\<close> is both, \<open>*_release\<close> the first.
\<close>

definition encode_enter :: "'a arbiter_scheme \<Rightarrow> 'a arbiter_scheme" where
  "encode_enter a = a\<lparr>ENCODE_OUTSTANDING := ENCODE_OUTSTANDING a + 1\<rparr>"

definition encode_release :: "'a arbiter_scheme \<Rightarrow> 'a arbiter_scheme" where
  "encode_release a = a\<lparr>ENCODE_OUTSTANDING := ENCODE_OUTSTANDING a - 1\<rparr>"

definition decode_enter :: "'a arbiter_scheme \<Rightarrow> 'a arbiter_scheme" where
  "decode_enter a = a\<lparr>DECODE_OUTSTANDING := DECODE_OUTSTANDING a + 1\<rparr>"

definition decode_release :: "'a arbiter_scheme \<Rightarrow> 'a arbiter_scheme" where
  "decode_release a = a\<lparr>DECODE_OUTSTANDING := DECODE_OUTSTANDING a - 1\<rparr>"

definition running_enter :: "'a arbiter_scheme \<Rightarrow> 'a arbiter_scheme" where
  "running_enter a = a\<lparr>RUNNING := RUNNING a + 1\<rparr>"

definition running_release :: "'a arbiter_scheme \<Rightarrow> 'a arbiter_scheme" where
  "running_release a = a\<lparr>RUNNING := RUNNING a - 1\<rparr>"

definition encode_drop :: "'a arbiter_scheme \<Rightarrow> 'a arbiter_scheme" where
  "encode_drop a = notify (encode_release a)"

definition decode_drop :: "'a arbiter_scheme \<Rightarrow> 'a arbiter_scheme" where
  "decode_drop a = notify (decode_release a)"

definition running_drop :: "'a arbiter_scheme \<Rightarrow> 'a arbiter_scheme" where
  "running_drop a = notify (running_release a)"

lemmas arbiter_ops = notify_def encode_enter_def encode_release_def decode_enter_def
  decode_release_def running_enter_def running_release_def encode_drop_def decode_drop_def
  running_drop_def


section \<open>Lemmas: configuration\<close>

lemma validate_Inr_iff [simp]:
  "validate (Enabled occ res) = Inr () \<longleftrightarrow> 1 \<le> occ \<and> occ \<le> 100 \<and> 1 \<le> res \<and> res \<le> 100"
  by auto

lemma apply_stores_frame [simp]:
  "RUNNING (apply_stores c a) = RUNNING a"
  "ARBITRATION_EVENT (apply_stores c a) = ARBITRATION_EVENT a"
  "ARBITRATION_CONFIGURED (apply_stores c a) = ARBITRATION_CONFIGURED a"
  "POOL_THREAD_COUNT (apply_stores c a) = POOL_THREAD_COUNT a"
  "ENCODE_OUTSTANDING (apply_stores c a) = ENCODE_OUTSTANDING a"
  "DECODE_OUTSTANDING (apply_stores c a) = DECODE_OUTSTANDING a"
  by (cases c; simp)+

definition pcts_ok :: "arbiter \<Rightarrow> bool" where
  "pcts_ok a \<longleftrightarrow> 1 \<le> ARBITRATION_OCCUPANCY_PCT a \<and> ARBITRATION_OCCUPANCY_PCT a \<le> 100 \<and>
     1 \<le> ARBITRATION_ENCODE_RESERVE_PCT a \<and> ARBITRATION_ENCODE_RESERVE_PCT a \<le> 100"

lemma pcts_ok_init: "pcts_ok arbiter_init"
  by (simp add: pcts_ok_def arbiter_init_def)

lemma pcts_ok_apply_stores: "pcts_ok a \<Longrightarrow> pcts_ok (apply_stores c a)"
  by (cases c) (auto simp: pcts_ok_def clamp_bounds)

lemma pcts_ok_config:
  assumes "pcts_ok a"
  shows "pcts_ok (with_arbitration c a)" and "pcts_ok (snd (with_arbitration_once c a))"
proof -
  have cfg: "pcts_ok (apply_config c b)" if "pcts_ok b" for b
    using pcts_ok_apply_stores [OF that, of c] by (simp add: apply_config_def notify_def pcts_ok_def)
  show "pcts_ok (with_arbitration c a)"
    using cfg [OF assms] by (simp add: with_arbitration_def pcts_ok_def)
  have "pcts_ok (a\<lparr>ARBITRATION_CONFIGURED := True\<rparr>)" using assms by (simp add: pcts_ok_def)
  from cfg [OF this] show "pcts_ok (snd (with_arbitration_once c a))"
    using assms by (simp add: with_arbitration_once_def)
qed

text \<open>A sequence of start-up calls, each a node configuring the process-global arbiter.\<close>

fun once_all :: "ArbitrationConfig list \<Rightarrow> arbiter \<Rightarrow> bool list \<times> arbiter" where
  "once_all [] a = ([], a)"
| "once_all (c # cs) a =
     (let (r, a') = with_arbitration_once c a; (rs, a'') = once_all cs a' in (r # rs, a''))"

lemma apply_config_configured [simp]:
  "ARBITRATION_CONFIGURED (apply_config c a) = ARBITRATION_CONFIGURED a"
  by (simp add: apply_config_def notify_def)

lemma once_all_configured:
  "ARBITRATION_CONFIGURED a \<Longrightarrow> once_all cs a = (replicate (length cs) False, a)"
  by (induction cs) (auto simp: with_arbitration_once_def)

section \<open>Lemmas: the policy on natural numbers\<close>

text \<open>
  Pools below \<open>2 ^ 57\<close> threads keep the product with a percentage inside 64 bits, so the
  machine computation is the intended one.
\<close>

definition reserve_of :: "nat \<Rightarrow> nat \<Rightarrow> nat \<Rightarrow> nat" where
  "reserve_of p res enc = min ((p * res + 99) div 100) enc"

lemma unat_pct_product:
  fixes p :: usize and x :: u32
  assumes "unat p < 2 ^ 57" and "x \<le> 100"
  shows "unat (p * ucast x) = unat p * unat x"
proof -
  have x: "unat x \<le> 100" using assms(2) by (simp add: word_le_nat_alt)
  have u: "unat (ucast x :: usize) = unat x" 
  proof -
    have "unat x < 2 ^ 64" using x by simp
    then show ?thesis by (simp add: unsigned_ucast_eq take_bit_nat_eq_self)
  qed
  have "unat p * unat x \<le> 2 ^ 57 * 100" using assms(1) x by (intro mult_mono) auto
  then show ?thesis by (simp add: unat_word_ariths u)
qed

lemma decode_admit_cap_nat:
  assumes p: "unat p < 2 ^ 57" and occ: "occ \<le> 100" and res: "res \<le> 100"
  shows "map_option unat (decode_admit_cap p run dec enc occ res) =
    (if unat run < max (unat p * unat occ div 100) 1 \<or> unat enc = 0
        \<or> unat dec \<le> min (2 * unat enc) (2 ^ 64 - 1) then None
     else Some (max (unat p - reserve_of (unat p) (unat res) (unat enc)) 1))"
proof -
  have t: "run < max (p * ucast occ div 100) 1 \<longleftrightarrow> unat run < max (unat p * unat occ div 100) 1"
    by (simp add: word_less_nat_alt unat_max unat_div_distrib unat_pct_product [OF p occ])
  have e: "enc = 0 \<longleftrightarrow> unat enc = 0" by (simp add: unat_eq_zero)
  have f: "dec \<le> sat_mul enc DECODE_FLOOD_FACTOR \<longleftrightarrow> unat dec \<le> min (2 * unat enc) (2 ^ 64 - 1)"
    by (simp add: word_le_nat_alt unat_sat_mul DECODE_FLOOD_FACTOR_def mult.commute)
  have r: "unat (min (div_ceil (p * ucast res) 100) enc) = reserve_of (unat p) (unat res) (unat enc)"
    by (simp add: unat_simps unat_pct_product [OF p res] reserve_of_def)
  show ?thesis
    by (simp add: decode_admit_cap_def Let_def t e f unat_max unat_sat_sub r del: unat_eq_zero)
qed

lemma refused_mono:
  assumes "refused p run dec enc occ res" and "run \<le> run'" and "dec \<le> dec'"
  shows "refused p run' dec' enc occ res"
proof (cases "decode_admit_cap p run dec enc occ res")
  case None
  with assms have "dec' = - 1" by (simp add: refused_def decode_limit_def word_order.extremum_unique)
  then show ?thesis by (simp add: refused_def)
next
  case (Some cap)
  with assms have cap: "cap \<le> dec'" by (simp add: refused_def decode_limit_def)
  from Some assms(2,3) have "decode_admit_cap p run' dec' enc occ res = Some cap"
    by (auto simp: decode_admit_cap_def Let_def not_less not_le split: if_splits)
  with cap show ?thesis by (simp add: refused_def decode_limit_def)
qed


section \<open>Properties\<close>

text \<open>Decode is capped exactly when the pool is saturated, encode work is present and decode
  floods it; the cap then leaves \<open>min(enc, ceil(reserve% of the pool))\<close> threads to encode, and at
  least one slot to decode.\<close>

lemma decode_admit_cap_policy:
  assumes "unat p < 2 ^ 57" and "occ \<le> 100" and "res \<le> 100"
  shows "map_option unat (decode_admit_cap p run dec enc occ res) =
    (if max (unat p * unat occ div 100) 1 \<le> unat run \<and> 0 < unat enc
        \<and> min (2 * unat enc) (2 ^ 64 - 1) < unat dec
     then Some (max (unat p - min ((unat p * unat res + 99) div 100) (unat enc)) 1)
     else None)"
  using decode_admit_cap_nat [OF assms, of run dec enc] by (auto simp: reserve_of_def)

text \<open>\<open>with_arbitration_once\<close> is first-wins: of any sequence of start-up calls on a fresh
  process only the first applies its configuration, the others return false and change nothing.\<close>

lemma with_arbitration_once_first_wins:
  "once_all (c # cs) arbiter_init =
     (True # replicate (length cs) False,
      (apply_config c arbiter_init)\<lparr>ARBITRATION_CONFIGURED := True\<rparr>)"
proof -
  let ?a = "apply_config c (arbiter_init\<lparr>ARBITRATION_CONFIGURED := True\<rparr>)"
  have "with_arbitration_once c arbiter_init = (True, ?a)"
    by (simp add: with_arbitration_once_def arbiter_init_def)
  moreover have "once_all cs ?a = (replicate (length cs) False, ?a)"
    by (rule once_all_configured) simp
  moreover have "?a = (apply_config c arbiter_init)\<lparr>ARBITRATION_CONFIGURED := True\<rparr>"
    by (cases c) (simp_all add: apply_config_def notify_def)
  ultimately show ?thesis by simp
qed

fun config_calls :: "(bool \<times> ArbitrationConfig) list \<Rightarrow> arbiter \<Rightarrow> arbiter" where
  "config_calls [] a = a"
| "config_calls ((once, c) # cs) a =
     config_calls cs (if once then snd (with_arbitration_once c a) else with_arbitration c a)"

lemma pcts_ok_config_calls: "pcts_ok a \<Longrightarrow> pcts_ok (config_calls cs a)"
  by (induction cs a rule: config_calls.induct) (simp_all add: pcts_ok_config)

text \<open>Whatever configurations are applied, validated or not, in any order, the percentages the
  admission loop reads stay within \<open>1..=100\<close>.\<close>

lemma percentages_in_range:
  "1 \<le> ARBITRATION_OCCUPANCY_PCT (config_calls cs arbiter_init) \<and>
   ARBITRATION_OCCUPANCY_PCT (config_calls cs arbiter_init) \<le> 100 \<and>
   1 \<le> ARBITRATION_ENCODE_RESERVE_PCT (config_calls cs arbiter_init) \<and>
   ARBITRATION_ENCODE_RESERVE_PCT (config_calls cs arbiter_init) \<le> 100"
  using pcts_ok_config_calls [OF pcts_ok_init, of cs] by (simp add: pcts_ok_def)

end
