(* ===== verification/Admission.thy ===== *)
theory Admission
  imports Arbitration
begin

text \<open>
  The admission loop \<open>admit_decode\<close> with \<open>try_reserve_decode\<close>
  (\<open>src/parallelize/cpu/arbitration.rs\<close>) as a machine. Every constructor of \<open>admit_pc\<close> is a
  point between two atomic operations of the code and carries the local variables live there;
  \<open>admit_step\<close> performs the next atomic operation. The relation \<open>sys_step\<close> interleaves any
  number of admitters with the finishing and starting of encode tasks, of running tasks and of admitted
  decode tasks, and with configuration calls.
\<close>

section \<open>The machine\<close>

datatype admit_pc =
    Start                                     \<comment> \<open>before the load of the pool size\<close>
  | Gate usize                                \<comment> \<open>before the first load of \<open>ARBITRATION_ENABLED\<close>\<close>
  | Bypass                                    \<comment> \<open>before an unconditional \<open>fetch_add\<close>\<close>
  | LoopTop usize
  | LoadOcc usize
  | LoadRes usize u32
  | LoadDec "nat option" usize u32 u32        \<comment> \<open>top of \<open>try_reserve_decode\<close>\<close>
  | LoadRun "nat option" usize u32 u32 usize
  | LoadEnc "nat option" usize u32 u32 usize usize
  | Cas "nat option" usize u32 u32 usize usize usize
  | Listen usize u32 u32
  | Recheck nat usize u32 u32
  | Awaiting nat usize u32 u32
  | Admitted
  | Gone

text \<open>
  The listener, when there is one, is the event count at its creation; the attempt made while holding a
  listener is the second one. The flag is the outcome of a weak compare-exchange that may fail spuriously.
\<close>

fun admit_step :: "bool \<Rightarrow> arbiter \<Rightarrow> admit_pc \<Rightarrow> arbiter \<times> admit_pc" where
  "admit_step _ a Start = (a, Gate (POOL_THREAD_COUNT a))"
| "admit_step _ a (Gate p) =
     (a, if \<not> ARBITRATION_ENABLED a \<or> p = 0 then Bypass else LoopTop p)"
| "admit_step _ a Bypass = (decode_enter a, Admitted)"
| "admit_step _ a (LoopTop p) = (a, if \<not> ARBITRATION_ENABLED a then Bypass else LoadOcc p)"
| "admit_step _ a (LoadOcc p) = (a, LoadRes p (ARBITRATION_OCCUPANCY_PCT a))"
| "admit_step _ a (LoadRes p occ) = (a, LoadDec None p occ (ARBITRATION_ENCODE_RESERVE_PCT a))"
| "admit_step _ a (LoadDec l p occ res) = (a, LoadRun l p occ res (DECODE_OUTSTANDING a))"
| "admit_step _ a (LoadRun l p occ res dec) = (a, LoadEnc l p occ res dec (RUNNING a))"
| "admit_step _ a (LoadEnc l p occ res dec run) =
     (a, if refused p run dec (ENCODE_OUTSTANDING a) occ res
         then (case l of None \<Rightarrow> Listen p occ res | Some n \<Rightarrow> Awaiting n p occ res)
         else Cas l p occ res dec run (ENCODE_OUTSTANDING a))"
| "admit_step ok a (Cas l p occ res dec run enc) =
     (if ok \<and> DECODE_OUTSTANDING a = dec
      then (a\<lparr>DECODE_OUTSTANDING := dec + 1\<rparr>, Admitted)
      else (a, LoadDec l p occ res))"
| "admit_step _ a (Listen p occ res) = (a, Recheck (ARBITRATION_EVENT a) p occ res)"
| "admit_step _ a (Recheck n p occ res) =
     (a, if \<not> ARBITRATION_ENABLED a then Bypass else LoadDec (Some n) p occ res)"
| "admit_step _ a (Awaiting n p occ res) =
     (a, if n < ARBITRATION_EVENT a then LoopTop p else Awaiting n p occ res)"
| "admit_step _ a Admitted = (a, Admitted)"
| "admit_step _ a Gone = (a, Gone)"

record sys =
  glob :: arbiter
  owed :: nat                        \<comment> \<open>decrements and stores whose notification is still to come\<close>
  thr :: "nat \<Rightarrow> admit_pc"

datatype label =
  Admit nat bool | Cancel nat | DropDecode nat | EncEnter | EncRelease | RunEnter | RunRelease
  | Configure ArbitrationConfig | Notify | PassOn

text \<open>
  \<open>cancel\<close>: the caller drops its future at the one point where \<open>admit_decode\<close> suspends; the
  listener goes with it and nothing was reserved. \<open>pass_on\<close>: a listener that was notified and is dropped
  passes its notification on to another.
  A guard's counter was incremented by its owner, and no process owns \<open>2 ^ 64\<close> tasks: an increment
  starts below the maximum and a decrement above zero.
\<close>

inductive sys_step :: "sys \<Rightarrow> label \<Rightarrow> sys \<Rightarrow> bool" where
  admit: "admit_step ok (glob s) (thr s t) = (g, pc) \<Longrightarrow>
     (thr s t = Bypass \<Longrightarrow> DECODE_OUTSTANDING (glob s) \<noteq> - 1) \<Longrightarrow>
     sys_step s (Admit t ok) (s\<lparr>glob := g, thr := (thr s)(t := pc)\<rparr>)"
| cancel: "thr s t = Awaiting n p occ res \<Longrightarrow>
     sys_step s (Cancel t) (s\<lparr>thr := (thr s)(t := Gone)\<rparr>)"
| drop_decode: "thr s t = Admitted \<Longrightarrow> DECODE_OUTSTANDING (glob s) \<noteq> 0 \<Longrightarrow>
     sys_step s (DropDecode t)
       (s\<lparr>glob := decode_release (glob s), owed := owed s + 1, thr := (thr s)(t := Gone)\<rparr>)"
| enc_enter: "ENCODE_OUTSTANDING (glob s) \<noteq> - 1 \<Longrightarrow>
     sys_step s EncEnter (s\<lparr>glob := encode_enter (glob s)\<rparr>)"
| enc_release: "ENCODE_OUTSTANDING (glob s) \<noteq> 0 \<Longrightarrow>
     sys_step s EncRelease (s\<lparr>glob := encode_release (glob s), owed := owed s + 1\<rparr>)"
| run_enter: "RUNNING (glob s) \<noteq> - 1 \<Longrightarrow>
     sys_step s RunEnter (s\<lparr>glob := running_enter (glob s)\<rparr>)"
| run_release: "RUNNING (glob s) \<noteq> 0 \<Longrightarrow>
     sys_step s RunRelease (s\<lparr>glob := running_release (glob s), owed := owed s + 1\<rparr>)"
| configure: "sys_step s (Configure c) (s\<lparr>glob := apply_stores c (glob s), owed := owed s + 1\<rparr>)"
| notify: "0 < owed s \<Longrightarrow>
     sys_step s Notify (s\<lparr>glob := notify (glob s), owed := owed s - 1\<rparr>)"
| pass_on: "sys_step s PassOn (s\<lparr>glob := notify (glob s)\<rparr>)"

inductive_cases sys_stepE: "sys_step s l s'"

inductive sys_run :: "(label \<Rightarrow> bool) \<Rightarrow> sys \<Rightarrow> sys \<Rightarrow> bool" for ok where
  run_refl: "sys_run ok s s"
| run_step: "sys_run ok s s' \<Longrightarrow> sys_step s' l s'' \<Longrightarrow> ok l \<Longrightarrow> sys_run ok s s''"

definition sys_start :: "arbiter \<Rightarrow> sys" where
  "sys_start g = \<lparr>glob = g, owed = 0, thr = (\<lambda>_. Start)\<rparr>"

text \<open>An invariant of the steps is an invariant of the runs.\<close>

lemma sys_run_invariant:
  assumes "sys_run ok s s'" and "P s"
    and "\<And>u l v. P u \<Longrightarrow> sys_step u l v \<Longrightarrow> ok l \<Longrightarrow> P v"
  shows "P s'"
  using assms by (induction rule: sys_run.induct) auto


section \<open>An executable scheduler\<close>

fun sys_exec1 :: "label \<Rightarrow> sys \<Rightarrow> sys option" where
  "sys_exec1 (Admit t ok) s =
     (if thr s t = Bypass \<and> DECODE_OUTSTANDING (glob s) = - 1 then None
      else let (g, pc) = admit_step ok (glob s) (thr s t)
           in Some (s\<lparr>glob := g, thr := (thr s)(t := pc)\<rparr>))"
| "sys_exec1 (Cancel t) s =
     (case thr s t of Awaiting _ _ _ _ \<Rightarrow> Some (s\<lparr>thr := (thr s)(t := Gone)\<rparr>) | _ \<Rightarrow> None)"
| "sys_exec1 (DropDecode t) s =
     (if thr s t = Admitted \<and> DECODE_OUTSTANDING (glob s) \<noteq> 0
      then Some (s\<lparr>glob := decode_release (glob s), owed := owed s + 1, thr := (thr s)(t := Gone)\<rparr>)
      else None)"
| "sys_exec1 EncEnter s =
     (if ENCODE_OUTSTANDING (glob s) = - 1 then None
      else Some (s\<lparr>glob := encode_enter (glob s)\<rparr>))"
| "sys_exec1 EncRelease s =
     (if ENCODE_OUTSTANDING (glob s) = 0 then None
      else Some (s\<lparr>glob := encode_release (glob s), owed := owed s + 1\<rparr>))"
| "sys_exec1 RunEnter s =
     (if RUNNING (glob s) = - 1 then None else Some (s\<lparr>glob := running_enter (glob s)\<rparr>))"
| "sys_exec1 RunRelease s =
     (if RUNNING (glob s) = 0 then None
      else Some (s\<lparr>glob := running_release (glob s), owed := owed s + 1\<rparr>))"
| "sys_exec1 (Configure c) s = Some (s\<lparr>glob := apply_stores c (glob s), owed := owed s + 1\<rparr>)"
| "sys_exec1 Notify s =
     (if owed s = 0 then None else Some (s\<lparr>glob := notify (glob s), owed := owed s - 1\<rparr>))"
| "sys_exec1 PassOn s = Some (s\<lparr>glob := notify (glob s)\<rparr>)"

fun sys_exec :: "label list \<Rightarrow> sys \<Rightarrow> sys option" where
  "sys_exec [] s = Some s"
| "sys_exec (l # ls) s = (case sys_exec1 l s of None \<Rightarrow> None | Some s' \<Rightarrow> sys_exec ls s')"

lemma sys_exec1_step: "sys_exec1 l s = Some s' \<Longrightarrow> sys_step s l s'"
  by (cases l) (auto intro: sys_step.intros [simplified] split: if_splits prod.splits admit_pc.splits)

lemma sys_run_trans: "sys_run ok s' s'' \<Longrightarrow> sys_run ok s s' \<Longrightarrow> sys_run ok s s''"
  by (induction rule: sys_run.induct) (auto intro: sys_run.intros)

lemma sys_exec_run: "sys_exec ls s = Some s' \<Longrightarrow> list_all ok ls \<Longrightarrow> sys_run ok s s'"
proof (induction ls arbitrary: s)
  case Nil
  then show ?case by (simp add: run_refl)
next
  case (Cons l ls)
  from Cons.prems obtain u where u: "sys_exec1 l s = Some u" and "sys_exec ls u = Some s'"
    by (auto split: option.splits)
  with Cons.IH Cons.prems(2) have "sys_run ok u s'" by simp
  moreover have "sys_run ok s u"
    using u Cons.prems(2) by (auto intro: run_step [OF run_refl] sys_exec1_step)
  ultimately show ?case by (rule sys_run_trans)
qed

section \<open>Slot accounting\<close>

abbreviation admitted :: "sys \<Rightarrow> nat set" where
  "admitted s \<equiv> {t. thr s t = Admitted}"

definition slots_ok :: "usize \<Rightarrow> sys \<Rightarrow> bool" where
  "slots_ok d s \<longleftrightarrow> finite (admitted s) \<and>
     DECODE_OUTSTANDING (glob s) = d + of_nat (card (admitted s))"

lemma admit_step_admitted:
  assumes "admit_step ok a pc = (a', pc')"
  shows "pc' = Admitted \<Longrightarrow> pc \<noteq> Admitted \<Longrightarrow> DECODE_OUTSTANDING a' = DECODE_OUTSTANDING a + 1"
    and "pc' \<noteq> Admitted \<or> pc = Admitted \<Longrightarrow> DECODE_OUTSTANDING a' = DECODE_OUTSTANDING a"
    and "pc = Admitted \<Longrightarrow> pc' = Admitted"
  using assms by (cases pc; auto simp: decode_enter_def split: if_splits option.splits)+

lemma admitted_update [simp]:
  "admitted (s\<lparr>glob := g, thr := (thr s)(t := pc)\<rparr>) =
     (if pc = Admitted then insert t (admitted s) else admitted s - {t})"
  "admitted (s\<lparr>thr := (thr s)(t := pc)\<rparr>) =
     (if pc = Admitted then insert t (admitted s) else admitted s - {t})"
  "admitted (s\<lparr>glob := g, owed := n, thr := (thr s)(t := pc)\<rparr>) =
     (if pc = Admitted then insert t (admitted s) else admitted s - {t})"
  by (auto split: if_splits)

lemma slots_ok_step:
  assumes s: "slots_ok d s" and st: "sys_step s l s'"
  shows "slots_ok d s'"
  using st
proof (cases rule: sys_step.cases)
  case (admit ok t g pc)
  consider (new) "pc = Admitted" "thr s t \<noteq> Admitted"
    | (old) "pc = Admitted" "thr s t = Admitted" | (other) "pc \<noteq> Admitted" "thr s t \<noteq> Admitted"
    using admit_step_admitted(3) [OF admit(3)] by blast
  then show ?thesis
  proof cases
    case new
    then show ?thesis
      using s admit_step_admitted(1) [OF admit(3)]
      unfolding admit(2) slots_ok_def admitted_update by simp
  next
    case old
    then have "insert t (admitted s) = admitted s" by auto
    then show ?thesis
      using s old admit_step_admitted(2) [OF admit(3)]
      unfolding admit(2) slots_ok_def admitted_update by simp
  next
    case other
    then have "admitted s - {t} = admitted s" by auto
    then show ?thesis
      using s other admit_step_admitted(2) [OF admit(3)]
      unfolding admit(2) slots_ok_def admitted_update by simp
  qed
next
  case (cancel t n p occ res)
  then have "admitted s - {t} = admitted s" by auto
  then show ?thesis using s unfolding cancel(2) slots_ok_def admitted_update by simp
next
  case (drop_decode t)
  then show ?thesis
    using s unfolding drop_decode(2) slots_ok_def admitted_update
    by (auto simp: decode_release_def of_nat_card_pred)
qed (use s in \<open>auto simp: slots_ok_def arbiter_ops\<close>)


section \<open>No wake-up is lost\<close>

text \<open>
  What a listener may rely on as long as no notification has been issued since it was created and none
  is owed: the counters have only moved in the refusing direction. An increment of
  \<open>ENCODE_OUTSTANDING\<close> is the one change that opens the gate without a notification.
\<close>

fun listener_ok :: "arbiter \<Rightarrow> nat \<Rightarrow> admit_pc \<Rightarrow> bool" where
  "listener_ok a w (Recheck n p occ res) = (n \<le> ARBITRATION_EVENT a)"
| "listener_ok a w (LoadDec (Some n) p occ res) = (n \<le> ARBITRATION_EVENT a \<and>
     (n = ARBITRATION_EVENT a \<and> w = 0 \<longrightarrow> ARBITRATION_ENABLED a))"
| "listener_ok a w (LoadRun (Some n) p occ res dec) = (n \<le> ARBITRATION_EVENT a \<and>
     (n = ARBITRATION_EVENT a \<and> w = 0 \<longrightarrow> ARBITRATION_ENABLED a \<and> dec \<le> DECODE_OUTSTANDING a))"
| "listener_ok a w (LoadEnc (Some n) p occ res dec run) = (n \<le> ARBITRATION_EVENT a \<and>
     (n = ARBITRATION_EVENT a \<and> w = 0 \<longrightarrow>
        ARBITRATION_ENABLED a \<and> dec \<le> DECODE_OUTSTANDING a \<and> run \<le> RUNNING a))"
| "listener_ok a w (Cas (Some n) p occ res dec run enc) = (n \<le> ARBITRATION_EVENT a \<and>
     (n = ARBITRATION_EVENT a \<and> w = 0 \<longrightarrow> ARBITRATION_ENABLED a))"
| "listener_ok a w (Awaiting n p occ res) = (n \<le> ARBITRATION_EVENT a \<and>
     (n = ARBITRATION_EVENT a \<and> w = 0 \<longrightarrow> ARBITRATION_ENABLED a \<and>
        refused p (RUNNING a) (DECODE_OUTSTANDING a) (ENCODE_OUTSTANDING a) occ res))"
| "listener_ok a w pc = True"

definition wake_inv :: "sys \<Rightarrow> bool" where
  "wake_inv s \<longleftrightarrow> (\<forall>t. listener_ok (glob s) (owed s) (thr s t))"

text \<open>A change that raises counters, or that owes a notification, keeps every listener's facts.\<close>

lemma listener_ok_mono:
  assumes "listener_ok a w pc"
    and "ARBITRATION_EVENT a' = ARBITRATION_EVENT a"
    and "w' = 0 \<Longrightarrow> w = 0 \<and> ARBITRATION_ENABLED a' = ARBITRATION_ENABLED a \<and>
      DECODE_OUTSTANDING a \<le> DECODE_OUTSTANDING a' \<and> RUNNING a \<le> RUNNING a' \<and>
      ENCODE_OUTSTANDING a' = ENCODE_OUTSTANDING a"
  shows "listener_ok a' w' pc"
  using assms
  by (induction a w pc rule: listener_ok.induct) (auto intro: refused_mono order_trans)

lemma listener_ok_notify:
  "listener_ok a w pc \<Longrightarrow> listener_ok (notify a) w' pc"
  by (induction a w pc rule: listener_ok.induct) (auto simp: notify_def)

lemma admit_step_dec_mono:
  assumes "admit_step ok a pc = (a', pc')" and "pc = Bypass \<Longrightarrow> DECODE_OUTSTANDING a \<noteq> - 1"
    and "\<And>l p occ res dec run enc. pc = Cas l p occ res dec run enc \<Longrightarrow> dec \<noteq> - 1"
  shows "DECODE_OUTSTANDING a \<le> DECODE_OUTSTANDING a'"
  using assms
  by (cases pc) (auto simp: decode_enter_def word_le_inc split: if_splits option.splits)

lemma admit_step_frame:
  assumes "admit_step ok a pc = (a', pc')"
  shows "ARBITRATION_EVENT a' = ARBITRATION_EVENT a" "ARBITRATION_ENABLED a' = ARBITRATION_ENABLED a"
    "RUNNING a' = RUNNING a" "ENCODE_OUTSTANDING a' = ENCODE_OUTSTANDING a"
    "ARBITRATION_OCCUPANCY_PCT a' = ARBITRATION_OCCUPANCY_PCT a"
    "ARBITRATION_ENCODE_RESERVE_PCT a' = ARBITRATION_ENCODE_RESERVE_PCT a"
    "POOL_THREAD_COUNT a' = POOL_THREAD_COUNT a"
  using assms by (cases pc; auto simp: decode_enter_def split: if_splits option.splits)+

lemma admit_step_listener_ok:
  assumes "admit_step ok a pc = (a', pc')" and "listener_ok a w pc"
  shows "listener_ok a' w pc'"
  using assms
  by (induction a w pc rule: listener_ok.induct)
    (auto simp: decode_enter_def split: if_splits intro: refused_mono)

text \<open>The attempt that reaches the compare-exchange was not refused by the values it loaded.\<close>

fun cas_ok :: "admit_pc \<Rightarrow> bool" where
  "cas_ok (Cas l p occ res dec run enc) \<longleftrightarrow> \<not> refused p run dec enc occ res"
| "cas_ok pc \<longleftrightarrow> True"

lemma not_refused_not_max: "\<not> refused p run dec enc occ res \<Longrightarrow> dec \<noteq> - 1"
  by (auto simp: refused_def)

lemma admit_step_cas_ok: "admit_step ok a pc = (a', pc') \<Longrightarrow> cas_ok pc'"
  by (cases pc) (auto split: if_splits option.splits)

definition adm_inv :: "sys \<Rightarrow> bool" where
  "adm_inv s \<longleftrightarrow> wake_inv s \<and> (\<forall>t. cas_ok (thr s t))"


lemma adm_inv_start: "adm_inv (sys_start g)"
  by (simp add: adm_inv_def wake_inv_def sys_start_def)

lemma cas_ok_step: "\<forall>t. cas_ok (thr s t) \<Longrightarrow> sys_step s l s' \<Longrightarrow> cas_ok (thr s' t)"
  by (erule sys_stepE) (auto dest: admit_step_cas_ok)

lemma adm_inv_step:
  assumes inv: "adm_inv s" and st: "sys_step s l s'" and l: "l \<noteq> EncEnter"
  shows "adm_inv s'"
proof -
  have w: "listener_ok (glob s) (owed s) (thr s t)" for t
    using inv by (simp add: adm_inv_def wake_inv_def)
  have c: "\<forall>t. cas_ok (thr s t)" using inv by (simp add: adm_inv_def)
  have "listener_ok (glob s') (owed s') (thr s' u)" for u
    using st
  proof (cases rule: sys_step.cases)
    case (admit ok t g pc)
    have "DECODE_OUTSTANDING (glob s) \<le> DECODE_OUTSTANDING g"
    proof (rule admit_step_dec_mono [OF admit(3)])
      fix l p occ res dec run enc
      assume "thr s t = Cas l p occ res dec run enc"
      with c have "cas_ok (Cas l p occ res dec run enc)" by metis
      then show "dec \<noteq> - 1" by (auto dest: not_refused_not_max)
    qed (rule admit(4))
    then have mono: "listener_ok g (owed s) (thr s u)"
      using admit_step_frame [OF admit(3)] by (intro listener_ok_mono [OF w [of u]]) auto
    show ?thesis
      using mono admit_step_listener_ok [OF admit(3) w [of t]] by (simp add: admit(2))
  next
    case (cancel t n p occ res)
    then show ?thesis using w [of u] by simp
  next
    case (drop_decode t)
    have "listener_ok (decode_release (glob s)) (owed s + 1) (thr s u)"
      by (rule listener_ok_mono [OF w [of u]]) (auto simp: decode_release_def)
    then show ?thesis by (simp add: drop_decode)
  next
    case enc_release
    then show ?thesis
      by simp (rule listener_ok_mono [OF w [of u]], auto simp: encode_release_def)
  next
    case run_enter
    then show ?thesis
      by simp (rule listener_ok_mono [OF w [of u]], auto simp: running_enter_def word_le_inc)
  next
    case run_release
    then show ?thesis
      by simp (rule listener_ok_mono [OF w [of u]], auto simp: running_release_def)
  next
    case (configure c)
    then show ?thesis
      by simp (rule listener_ok_mono [OF w [of u]], auto)
  next
    case notify
    then show ?thesis using w [of u] by (simp add: listener_ok_notify)
  next
    case pass_on
    then show ?thesis using w [of u] by (simp add: listener_ok_notify)
  qed (use l in simp)
  with cas_ok_step [OF c st] show ?thesis by (simp add: adm_inv_def wake_inv_def)
qed

lemma adm_inv_run: "sys_run (\<lambda>l. l \<noteq> EncEnter) (sys_start g) s \<Longrightarrow> adm_inv s"
  by (erule sys_run_invariant [where P = adm_inv]) (auto intro: adm_inv_step adm_inv_start)

lemma cas_ok_run: "sys_run ok (sys_start g) s \<Longrightarrow> cas_ok (thr s t)"
  by (rule spec [of _ t], erule sys_run_invariant [where P = "\<lambda>s. \<forall>t. cas_ok (thr s t)"])
    (auto simp: sys_start_def intro: cas_ok_step)

lemma slots_ok_start: "slots_ok (DECODE_OUTSTANDING g) (sys_start g)"
  by (simp add: slots_ok_def sys_start_def)

lemma slots_ok_run: "sys_run ok (sys_start g) s \<Longrightarrow> slots_ok (DECODE_OUTSTANDING g) s"
  by (erule sys_run_invariant [where P = "slots_ok (DECODE_OUTSTANDING g)"])
    (auto intro: slots_ok_step slots_ok_start)

section \<open>The cap is a hard limit\<close>

text \<open>
  A period is a run all of whose states satisfy a condition on the globals. The condition of interest:
  the arbiter is enabled with the caps of \<open>g\<close>, the pool is saturated, and between \<open>lo\<close> and \<open>hi\<close> encode
  tasks are outstanding. Within it encode tasks may come and go, and threads may be freed and taken.
\<close>

inductive period :: "(arbiter \<Rightarrow> bool) \<Rightarrow> sys \<Rightarrow> sys \<Rightarrow> bool" for P where
  period_start: "P (glob s) \<Longrightarrow> period P s s"
| period_step: "period P s s' \<Longrightarrow> sys_step s' l s'' \<Longrightarrow> P (glob s'') \<Longrightarrow> period P s s''"

definition threshold_of :: "arbiter \<Rightarrow> nat" where
  "threshold_of g = max (unat (POOL_THREAD_COUNT g) * unat (ARBITRATION_OCCUPANCY_PCT g) div 100) 1"

definition saturated :: "arbiter \<Rightarrow> nat \<Rightarrow> nat \<Rightarrow> arbiter \<Rightarrow> bool" where
  "saturated g lo hi a \<longleftrightarrow> ARBITRATION_ENABLED a \<and> pcts_ok g \<and>
     ARBITRATION_OCCUPANCY_PCT a = ARBITRATION_OCCUPANCY_PCT g \<and>
     ARBITRATION_ENCODE_RESERVE_PCT a = ARBITRATION_ENCODE_RESERVE_PCT g \<and>
     POOL_THREAD_COUNT a = POOL_THREAD_COUNT g \<and>
     0 < unat (POOL_THREAD_COUNT g) \<and> unat (POOL_THREAD_COUNT g) < 2 ^ 57 \<and>
     threshold_of g \<le> unat (RUNNING a) \<and>
     0 < lo \<and> lo \<le> unat (ENCODE_OUTSTANDING a) \<and> unat (ENCODE_OUTSTANDING a) \<le> hi"

text \<open>The most decode slots the policy grants then: the flood threshold, or the cap.\<close>

definition decode_bound :: "arbiter \<Rightarrow> nat \<Rightarrow> nat \<Rightarrow> nat" where
  "decode_bound g lo hi = max (2 * hi + 1)
     (max (unat (POOL_THREAD_COUNT g) - reserve_of (unat (POOL_THREAD_COUNT g))
        (unat (ARBITRATION_ENCODE_RESERVE_PCT g)) lo) 1)"

text \<open>An admitter that is in no attempt, so that it holds no decision taken before the period.\<close>

fun fresh :: "arbiter \<Rightarrow> admit_pc \<Rightarrow> bool" where
  "fresh g Start = True"
| "fresh g Admitted = True"
| "fresh g Gone = True"
| "fresh g (LoopTop p) = (p = POOL_THREAD_COUNT g)"
| "fresh g (Awaiting n p occ res) = (p = POOL_THREAD_COUNT g)"
| "fresh g pc = False"

text \<open>What the local copies of an admitter satisfy within the period.\<close>

fun locals_ok :: "arbiter \<Rightarrow> nat \<Rightarrow> nat \<Rightarrow> admit_pc \<Rightarrow> bool" where
  "locals_ok g lo hi (Gate p) = (p = POOL_THREAD_COUNT g)"
| "locals_ok g lo hi Bypass = False"
| "locals_ok g lo hi (LoopTop p) = (p = POOL_THREAD_COUNT g)"
| "locals_ok g lo hi (LoadOcc p) = (p = POOL_THREAD_COUNT g)"
| "locals_ok g lo hi (LoadRes p occ) = (p = POOL_THREAD_COUNT g \<and> occ = ARBITRATION_OCCUPANCY_PCT g)"
| "locals_ok g lo hi (LoadDec l p occ res) = (p = POOL_THREAD_COUNT g \<and>
     occ = ARBITRATION_OCCUPANCY_PCT g \<and> res = ARBITRATION_ENCODE_RESERVE_PCT g)"
| "locals_ok g lo hi (LoadRun l p occ res dec) = (p = POOL_THREAD_COUNT g \<and>
     occ = ARBITRATION_OCCUPANCY_PCT g \<and> res = ARBITRATION_ENCODE_RESERVE_PCT g)"
| "locals_ok g lo hi (LoadEnc l p occ res dec run) = (p = POOL_THREAD_COUNT g \<and>
     occ = ARBITRATION_OCCUPANCY_PCT g \<and> res = ARBITRATION_ENCODE_RESERVE_PCT g \<and>
     threshold_of g \<le> unat run)"
| "locals_ok g lo hi (Cas l p occ res dec run enc) = (p = POOL_THREAD_COUNT g \<and>
     occ = ARBITRATION_OCCUPANCY_PCT g \<and> res = ARBITRATION_ENCODE_RESERVE_PCT g \<and>
     unat (dec + 1) \<le> decode_bound g lo hi)"
| "locals_ok g lo hi (Listen p occ res) = (p = POOL_THREAD_COUNT g \<and>
     occ = ARBITRATION_OCCUPANCY_PCT g \<and> res = ARBITRATION_ENCODE_RESERVE_PCT g)"
| "locals_ok g lo hi (Recheck n p occ res) = (p = POOL_THREAD_COUNT g \<and>
     occ = ARBITRATION_OCCUPANCY_PCT g \<and> res = ARBITRATION_ENCODE_RESERVE_PCT g)"
| "locals_ok g lo hi (Awaiting n p occ res) = (p = POOL_THREAD_COUNT g)"
| "locals_ok g lo hi pc = True"

lemma fresh_locals_ok: "fresh g pc \<Longrightarrow> locals_ok g lo hi pc"
  by (cases pc) auto

text \<open>An attempt that was not refused took its slot within the bound, whatever values between the
  extremes of the period it loaded.\<close>

lemma not_refused_bound:
  assumes sat: "saturated g lo hi a" and run: "threshold_of g \<le> unat run"
    and nr: "\<not> refused (POOL_THREAD_COUNT g) run dec (ENCODE_OUTSTANDING a)
      (ARBITRATION_OCCUPANCY_PCT g) (ARBITRATION_ENCODE_RESERVE_PCT g)"
  shows "unat (dec + 1) \<le> decode_bound g lo hi"
proof -
  let ?e = "unat (ENCODE_OUTSTANDING a)"
  let ?cap = "decode_admit_cap (POOL_THREAD_COUNT g) run dec (ENCODE_OUTSTANDING a)
      (ARBITRATION_OCCUPANCY_PCT g) (ARBITRATION_ENCODE_RESERVE_PCT g)"
  let ?left = "\<lambda>e. unat (POOL_THREAD_COUNT g) - reserve_of (unat (POOL_THREAD_COUNT g))
         (unat (ARBITRATION_ENCODE_RESERVE_PCT g)) e"
  have e: "lo \<le> ?e" "?e \<le> hi" "?e \<noteq> 0" using sat by (auto simp: saturated_def)
  have n: "map_option unat ?cap =
      (if unat dec \<le> min (2 * ?e) (2 ^ 64 - 1) then None else Some (max (?left ?e) 1))"
    using sat run e by (subst decode_admit_cap_nat) (auto simp: saturated_def pcts_ok_def threshold_of_def)
  have inc: "unat (dec + 1) = unat dec + 1"
    using nr by (intro unat_inc not_refused_not_max)
  show ?thesis
  proof (cases ?cap)
    case None
    with n have "unat dec \<le> 2 * ?e" by (auto split: if_splits)
    with e show ?thesis by (simp add: inc decode_bound_def)
  next
    case (Some cap)
    with nr have "unat dec < unat cap" by (simp add: refused_def decode_limit_def word_less_nat_alt not_le)
    moreover from n Some have "unat cap = max (?left ?e) 1" by (auto split: if_splits)
    moreover have "?left ?e \<le> ?left lo" using e(1) by (simp add: reserve_of_def)
    ultimately show ?thesis by (simp add: inc decode_bound_def)
  qed
qed

definition hard_inv :: "arbiter \<Rightarrow> nat \<Rightarrow> nat \<Rightarrow> nat \<Rightarrow> sys \<Rightarrow> bool" where
  "hard_inv g lo hi d s \<longleftrightarrow> (\<forall>t. locals_ok g lo hi (thr s t)) \<and>
     unat (DECODE_OUTSTANDING (glob s)) \<le> max d (decode_bound g lo hi)"

lemma admit_step_locals:
  assumes "admit_step ok a pc = (a', pc')" and sat: "saturated g lo hi a" and "locals_ok g lo hi pc"
  shows "locals_ok g lo hi pc'"
  using assms not_refused_bound [OF sat]
  by (cases pc) (auto simp: saturated_def split: if_splits option.splits)

lemma admit_step_bound:
  assumes "admit_step ok a pc = (a', pc')" and "locals_ok g lo hi pc"
  shows "unat (DECODE_OUTSTANDING a') \<le> max (unat (DECODE_OUTSTANDING a)) (decode_bound g lo hi)"
  using assms by (cases pc) (auto simp: le_max_iff_disj split: if_splits option.splits)

lemma hard_inv_step:
  assumes sat: "saturated g lo hi (glob s)" and inv: "hard_inv g lo hi d s" and st: "sys_step s l s'"
  shows "hard_inv g lo hi d s'"
  using st
proof (cases rule: sys_step.cases)
  case (admit ok t a pc)
  have lo: "locals_ok g lo hi (thr s u)" for u using inv by (auto simp: hard_inv_def)
  show ?thesis
    using inv admit_step_locals [OF admit(3) sat lo] admit_step_bound [OF admit(3) lo]
    by (auto simp: hard_inv_def admit(2))
next
  case (drop_decode t)
  then have "unat (DECODE_OUTSTANDING (glob s) - 1) \<le> unat (DECODE_OUTSTANDING (glob s))"
    by (simp add: unat_dec)
  with inv show ?thesis by (auto simp: hard_inv_def drop_decode(2) decode_release_def)
qed (use inv in \<open>auto simp: hard_inv_def arbiter_ops\<close>)

lemma hard_inv_period:
  assumes "period (saturated g lo hi) s s'" and "\<And>t. fresh g (thr s t)"
  shows "hard_inv g lo hi (unat (DECODE_OUTSTANDING (glob s))) s' \<and> saturated g lo hi (glob s')"
  using assms
proof (induction rule: period.induct)
  case (period_start s)
  then show ?case by (simp add: hard_inv_def fresh_locals_ok)
next
  case (period_step s s' l s'')
  then show ?case using hard_inv_step by blast
qed

text \<open>The scheduler that checks the condition in every state.\<close>

fun period_exec :: "(arbiter \<Rightarrow> bool) \<Rightarrow> label list \<Rightarrow> sys \<Rightarrow> sys option" where
  "period_exec P [] s = (if P (glob s) then Some s else None)"
| "period_exec P (l # ls) s =
     (if P (glob s) then (case sys_exec1 l s of None \<Rightarrow> None | Some s' \<Rightarrow> period_exec P ls s') else None)"

lemma period_one: "P (glob s) \<Longrightarrow> sys_step s l s' \<Longrightarrow> P (glob s') \<Longrightarrow> period P s s'"
  by (blast intro: period.intros)

lemma period_trans: "period P s' s'' \<Longrightarrow> period P s s' \<Longrightarrow> period P s s''"
  by (induction rule: period.induct) (auto intro: period.intros)

lemma period_exec_holds: "period_exec P ls s = Some s' \<Longrightarrow> P (glob s)"
  by (cases ls) (auto split: if_splits)

lemma period_exec_period: "period_exec P ls s = Some s' \<Longrightarrow> period P s s'"
proof (induction ls arbitrary: s)
  case Nil
  then show ?case by (auto intro: period_start split: if_splits)
next
  case (Cons l ls)
  then obtain u where p: "P (glob s)" and u: "sys_exec1 l s = Some u" and r: "period_exec P ls u = Some s'"
    by (auto split: if_splits option.splits)
  have "period P s u" using p sys_exec1_step [OF u] period_exec_holds [OF r] by (rule period_one)
  with Cons.IH [OF r] show ?case by (rule period_trans)
qed

section \<open>Properties\<close>

fun admit_run :: "nat \<Rightarrow> arbiter \<Rightarrow> admit_pc \<Rightarrow> arbiter \<times> admit_pc" where
  "admit_run 0 a pc = (a, pc)"
| "admit_run (Suc n) a pc = (let (a', pc') = admit_step True a pc in admit_run n a' pc')"

lemma admit_run_Suc_numeral [simp]:
  "admit_run (numeral k) a pc =
     (let (a', pc') = admit_step True a pc in admit_run (pred_numeral k) a' pc')"
  by (simp add: numeral_eq_Suc)

abbreviation busy :: "usize \<Rightarrow> usize \<Rightarrow> usize \<Rightarrow> arbiter" where
  "busy run enc dec \<equiv> arbiter_init\<lparr>POOL_THREAD_COUNT := 8, RUNNING := run,
     ENCODE_OUTSTANDING := enc, DECODE_OUTSTANDING := dec\<rparr>"

lemma usize_max_le: "(- 1 :: usize) \<le> w \<longleftrightarrow> 2 ^ 64 - 1 \<le> unat w"
  by (simp add: word_le_nat_alt unat_max_word)

lemmas run_simps = usize_max_le sys_start_def arbiter_init_def arbiter_ops refused_def decode_limit_def
  decode_admit_cap_def DECODE_FLOOD_FACTOR_def sat_mul_def sat_sub_def div_ceil_def clamp_def
  Let_def

text \<open>An admitter that runs alone finishes its call within thirteen atomic operations and does what
  one uncontended \<open>try_reserve_decode\<close> says: it passes when the arbiter is disabled or the pool has
  no threads, reserves exactly one slot when under the cap, and otherwise parks having changed nothing.\<close>

lemma admit_decode_alone:
  "admit_run 13 a Start =
     (if ARBITRATION_ENABLED a \<and> POOL_THREAD_COUNT a \<noteq> 0 then
        (case try_reserve_decode (POOL_THREAD_COUNT a) (ARBITRATION_OCCUPANCY_PCT a)
            (ARBITRATION_ENCODE_RESERVE_PCT a) a of
           (True, a') \<Rightarrow> (a', Admitted)
         | (False, a') \<Rightarrow> (a', Awaiting (ARBITRATION_EVENT a) (POOL_THREAD_COUNT a)
             (ARBITRATION_OCCUPANCY_PCT a) (ARBITRATION_ENCODE_RESERVE_PCT a)))
      else (decode_enter a, Admitted))"
  by (auto simp: try_reserve_decode_def refused_def Let_def)

text \<open>In every interleaving, \<open>DECODE_OUTSTANDING\<close> has grown by exactly the number of
  admitters that hold a slot: no admission path loses or duplicates a reservation.\<close>

lemma admission_slot_accounting:
  assumes "sys_run ok (sys_start g) s"
  shows "finite (admitted s) \<and> DECODE_OUTSTANDING (glob s) =
    DECODE_OUTSTANDING g + of_nat (card {t. thr s t = Admitted})"
  using slots_ok_run [OF assms] by (simp add: slots_ok_def)

text \<open>C2. As long as the pool stays saturated with encode work present, however many admitters race
  through their compare-exchange loops, and whatever encode tasks and pool threads come and go
  meanwhile, they never push \<open>DECODE_OUTSTANDING\<close> beyond the flood threshold and the cap (or the value
  it already had): the check and the reservation cannot be separated by another admitter.\<close>

theorem admission_cap_is_hard:
  assumes "period (saturated g lo hi) s s'" and "\<And>t. fresh g (thr s t)"
  shows "unat (DECODE_OUTSTANDING (glob s')) \<le>
    max (unat (DECODE_OUTSTANDING (glob s))) (decode_bound g lo hi)"
  using hard_inv_period [OF assms] by (simp add: hard_inv_def)

theorem admission_cap_is_hard_witness:
  "\<exists>s. period (saturated (busy 8 1 2) 1 2) (sys_start (busy 8 1 2)) s \<and> thr s 0 = Admitted \<and>
     unat (DECODE_OUTSTANDING (glob s)) \<le> max 2 (decode_bound (busy 8 1 2) 1 2)"
proof -
  let ?g = "busy 8 1 2"
  let ?ls = "replicate 8 (Admit 0 True) @ [EncEnter, RunRelease, Notify] @ replicate 4 (Admit 0 True)"
  obtain s where s: "period_exec (saturated ?g 1 2) ?ls (sys_start ?g) = Some s"
    and t: "thr s 0 = Admitted"
    by (simp add: run_simps saturated_def threshold_of_def pcts_ok_def)
  have f: "fresh ?g (thr (sys_start ?g) t)" for t by (simp add: sys_start_def)
  show ?thesis using t admission_cap_is_hard [OF period_exec_period [OF s] f] period_exec_period [OF s]
    by (intro exI [of _ s]) (simp add: sys_start_def)
qed




text \<open>A starting encode task can open the gate of a parked admitter (decode is no longer flooding
  relative to encode), and does so without notifying it.\<close>

lemma encode_start_does_not_wake:
  "\<exists>g s n p occ res. sys_run (\<lambda>_. True) (sys_start g) s \<and>
     thr s 0 = Awaiting n p occ res \<and> ARBITRATION_EVENT (glob s) = n \<and> owed s = 0 \<and>
     fst (try_reserve_decode p occ res (glob s))"
proof -
  let ?ls = "replicate 13 (Admit 0 True) @ replicate 4 EncEnter"
  let ?g = "busy 8 1 9"
  obtain s where s: "sys_exec ?ls (sys_start ?g) = Some s" and
    facts: "thr s 0 = Awaiting 0 8 75 50" "glob s = ?g\<lparr>ENCODE_OUTSTANDING := 5\<rparr>" "owed s = 0"
    by (simp add: run_simps)
  have "sys_run (\<lambda>_. True) (sys_start ?g) s"
    by (rule sys_exec_run [OF s]) simp
  moreover have "fst (try_reserve_decode 8 75 50 (glob s))"
    by (simp add: facts try_reserve_decode_def run_simps)
  ultimately show ?thesis using facts
    by (intro exI [of _ ?g] exI [of _ s]) (simp add: arbiter_init_def)
qed

end
