(* ===== verification/Wakeups.thy ===== *)
theory Wakeups
  imports Admission
begin

text \<open>
  Who is woken: the admission machine of \<open>Admission\<close> with the listeners of \<open>ARBITRATION_EVENT\<close> one by one
  (\<open>src/parallelize/cpu/arbitration.rs\<close>). In \<open>Admission\<close> a notification lets every parked admitter go on;
  here \<open>notify(1.additional())\<close>, issued by a guard that is dropped, reaches one listener that was not
  notified yet, \<open>notify(usize::MAX)\<close>, issued by \<open>apply\<close>, reaches all of them, and a listener that was
  notified and is dropped without having been awaited passes its notification on. Which listener is reached
  is left open. The machine refines \<open>Admission\<close>, and no admitter is ever stranded in it.
\<close>

section \<open>Listeners\<close>

text \<open>The listener an admitter holds, as the count of the event at its creation.\<close>

fun listens :: "admit_pc \<Rightarrow> nat option" where
  "listens (LoadDec l p occ res) = l"
| "listens (LoadRun l p occ res dec) = l"
| "listens (LoadEnc l p occ res dec run) = l"
| "listens (Cas l p occ res dec run enc) = l"
| "listens (Recheck n p occ res) = Some n"
| "listens (Awaiting n p occ res) = Some n"
| "listens pc = None"

fun parked :: "admit_pc \<Rightarrow> bool" where
  "parked (Awaiting n p occ res) = True"
| "parked pc = False"

record wsys =
  base :: sys
  notified :: "nat set"       \<comment> \<open>admitters whose listener was reached\<close>
  owed_all :: nat             \<comment> \<open>those of the owed notifications that are \<open>notify(usize::MAX)\<close>\<close>

abbreviation has_listener :: "wsys \<Rightarrow> nat \<Rightarrow> bool" where
  "has_listener s t \<equiv> listens (thr (base s) t) \<noteq> None"

text \<open>The listener of \<open>t\<close> is dropped: the admitter that its notification is passed to, if any, and who
  is notified afterwards.\<close>

inductive dropped :: "wsys \<Rightarrow> nat \<Rightarrow> nat option \<Rightarrow> nat set \<Rightarrow> bool" for s t where
  unheard: "t \<notin> notified s \<Longrightarrow> dropped s t None (notified s)"
| nobody: "t \<in> notified s \<Longrightarrow> (\<And>u. u \<noteq> t \<Longrightarrow> has_listener s u \<Longrightarrow> u \<in> notified s) \<Longrightarrow>
    dropped s t None (notified s - {t})"
| passed: "t \<in> notified s \<Longrightarrow> u \<noteq> t \<Longrightarrow> has_listener s u \<Longrightarrow> u \<notin> notified s \<Longrightarrow>
    dropped s t (Some u) (insert u (notified s - {t}))"

definition pass_to :: "nat option \<Rightarrow> sys \<Rightarrow> sys" where
  "pass_to v b = (case v of None \<Rightarrow> b | Some _ \<Rightarrow> b\<lparr>glob := notify (glob b)\<rparr>)"

fun counter_label :: "label \<Rightarrow> bool" where
  "counter_label (DropDecode t) = True"
| "counter_label EncEnter = True"
| "counter_label EncRelease = True"
| "counter_label RunEnter = True"
| "counter_label RunRelease = True"
| "counter_label l = False"

inductive w_step :: "wsys \<Rightarrow> label \<Rightarrow> wsys \<Rightarrow> bool" where
  w_admit: "sys_step (base s) (Admit t ok) b \<Longrightarrow> \<not> parked (thr (base s) t) \<Longrightarrow>
     has_listener s t \<longrightarrow> listens (thr b t) \<noteq> None \<Longrightarrow> w_step s (Admit t ok) (s\<lparr>base := b\<rparr>)"
| w_leave: "sys_step (base s) (Admit t ok) b \<Longrightarrow> \<not> parked (thr (base s) t) \<Longrightarrow> has_listener s t \<Longrightarrow>
     listens (thr b t) = None \<Longrightarrow> dropped s t v N \<Longrightarrow>
     w_step s (Admit t ok) (s\<lparr>base := pass_to v b, notified := N\<rparr>)"
| w_wake: "thr (base s) t = Awaiting n p occ res \<Longrightarrow> t \<in> notified s \<Longrightarrow>
     w_step s (Admit t ok)
       (s\<lparr>base := (base s)\<lparr>thr := (thr (base s))(t := LoopTop p)\<rparr>, notified := notified s - {t}\<rparr>)"
| w_cancel: "sys_step (base s) (Cancel t) b \<Longrightarrow> dropped s t v N \<Longrightarrow>
     w_step s (Cancel t) (s\<lparr>base := pass_to v b, notified := N\<rparr>)"
| w_notify: "sys_step (base s) Notify b \<Longrightarrow> owed_all s < owed (base s) \<Longrightarrow> has_listener s u \<Longrightarrow>
     u \<notin> notified s \<Longrightarrow> w_step s Notify (s\<lparr>base := b, notified := insert u (notified s)\<rparr>)"
| w_notify_none: "sys_step (base s) Notify b \<Longrightarrow> owed_all s < owed (base s) \<Longrightarrow>
     (\<And>u. has_listener s u \<Longrightarrow> u \<in> notified s) \<Longrightarrow> w_step s Notify (s\<lparr>base := b\<rparr>)"
| w_notify_all: "sys_step (base s) Notify b \<Longrightarrow> 0 < owed_all s \<Longrightarrow>
     w_step s Notify (s\<lparr>base := b, notified := {u. has_listener s u}, owed_all := owed_all s - 1\<rparr>)"
| w_configure: "sys_step (base s) (Configure c) b \<Longrightarrow>
     w_step s (Configure c) (s\<lparr>base := b, owed_all := owed_all s + 1\<rparr>)"
| w_count: "sys_step (base s) l b \<Longrightarrow> counter_label l \<Longrightarrow> w_step s l (s\<lparr>base := b\<rparr>)"

inductive_cases w_stepE: "w_step s l s'"

definition w_start :: "arbiter \<Rightarrow> wsys" where
  "w_start g = \<lparr>base = sys_start g, notified = {}, owed_all = 0\<rparr>"

inductive w_reach :: "arbiter \<Rightarrow> wsys \<Rightarrow> bool" for g where
  w_init: "w_reach g (w_start g)"
| w_next: "w_reach g s \<Longrightarrow> w_step s l s' \<Longrightarrow> w_reach g s'"

text \<open>A scheduler: the choice of who is reached is an input, and only steps that reach somebody or drop
  a listener that was not reached are scheduled.\<close>

fun w_exec1 :: "label \<times> nat option \<Rightarrow> wsys \<Rightarrow> wsys option" where
  "w_exec1 (Admit t ok, v) s =
     (if parked (thr (base s) t) then None
      else case sys_exec1 (Admit t ok) (base s) of
             None \<Rightarrow> None
           | Some b \<Rightarrow>
               if has_listener s t \<and> listens (thr b t) = None \<and> t \<in> notified s then None
               else Some (s\<lparr>base := b\<rparr>))"
| "w_exec1 (Notify, Some u) s =
     (if owed_all s < owed (base s) \<and> has_listener s u \<and> u \<notin> notified s
      then map_option (\<lambda>b. s\<lparr>base := b, notified := insert u (notified s)\<rparr>) (sys_exec1 Notify (base s))
      else None)"
| "w_exec1 (l, v) s =
     (if counter_label l then map_option (\<lambda>b. s\<lparr>base := b\<rparr>) (sys_exec1 l (base s)) else None)"

fun w_exec :: "(label \<times> nat option) list \<Rightarrow> wsys \<Rightarrow> wsys option" where
  "w_exec [] s = Some s"
| "w_exec (l # ls) s = (case w_exec1 l s of None \<Rightarrow> None | Some s' \<Rightarrow> w_exec ls s')"

lemma w_exec1_admit:
  assumes ex: "w_exec1 (Admit t ok, v) s = Some s'"
  shows "w_step s (Admit t ok) s'"
proof -
  from ex obtain b where np: "\<not> parked (thr (base s) t)" and b: "sys_exec1 (Admit t ok) (base s) = Some b"
    and k: "\<not> (has_listener s t \<and> listens (thr b t) = None \<and> t \<in> notified s)" and s': "s' = s\<lparr>base := b\<rparr>"
    by (auto simp del: sys_exec1.simps split: if_splits option.splits)
  note st = sys_exec1_step [OF b]
  show ?thesis
  proof (cases "has_listener s t \<and> listens (thr b t) = None")
    case True
    with k have "dropped s t None (notified s)" by (intro unheard) simp
    with True np st have "w_step s (Admit t ok) (s\<lparr>base := pass_to None b, notified := notified s\<rparr>)"
      by (intro w_leave) auto
    then show ?thesis using s' by (simp add: pass_to_def)
  next
    case False
    then show ?thesis using st np s' by (auto intro: w_admit)
  qed
qed

lemma w_exec1_step:
  assumes ex: "w_exec1 (l, v) s = Some s'"
  shows "w_step s l s'"
proof (cases "counter_label l")
  case True
  then have "map_option (\<lambda>b. s\<lparr>base := b\<rparr>) (sys_exec1 l (base s)) = Some s'"
    using ex by (cases l) (simp_all del: sys_exec1.simps)
  then show ?thesis using True by (auto intro: w_count sys_exec1_step)
next
  case False
  then consider t ok where "l = Admit t ok" | u where "l = Notify" "v = Some u"
    using ex by (cases l; cases v) (auto simp del: sys_exec1.simps)
  then show ?thesis
  proof cases
    case 1
    then show ?thesis using ex w_exec1_admit by simp
  next
    case 2
    then show ?thesis using ex by (auto simp del: sys_exec1.simps intro!: w_notify sys_exec1_step split: if_splits)
  qed
qed

lemma w_exec_reach: "w_reach g s \<Longrightarrow> w_exec ls s = Some s' \<Longrightarrow> w_reach g s'"
proof (induction ls arbitrary: s)
  case (Cons lv ls)
  obtain l v where lv: "lv = (l, v)" by fastforce
  with Cons.prems obtain u where u: "w_exec1 (l, v) s = Some u" and r: "w_exec ls u = Some s'"
    by (auto split: option.splits)
  from w_next [OF Cons.prems(1) w_exec1_step [OF u]] r show ?case by (rule Cons.IH)
qed simp


section \<open>Refinement of the admission machine\<close>

text \<open>A listener was created no later than now, and one that was notified before the last notification.\<close>

definition ev_inv :: "wsys \<Rightarrow> bool" where
  "ev_inv s \<longleftrightarrow> (\<forall>t n. listens (thr (base s) t) = Some n \<longrightarrow>
     n \<le> ARBITRATION_EVENT (glob (base s)) \<and> (t \<in> notified s \<longrightarrow> n < ARBITRATION_EVENT (glob (base s)))) \<and>
   (\<forall>t \<in> notified s. has_listener s t)"

lemma admit_listens:
  assumes "admit_step ok a pc = (a', pc')" and "listens pc' = Some n"
  shows "listens pc = Some n \<or> (n = ARBITRATION_EVENT a \<and> listens pc = None)"
  using assms by (cases pc) (auto split: if_splits option.splits)

lemma dropped_notified:
  assumes "dropped s t v N" and "ev_inv s"
  shows "N \<subseteq> {u. has_listener s u \<and> u \<noteq> t} \<and> (v = None \<longrightarrow> N \<subseteq> notified s)"
  using assms by (cases rule: dropped.cases) (auto simp: ev_inv_def)

lemma sys_run_one: "sys_step s l s' \<Longrightarrow> sys_run (\<lambda>_. True) s s'"
  by (rule run_step [OF run_refl]) simp_all

lemma sys_run_pass:
  assumes "sys_step s l b"
  shows "sys_run (\<lambda>_. True) s (pass_to v b)"
proof -
  have one: "sys_run (\<lambda>_. True) s b" by (rule sys_run_one [OF assms])
  have "sys_run (\<lambda>_. True) s (b\<lparr>glob := notify (glob b)\<rparr>)"
    by (rule run_step [OF one sys_step.pass_on]) (rule TrueI)
  with one show ?thesis by (simp add: pass_to_def split: option.split)
qed

lemma pass_to_sel [simp]:
  "thr (pass_to v b) = thr b" "owed (pass_to v b) = owed b"
  "DECODE_OUTSTANDING (glob (pass_to v b)) = DECODE_OUTSTANDING (glob b)"
  "ARBITRATION_EVENT (glob (pass_to v b)) =
     ARBITRATION_EVENT (glob b) + (if v = None then 0 else 1)"
  by (auto simp: pass_to_def notify_def split: option.splits)

lemma admit_stepE:
  assumes "sys_step s (Admit t ok) b"
  obtains g pc where "admit_step ok (glob s) (thr s t) = (g, pc)"
    and "b = s\<lparr>glob := g, thr := (thr s)(t := pc)\<rparr>"
    and "thr s t = Bypass \<longrightarrow> DECODE_OUTSTANDING (glob s) \<noteq> - 1"
  using assms by (auto elim: sys_stepE)

lemma ev_inv_admit:
  assumes inv: "ev_inv s" and st: "sys_step (base s) (Admit t ok) b"
  shows "u \<noteq> t \<Longrightarrow> thr b u = thr (base s) u"
    and "ARBITRATION_EVENT (glob b) = ARBITRATION_EVENT (glob (base s))"
    and "listens (thr b t) = Some n \<Longrightarrow> listens (thr (base s) t) = Some n \<or>
      (n = ARBITRATION_EVENT (glob (base s)) \<and> listens (thr (base s) t) = None)"
proof -
  from st obtain g pc where ad: "admit_step ok (glob (base s)) (thr (base s) t) = (g, pc)"
    and b: "b = (base s)\<lparr>glob := g, thr := (thr (base s))(t := pc)\<rparr>" by (rule admit_stepE)
  show "u \<noteq> t \<Longrightarrow> thr b u = thr (base s) u"
    and "ARBITRATION_EVENT (glob b) = ARBITRATION_EVENT (glob (base s))"
    unfolding b using admit_step_frame(1) [OF ad] by simp_all
  show "listens (thr b t) = Some n \<Longrightarrow> listens (thr (base s) t) = Some n \<or>
      (n = ARBITRATION_EVENT (glob (base s)) \<and> listens (thr (base s) t) = None)"
    unfolding b using admit_listens [OF ad, of n] by simp
qed

lemma ev_inv_drop:
  assumes inv: "ev_inv s" and d: "dropped s t v N"
    and frame: "ARBITRATION_EVENT (glob b) = ARBITRATION_EVENT (glob (base s))"
      "\<And>u. u \<noteq> t \<Longrightarrow> thr b u = thr (base s) u" "listens (thr b t) = None"
  shows "ev_inv (s\<lparr>base := pass_to v b, notified := N\<rparr>)"
proof -
  have N: "N \<subseteq> {u. has_listener s u \<and> u \<noteq> t}" and vN: "v = None \<Longrightarrow> N \<subseteq> notified s"
    using dropped_notified [OF d inv] by auto
  have "n \<le> ARBITRATION_EVENT (glob (base s)) \<and> (u \<in> notified s \<longrightarrow> n < ARBITRATION_EVENT (glob (base s)))"
    if "listens (thr b u) = Some n" for u n
    using that frame inv by (cases "u = t") (auto simp: ev_inv_def)
  moreover have "listens (thr b u) \<noteq> None" if "u \<in> N" for u
    using that N frame(2) [of u] by auto
  ultimately show ?thesis using N vN frame(1) by (cases v) (fastforce simp: ev_inv_def)+
qed


lemma ev_inv_keep:
  assumes inv: "ev_inv s" and le: "ARBITRATION_EVENT (glob (base s)) \<le> ARBITRATION_EVENT (glob b)"
    and same: "\<And>u. listens (thr b u) = listens (thr (base s) u)"
  shows "ev_inv (s\<lparr>base := b\<rparr>)" "ev_inv (s\<lparr>base := b, owed_all := k\<rparr>)"
  using inv le by (auto simp: ev_inv_def same intro: order_trans less_le_trans)

lemma ev_inv_reach_all:
  assumes inv: "ev_inv s" and lt: "ARBITRATION_EVENT (glob (base s)) < ARBITRATION_EVENT (glob b)"
    and same: "\<And>u. listens (thr b u) = listens (thr (base s) u)" and N: "N \<subseteq> {u. has_listener s u}"
  shows "ev_inv (s\<lparr>base := b, notified := N\<rparr>)" "ev_inv (s\<lparr>base := b, notified := N, owed_all := k\<rparr>)"
proof -
  have "n < ARBITRATION_EVENT (glob b)" if "listens (thr (base s) u) = Some n" for u n
    using that inv lt by (auto simp: ev_inv_def intro: le_less_trans)
  then show "ev_inv (s\<lparr>base := b, notified := N\<rparr>)" "ev_inv (s\<lparr>base := b, notified := N, owed_all := k\<rparr>)"
    using N by (auto simp: ev_inv_def same intro: less_imp_le)
qed

lemma notify_stepE:
  assumes "sys_step s Notify b"
  shows "b = s\<lparr>glob := notify (glob s), owed := owed s - 1\<rparr>" and "0 < owed s"
  using assms by (auto elim: sys_stepE)

lemma counter_frame:
  assumes "sys_step s l b" and "counter_label l"
  shows "ARBITRATION_EVENT (glob b) = ARBITRATION_EVENT (glob s)" and "listens (thr b u) = listens (thr s u)"
  using assms by (auto elim!: sys_stepE simp: arbiter_ops)

lemma w_step_ev_inv:
  assumes inv: "ev_inv s" and st: "w_step s l s'"
  shows "ev_inv s' \<and> sys_run (\<lambda>_. True) (base s) (base s')"
  using st
proof (cases rule: w_step.cases)
  case (w_admit t ok b)
  note A = ev_inv_admit [OF inv w_admit(3)]
  have "n \<le> ARBITRATION_EVENT (glob b) \<and> (u \<in> notified s \<longrightarrow> n < ARBITRATION_EVENT (glob b))"
    if "listens (thr b u) = Some n" for u n
    using that A inv by (cases "u = t") (fastforce simp: ev_inv_def)+
  moreover have "listens (thr b u) \<noteq> None" if "u \<in> notified s" for u
    using that A(1) [of u] w_admit(5) inv by (cases "u = t") (auto simp: ev_inv_def)
  ultimately have "ev_inv s'" by (simp add: w_admit(2) ev_inv_def)
  then show ?thesis using sys_run_one [OF w_admit(3)] by (simp add: w_admit(2))
next
  case (w_leave t ok b v N)
  note A = ev_inv_admit [OF inv w_leave(3)]
  have "ev_inv s'" unfolding w_leave(2) using A(1,2) w_leave(6) by (intro ev_inv_drop [OF inv w_leave(7)]) auto
  then show ?thesis using sys_run_pass [OF w_leave(3)] by (simp add: w_leave(2))
next
  case (w_wake t n p occ res ok)
  let ?b = "(base s)\<lparr>thr := (thr (base s))(t := LoopTop p)\<rparr>"
  have "listens (thr (base s) t) = Some n" using w_wake(3) by simp
  then have "n < ARBITRATION_EVENT (glob (base s))" using inv w_wake(4) by (simp add: ev_inv_def)
  then have "sys_step (base s) (Admit t ok) ((base s)\<lparr>glob := glob (base s), thr := (thr (base s))(t := LoopTop p)\<rparr>)"
    using w_wake(3) by (intro sys_step.admit) simp_all
  then have "sys_run (\<lambda>_. True) (base s) ?b" by (intro sys_run_one) simp
  moreover have "ev_inv s'" using inv by (auto simp: w_wake(2) ev_inv_def)
  ultimately show ?thesis by (simp add: w_wake(2))
next
  case (w_cancel t b v N)
  have "ev_inv s'" unfolding w_cancel(2) using w_cancel(3)
    by (intro ev_inv_drop [OF inv w_cancel(4)]) (auto elim!: sys_stepE)
  then show ?thesis using sys_run_pass [OF w_cancel(3)] by (simp add: w_cancel(2))
next
  case (w_notify b u)
  note b = notify_stepE(1) [OF w_notify(3)]
  have "ev_inv s'" unfolding w_notify(2) b using w_notify(5) inv
    by (intro ev_inv_reach_all [OF inv]) (auto simp: notify_def ev_inv_def)
  then show ?thesis using sys_run_one [OF w_notify(3)] by (simp add: w_notify(2))
next
  case (w_notify_none b)
  note b = notify_stepE(1) [OF w_notify_none(3)]
  have "ev_inv s'" unfolding w_notify_none(2) b by (rule ev_inv_keep [OF inv]) (auto simp: notify_def)
  then show ?thesis using sys_run_one [OF w_notify_none(3)] by (simp add: w_notify_none(2))
next
  case (w_notify_all b)
  note b = notify_stepE(1) [OF w_notify_all(3)]
  have "ev_inv s'" unfolding w_notify_all(2) b
    by (rule ev_inv_reach_all [OF inv]) (auto simp: notify_def)
  then show ?thesis using sys_run_one [OF w_notify_all(3)] by (simp add: w_notify_all(2))
next
  case (w_configure c b)
  have "ev_inv s'" unfolding w_configure(2) using w_configure(3)
    by (intro ev_inv_keep [OF inv]) (auto elim!: sys_stepE)
  then show ?thesis using sys_run_one [OF w_configure(3)] by (simp add: w_configure(2))
next
  case (w_count b)
  have "ev_inv s'" unfolding w_count(1) using counter_frame [OF w_count(2,3)]
    by (intro ev_inv_keep [OF inv]) auto
  then show ?thesis using sys_run_one [OF w_count(2)] by (simp add: w_count(1))
qed

lemma w_reach_refines: "w_reach g s \<Longrightarrow> ev_inv s \<and> sys_run (\<lambda>_. True) (sys_start g) (base s)"
proof (induction rule: w_reach.induct)
  case w_init
  then show ?case by (simp add: w_start_def ev_inv_def sys_start_def run_refl)
next
  case (w_next s l s')
  then show ?case using w_step_ev_inv [of s l s'] by (blast intro: sys_run_trans)
qed


section \<open>Nobody is stranded\<close>

text \<open>
  An admitter is asleep when nothing but a notification will make it go on: it is parked, or bound to
  park after having seen decode work outstanding, and its listener was not reached. Any other one between
  its call and its admission is awake.
\<close>

fun dozes :: "admit_pc \<Rightarrow> bool" where
  "dozes (LoadRun (Some n) p occ res dec) \<longleftrightarrow> dec \<noteq> 0"
| "dozes (LoadEnc (Some n) p occ res dec run) \<longleftrightarrow> dec \<noteq> 0"
| "dozes (Awaiting n p occ res) \<longleftrightarrow> True"
| "dozes pc \<longleftrightarrow> False"

definition asleep :: "wsys \<Rightarrow> nat \<Rightarrow> bool" where
  "asleep s t \<longleftrightarrow> t \<notin> notified s \<and> dozes (thr (base s) t)"

definition awake :: "wsys \<Rightarrow> nat \<Rightarrow> bool" where
  "awake s t \<longleftrightarrow> thr (base s) t \<notin> {Start, Admitted, Gone} \<and> \<not> asleep s t"

text \<open>Somebody will still notify, or is still looking.\<close>

definition someone :: "wsys \<Rightarrow> bool" where
  "someone s \<longleftrightarrow> DECODE_OUTSTANDING (glob (base s)) \<noteq> 0 \<or> RUNNING (glob (base s)) \<noteq> 0 \<or>
     ENCODE_OUTSTANDING (glob (base s)) \<noteq> 0 \<or> owed (base s) \<noteq> 0 \<or> (\<exists>t. awake s t)"

definition alert_inv :: "wsys \<Rightarrow> bool" where
  "alert_inv s \<longleftrightarrow> (\<forall>t. cas_ok (thr (base s) t)) \<and> ((\<exists>t. asleep s t) \<longrightarrow> someone s)"

lemma zero_not_refused: "\<not> refused p run 0 enc occ res"
proof -
  have "decode_limit p run 0 enc occ res \<noteq> 0"
    by (auto simp: decode_limit_def decode_admit_cap_def Let_def max_def split: if_splits)
  then show ?thesis by (simp add: refused_def)
qed

lemma dozes_listens: "dozes pc \<Longrightarrow> listens pc \<noteq> None"
  by (cases pc rule: dozes.cases) auto

text \<open>Only an admitter that just saw decode work outstanding falls asleep.\<close>

lemma admit_dozes:
  assumes "admit_step ok a pc = (a', pc')" and "dozes pc'"
  shows "dozes pc \<and> a' = a \<or> DECODE_OUTSTANDING a' \<noteq> 0"
  using assms
  by (cases pc) (auto simp: zero_not_refused split: if_splits option.splits elim!: dozes.elims)

lemma inc_nonzero: "x \<noteq> - 1 \<Longrightarrow> (x :: 'a::len word) + 1 \<noteq> 0"
  by (metis add_diff_cancel_right' diff_0)

lemma admit_settles:
  assumes "admit_step ok a pc = (a', pc')" and "cas_ok pc" and "pc = Bypass \<Longrightarrow> DECODE_OUTSTANDING a \<noteq> - 1"
    and "pc' \<in> {Start, Admitted, Gone}"
  shows "pc' = pc \<and> a' = a \<or> DECODE_OUTSTANDING a' \<noteq> 0"
  using assms
  by (cases pc) (auto simp: decode_enter_def dest!: not_refused_not_max inc_nonzero split: if_splits option.splits)

lemma someone_awake: "awake s t \<Longrightarrow> someone s"
  by (auto simp: someone_def)


lemma someone_same:
  assumes "someone s" and "glob (base s') = glob (base s)" and "owed (base s') = owed (base s)"
    and "\<And>u. awake s u \<Longrightarrow> awake s' u"
  shows "someone s'"
  using assms by (auto simp: someone_def)

lemma someone_decoding: "DECODE_OUTSTANDING (glob (base s)) \<noteq> 0 \<Longrightarrow> someone s"
  by (simp add: someone_def)

lemma listener_awake: "has_listener s t \<Longrightarrow> t \<in> notified s \<Longrightarrow> awake s t"
  by (auto simp: awake_def asleep_def)

lemma alert_admit:
  assumes inv: "alert_inv s" and ad: "admit_step ok (glob (base s)) (thr (base s) t) = (g, pc)"
    and max: "thr (base s) t = Bypass \<Longrightarrow> DECODE_OUTSTANDING (glob (base s)) \<noteq> - 1"
    and t0: "asleep (s\<lparr>base := (base s)\<lparr>glob := g, thr := (thr (base s))(t := pc)\<rparr>\<rparr>) t0"
  shows "someone (s\<lparr>base := (base s)\<lparr>glob := g, thr := (thr (base s))(t := pc)\<rparr>\<rparr>)"
    (is "someone ?s")
proof (cases "pc \<in> {Start, Admitted, Gone}")
  case True
  have "cas_ok (thr (base s) t)" using inv by (simp add: alert_inv_def)
  from admit_settles [OF ad this max True] show ?thesis
  proof
    assume "pc = thr (base s) t \<and> g = glob (base s)"
    then have "?s = s" by simp
    with t0 inv show ?thesis by (auto simp: alert_inv_def)
  next
    assume "DECODE_OUTSTANDING g \<noteq> 0"
    then show ?thesis by (intro someone_decoding) simp
  qed
next
  case False
  show ?thesis
  proof (cases "asleep ?s t")
    case False
    with \<open>pc \<notin> {Start, Admitted, Gone}\<close> have "awake ?s t" by (simp add: awake_def)
    then show ?thesis by (rule someone_awake)
  next
    case True
    then have d: "dozes pc" "t \<notin> notified s" by (auto simp: asleep_def)
    from admit_dozes [OF ad d(1)] show ?thesis
    proof
      assume g: "dozes (thr (base s) t) \<and> g = glob (base s)"
      with d have t: "asleep s t" by (simp add: asleep_def)
      with inv have "someone s" by (auto simp: alert_inv_def)
      then show ?thesis
      proof (rule someone_same)
        show "awake s u \<Longrightarrow> awake ?s u" for u
          using t by (cases "u = t") (auto simp: awake_def asleep_def)
      qed (use g in simp_all)
    next
      assume "DECODE_OUTSTANDING g \<noteq> 0"
      then show ?thesis by (intro someone_decoding) simp
    qed
  qed
qed

lemma alert_cancel:
  assumes inv: "alert_inv s" and d: "dropped s t v N" and pk: "parked (thr (base s) t)"
    and s': "s' = s\<lparr>base := pass_to v ((base s)\<lparr>thr := (thr (base s))(t := Gone)\<rparr>), notified := N\<rparr>"
    and t0: "asleep s' t0"
  shows "someone s'"
proof -
  have t0': "t0 \<noteq> t" "t0 \<notin> N" "dozes (thr (base s) t0)"
    using t0 unfolding s' by (auto simp: asleep_def split: if_splits)
  note l0 = dozes_listens [OF t0'(3)]
  show ?thesis using d
  proof (cases rule: dropped.cases)
    case unheard
    have t: "asleep s t" using pk unheard(3) by (cases "thr (base s) t") (auto simp: asleep_def)
    have "someone s" using inv t by (auto simp: alert_inv_def)
    then show ?thesis
    proof (rule someone_same)
      show "awake s u \<Longrightarrow> awake s' u" for u
        using t unfolding s' by (cases "u = t") (auto simp: awake_def asleep_def unheard(2))
    qed (simp_all add: s' unheard(1) pass_to_def)
  next
    case nobody
    then show ?thesis using t0' l0 by auto
  next
    case (passed u)
    then have "awake s' u" unfolding s' by (intro listener_awake) auto
    then show ?thesis by (rule someone_awake)
  qed
qed


lemma someone_if:
  "owed (base s) \<noteq> 0 \<Longrightarrow> someone s" "RUNNING (glob (base s)) \<noteq> 0 \<Longrightarrow> someone s"
  "ENCODE_OUTSTANDING (glob (base s)) \<noteq> 0 \<Longrightarrow> someone s"
  by (auto simp: someone_def)

lemma alert_count:
  assumes "sys_step b l b'" and "counter_label l"
  shows "owed b' \<noteq> 0 \<or> RUNNING (glob b') \<noteq> 0 \<or> ENCODE_OUTSTANDING (glob b') \<noteq> 0"
  using assms by (auto elim!: sys_stepE simp: arbiter_ops inc_nonzero)

lemma w_step_thr:
  assumes "w_step s l s'"
  shows "(\<exists>b. sys_step (base s) l b \<and> thr (base s') = thr b) \<or>
    (\<exists>t p. thr (base s') = (thr (base s))(t := LoopTop p))"
  using assms by (cases rule: w_step.cases) auto

lemma w_step_cas_ok:
  assumes inv: "alert_inv s" and st: "w_step s l s'"
  shows "cas_ok (thr (base s') t)"
proof -
  have c: "\<forall>t. cas_ok (thr (base s) t)" using inv by (simp add: alert_inv_def)
  from w_step_thr [OF st] show ?thesis
  proof
    assume "\<exists>b. sys_step (base s) l b \<and> thr (base s') = thr b"
    then show ?thesis using cas_ok_step [OF c] by metis
  next
    assume "\<exists>t p. thr (base s') = (thr (base s))(t := LoopTop p)"
    then show ?thesis using c by auto
  qed
qed

lemma w_step_alert:
  assumes inv: "alert_inv s" and st: "w_step s l s'" and t0: "asleep s' t0"
  shows "someone s'"
  using st
proof (cases rule: w_step.cases)
  case (w_admit t ok b)
  obtain g pc where ad: "admit_step ok (glob (base s)) (thr (base s) t) = (g, pc)"
    and b: "b = (base s)\<lparr>glob := g, thr := (thr (base s))(t := pc)\<rparr>"
    and max: "thr (base s) t = Bypass \<longrightarrow> DECODE_OUTSTANDING (glob (base s)) \<noteq> - 1"
    using w_admit(3) by (rule admit_stepE)
  show ?thesis using alert_admit [OF inv ad max [rule_format]] t0 unfolding w_admit(2) b by blast
next
  case (w_leave t ok b v N)
  obtain g pc where ad: "admit_step ok (glob (base s)) (thr (base s) t) = (g, pc)"
    and b: "b = (base s)\<lparr>glob := g, thr := (thr (base s))(t := pc)\<rparr>"
    and max: "thr (base s) t = Bypass \<longrightarrow> DECODE_OUTSTANDING (glob (base s)) \<noteq> - 1"
    using w_leave(3) by (rule admit_stepE)
  have no: "listens pc = None" "pc \<noteq> thr (base s) t" using w_leave(5,6) b by auto
  show ?thesis
  proof (cases "pc \<in> {Start, Admitted, Gone}")
    case True
    have "cas_ok (thr (base s) t)" using inv by (simp add: alert_inv_def)
    from admit_settles [OF ad this max [rule_format] True] no(2) have "DECODE_OUTSTANDING g \<noteq> 0" by blast
    then show ?thesis unfolding w_leave(2) b by (intro someone_decoding) simp
  next
    case False
    then have "awake s' t" using no(1) dozes_listens [of pc] unfolding w_leave(2) b
      by (auto simp: awake_def asleep_def)
    then show ?thesis by (rule someone_awake)
  qed
next
  case (w_wake t n p occ res ok)
  then have "awake s' t" by (simp add: awake_def asleep_def)
  then show ?thesis by (rule someone_awake)
next
  case (w_cancel t b v N)
  then have "parked (thr (base s) t)" and "b = (base s)\<lparr>thr := (thr (base s))(t := Gone)\<rparr>"
    by (auto elim!: sys_stepE)
  with alert_cancel [OF inv w_cancel(4)] w_cancel(2) t0 show ?thesis by blast
next
  case (w_notify b u)
  then have "awake s' u" using notify_stepE(1) [OF w_notify(3)] by (intro listener_awake) simp_all
  then show ?thesis by (rule someone_awake)
next
  case (w_notify_none b)
  then show ?thesis using t0 dozes_listens [of "thr (base s) t0"] notify_stepE(1) [OF w_notify_none(3)]
    by (auto simp: asleep_def)
next
  case (w_notify_all b)
  then show ?thesis using t0 dozes_listens [of "thr (base s) t0"] notify_stepE(1) [OF w_notify_all(3)]
    by (auto simp: asleep_def)
next
  case (w_configure c b)
  then show ?thesis by (intro someone_if(1)) (auto elim!: sys_stepE)
next
  case (w_count b)
  then show ?thesis using alert_count [OF w_count(2,3)] someone_if [of s'] by auto
qed

lemma w_reach_alert: "w_reach g s \<Longrightarrow> alert_inv s"
proof (induction rule: w_reach.induct)
  case w_init
  then show ?case by (simp add: alert_inv_def w_start_def sys_start_def asleep_def)
next
  case (w_next s l s')
  then show ?case using w_step_cas_ok [OF w_next.IH w_next.hyps(2)] w_step_alert [OF w_next.IH w_next.hyps(2)]
    by (auto simp: alert_inv_def)
qed

section \<open>Properties\<close>

text \<open>C3. No admitter is stranded, although a guard that is dropped wakes one listener only and admitters give
  up while they wait: whenever one is parked and was not notified, a notification is owed, or an encode
  call, a decode call or a running task is outstanding and will notify when it ends, or another admitter
  has been notified or is in the middle of an attempt.\<close>

theorem no_admitter_stranded:
  assumes "w_reach g s" and "thr (base s) t = Awaiting n p occ res" and "t \<notin> notified s"
  shows "0 < owed (base s) \<or> DECODE_OUTSTANDING (glob (base s)) \<noteq> 0 \<or> RUNNING (glob (base s)) \<noteq> 0 \<or>
    ENCODE_OUTSTANDING (glob (base s)) \<noteq> 0 \<or>
    (\<exists>u. u \<noteq> t \<and> thr (base s) u \<notin> {Start, Admitted, Gone} \<and>
       (u \<in> notified s \<or> (\<forall>n p occ res. thr (base s) u \<noteq> Awaiting n p occ res)))"
proof -
  have t: "asleep s t" using assms(2,3) by (simp add: asleep_def)
  with w_reach_alert [OF assms(1)] have "someone s" by (auto simp: alert_inv_def)
  moreover have "u \<noteq> t \<and> thr (base s) u \<notin> {Start, Admitted, Gone} \<and>
      (u \<in> notified s \<or> (\<forall>n p occ res. thr (base s) u \<noteq> Awaiting n p occ res))" if "awake s u" for u
    using that t by (auto simp: awake_def asleep_def)
  ultimately show ?thesis unfolding someone_def by blast
qed

abbreviation two_parked :: "(label \<times> nat option) list" where
  "two_parked \<equiv> replicate 13 (Admit 0 True, None) @ replicate 13 (Admit 1 True, None)"

lemmas w_exec_simps = run_simps w_start_def

theorem no_admitter_stranded_witness:
  "\<exists>s n p occ res. w_reach (busy 8 1 9) s \<and> thr (base s) 1 = Awaiting n p occ res \<and>
     (0 < owed (base s) \<or> DECODE_OUTSTANDING (glob (base s)) \<noteq> 0 \<or> RUNNING (glob (base s)) \<noteq> 0 \<or>
      ENCODE_OUTSTANDING (glob (base s)) \<noteq> 0 \<or>
      (\<exists>u. u \<noteq> 1 \<and> thr (base s) u \<notin> {Start, Admitted, Gone} \<and>
         (u \<in> notified s \<or> (\<forall>n p occ res. thr (base s) u \<noteq> Awaiting n p occ res))))"
proof -
  obtain s n p occ res where s: "w_exec two_parked (w_start (busy 8 1 9)) = Some s"
    and t: "thr (base s) 1 = Awaiting n p occ res" "1 \<notin> notified s"
    by (simp add: w_exec_simps)
  have r: "w_reach (busy 8 1 9) s" by (rule w_exec_reach [OF w_init s])
  show ?thesis using r t no_admitter_stranded [OF r t] by blast
qed

text \<open>The end of the last encode call opens the gate for every parked admitter, but wakes one: the other
  stays parked with nothing owed, although the policy does not constrain it any more.\<close>

lemma one_is_woken:
  "\<exists>g s n p occ res. w_reach g s \<and> thr (base s) 1 = Awaiting n p occ res \<and> 1 \<notin> notified s \<and>
     owed (base s) = 0 \<and> ENCODE_OUTSTANDING (glob (base s)) = 0 \<and>
     fst (try_reserve_decode p occ res (glob (base s)))"
proof -
  let ?ls = "two_parked @ [(EncRelease, None), (Notify, Some 0)]"
  obtain s where s: "w_exec ?ls (w_start (busy 8 1 9)) = Some s"
    and t: "thr (base s) 1 = Awaiting 0 8 75 50" "1 \<notin> notified s" "owed (base s) = 0"
      "ENCODE_OUTSTANDING (glob (base s)) = 0" "fst (try_reserve_decode 8 75 50 (glob (base s)))"
    by (simp add: w_exec_simps try_reserve_decode_def)
  have "w_reach (busy 8 1 9) s" by (rule w_exec_reach [OF w_init s])
  with t show ?thesis by blast
qed

end
