(* ===== verification/CpuPool.thy ===== *)
theory CpuPool
  imports Admission
begin

text \<open>
  The CPU task pool, \<open>src/parallelize/mod.rs\<close>: the queue limit and its slots, the outstanding
  counters of the encode and decode paths, cooperative cancellation and the task metrics. A task is
  followed from the call of a spawn function to the release of everything it holds; \<open>task_step\<close> is
  one task moving, \<open>pool_step\<close> interleaves any number of them. What Rayon and the oneshot channel
  contribute is when a queued closure is picked up and whether its receiver is still alive.
\<close>

section \<open>State\<close>

datatype SpawnError = QueueFull usize usize   \<comment> \<open>current, limit\<close>

definition queue_limit_of_env :: "string option \<Rightarrow> usize option" where
  "queue_limit_of_env v =
     (case Option.bind v (parse_uint 64) of
        None \<Rightarrow> None
      | Some n \<Rightarrow> if 0 < n then Some (of_nat n) else None)"

record cpu = arbiter +
  OUTSTANDING :: usize
  QUEUE_LIMIT :: "usize option"
  tasks_submitted :: nat
  tasks_completed :: nat
  tasks_cancelled :: nat
  tasks_orphaned :: nat
  tasks_rejected :: nat
  outstanding_gauge :: int

definition cpu_init :: "usize option \<Rightarrow> cpu" where
  "cpu_init ql = \<lparr>ARBITRATION_ENABLED = True, ARBITRATION_OCCUPANCY_PCT = 75,
     ARBITRATION_ENCODE_RESERVE_PCT = 50, RUNNING = 0, ARBITRATION_EVENT = 0,
     ARBITRATION_CONFIGURED = False, POOL_THREAD_COUNT = 0,
     ENCODE_OUTSTANDING = 0, DECODE_OUTSTANDING = 0,
     OUTSTANDING = 0, QUEUE_LIMIT = ql, tasks_submitted = 0, tasks_completed = 0,
     tasks_cancelled = 0, tasks_orphaned = 0, tasks_rejected = 0, outstanding_gauge = 0\<rparr>"

definition encode_pool_has_headroom :: "'a arbiter_scheme \<Rightarrow> bool" where
  "encode_pool_has_headroom c =
     (let threads = POOL_THREAD_COUNT c in
      if threads = 0 then True
      else real (unat (ENCODE_OUTSTANDING c)) < real (unat threads) * (1 / 2))"

text \<open>\<open>init_thread_pool\<close>: the count is stored before the pool is built, whatever building returns.\<close>

definition init_thread_pool :: "usize \<Rightarrow> 'e + unit \<Rightarrow> cpu \<Rightarrow> ('e + unit) \<times> cpu" where
  "init_thread_pool num_threads build_global c = (build_global, c\<lparr>POOL_THREAD_COUNT := num_threads\<rparr>)"


section \<open>Slots\<close>

text \<open>
  \<open>SlotGuard::try_acquire_slot\<close>: the increment is one atomic operation and the decision is taken
  on the value it returned, so a rejected caller has inflated the counter until its guard is dropped.
\<close>

definition slot_fetch_add :: "cpu \<Rightarrow> usize \<times> cpu" where
  "slot_fetch_add c = (OUTSTANDING c,
     c\<lparr>OUTSTANDING := OUTSTANDING c + 1, outstanding_gauge := outstanding_gauge c + 1\<rparr>)"

definition slot_drop :: "cpu \<Rightarrow> cpu" where
  "slot_drop c = c\<lparr>OUTSTANDING := OUTSTANDING c - 1, outstanding_gauge := outstanding_gauge c - 1\<rparr>"

definition slot_rejects :: "usize \<Rightarrow> cpu \<Rightarrow> usize option" where
  "slot_rejects prev c =
     (case QUEUE_LIMIT c of None \<Rightarrow> None | Some l \<Rightarrow> if l < prev + 1 then Some l else None)"

definition slot_check :: "usize \<Rightarrow> cpu \<Rightarrow> (SpawnError + unit) \<times> cpu" where
  "slot_check prev c =
     (case slot_rejects prev c of
        Some l \<Rightarrow> (Inl (QueueFull prev l), slot_drop (c\<lparr>tasks_rejected := tasks_rejected c + 1\<rparr>))
      | None \<Rightarrow> (Inr (), c))"

definition try_acquire_slot :: "cpu \<Rightarrow> (SpawnError + unit) \<times> cpu" where
  "try_acquire_slot c = (let (prev, c') = slot_fetch_add c in slot_check prev c')"

section \<open>Tasks\<close>

datatype cls = Plain | Encode | Decode   \<comment> \<open>\<open>spawn_fifo_blocking\<close> and its two tagged variants\<close>

datatype 'r outcome = Value 'r | Panicked

datatype 'r phase =
    Idle                 \<comment> \<open>no such task yet\<close>
  | Acquiring usize      \<comment> \<open>slot taken, limit not checked yet\<close>
  | Queued
  | Executing
  | Delivered            \<comment> \<open>result in the channel of a live receiver\<close>
  | Returned "SpawnError + 'r outcome"
  | Dropped              \<comment> \<open>the caller's future was dropped and the closure is gone\<close>

record 'r task =
  cls :: cls
  body :: "'r outcome"
  rx_alive :: bool
  phase :: "'r phase"

definition tag_enter :: "cls \<Rightarrow> cpu \<Rightarrow> cpu" where
  "tag_enter k c = (case k of Plain \<Rightarrow> c | Encode \<Rightarrow> encode_enter c | Decode \<Rightarrow> decode_enter c)"

definition tag_drop :: "cls \<Rightarrow> cpu \<Rightarrow> cpu" where
  "tag_drop k c = (case k of Plain \<Rightarrow> c | Encode \<Rightarrow> encode_drop c | Decode \<Rightarrow> decode_drop c)"

text \<open>
  \<open>call\<close>: the caller's tag (for decode, the slot that \<open>admit_decode\<close> reserved) and the slot;
  \<open>check\<close>: the rest of \<open>cancellable_task\<close>; \<open>pick_up\<close> and \<open>finish\<close>: the closure on
  its Rayon thread, whose locals are dropped in reverse order; \<open>abandon\<close>: the caller's future is
  dropped, and with it the receiver and the tag; \<open>resume\<close>: the caller receives the result, or the
  panic it resumes.
\<close>

datatype 'r event = Call cls "'r outcome" | Check | PickUp | Finish | Abandon | Resume

fun task_step :: "'r event \<Rightarrow> cpu \<Rightarrow> 'r task \<Rightarrow> (cpu \<times> 'r task) option" where
  "task_step (Call k b) c t =
     (if phase t = Idle \<and> OUTSTANDING c \<noteq> - 1
      then let (prev, c') = slot_fetch_add (tag_enter k c)
           in Some (c', \<lparr>cls = k, body = b, rx_alive = True, phase = Acquiring prev\<rparr>)
      else None)"
| "task_step Check c t =
     (case phase t of
        Acquiring prev \<Rightarrow>
          (case slot_check prev c of
             (Inl e, c') \<Rightarrow> Some (tag_drop (cls t) c', t\<lparr>rx_alive := False, phase := Returned (Inl e)\<rparr>)
           | (Inr _, c') \<Rightarrow> Some (c'\<lparr>tasks_submitted := tasks_submitted c' + 1\<rparr>, t\<lparr>phase := Queued\<rparr>))
      | _ \<Rightarrow> None)"
| "task_step PickUp c t =
     (if phase t = Queued then
        (if \<not> rx_alive t
         then Some (slot_drop (c\<lparr>tasks_cancelled := tasks_cancelled c + 1\<rparr>), t\<lparr>phase := Dropped\<rparr>)
         else Some (running_enter c, t\<lparr>phase := Executing\<rparr>))
      else None)"
| "task_step Finish c t =
     (if phase t = Executing then
        (if rx_alive t
         then Some (slot_drop (running_drop (c\<lparr>tasks_completed := tasks_completed c + 1\<rparr>)),
                    t\<lparr>phase := Delivered\<rparr>)
         else Some (slot_drop (running_drop (c\<lparr>tasks_orphaned := tasks_orphaned c + 1\<rparr>)),
                    t\<lparr>phase := Dropped\<rparr>))
      else None)"
| "task_step Abandon c t =
     (if rx_alive t then
        (case phase t of
           Queued \<Rightarrow> Some (tag_drop (cls t) c, t\<lparr>rx_alive := False\<rparr>)
         | Executing \<Rightarrow> Some (tag_drop (cls t) c, t\<lparr>rx_alive := False\<rparr>)
         | Delivered \<Rightarrow> Some (tag_drop (cls t) c, t\<lparr>rx_alive := False, phase := Dropped\<rparr>)
         | _ \<Rightarrow> None)
      else None)"
| "task_step Resume c t =
     (if phase t = Delivered \<and> rx_alive t
      then Some (tag_drop (cls t) c, t\<lparr>rx_alive := False, phase := Returned (Inr (body t))\<rparr>)
      else None)"

record 'r pool =
  cpu :: cpu
  tasks :: "nat \<Rightarrow> 'r task"

inductive pool_step :: "'r pool \<Rightarrow> nat \<Rightarrow> 'r event \<Rightarrow> 'r pool \<Rightarrow> bool" where
  move: "task_step e (cpu s) (tasks s i) = Some (c, t) \<Longrightarrow>
    pool_step s i e (s\<lparr>cpu := c, tasks := (tasks s)(i := t)\<rparr>)"

inductive pool_reach :: "cpu \<Rightarrow> 'r pool \<Rightarrow> bool" for c0 where
  pool_start: "(\<And>i. phase (ts i) = Idle \<and> \<not> rx_alive (ts i)) \<Longrightarrow> pool_reach c0 \<lparr>cpu = c0, tasks = ts\<rparr>"
| pool_move: "pool_reach c0 s \<Longrightarrow> pool_step s i e s' \<Longrightarrow> pool_reach c0 s'"

inductive_cases pool_stepE: "pool_step s i e s'"


section \<open>What a task holds\<close>

fun slot_phase :: "'r phase \<Rightarrow> bool" where
  "slot_phase (Acquiring _) = True"
| "slot_phase Queued = True"
| "slot_phase Executing = True"
| "slot_phase _ = False"

fun queue_phase :: "'r phase \<Rightarrow> bool" where
  "queue_phase Queued = True"
| "queue_phase Executing = True"
| "queue_phase _ = False"

fun caller_phase :: "'r phase \<Rightarrow> bool" where
  "caller_phase (Acquiring _) = True"
| "caller_phase Queued = True"
| "caller_phase Executing = True"
| "caller_phase Delivered = True"
| "caller_phase _ = False"

abbreviation started :: "'r task \<Rightarrow> bool" where "started t \<equiv> phase t \<noteq> Idle"
abbreviation holds_slot :: "'r task \<Rightarrow> bool" where "holds_slot t \<equiv> slot_phase (phase t)"
abbreviation unfinished :: "'r task \<Rightarrow> bool" where "unfinished t \<equiv> queue_phase (phase t)"
abbreviation executing :: "'r task \<Rightarrow> bool" where "executing t \<equiv> phase t = Executing"
abbreviation holds_tag :: "cls \<Rightarrow> 'r task \<Rightarrow> bool" where "holds_tag k t \<equiv> rx_alive t \<and> cls t = k"

definition task_ok :: "'r task \<Rightarrow> bool" where
  "task_ok t \<longleftrightarrow> (rx_alive t \<longrightarrow> caller_phase (phase t)) \<and>
     (\<forall>p. phase t = Acquiring p \<longrightarrow> rx_alive t) \<and> (phase t = Delivered \<longrightarrow> rx_alive t)"

definition tasks_ok :: "(nat \<Rightarrow> 'r task) \<Rightarrow> bool" where
  "tasks_ok ts \<longleftrightarrow> (\<forall>i. task_ok (ts i)) \<and> finite (owners started ts)"

text \<open>The change of each counter when one task moves is the change of what that task holds.\<close>

abbreviation diff :: "bool \<Rightarrow> bool \<Rightarrow> 'n::ring_1" where
  "diff new old \<equiv> (if new then 1 else 0) - (if old then 1 else 0)"

lemma tag_frame [simp]:
  "OUTSTANDING (tag_enter k c) = OUTSTANDING c" "OUTSTANDING (tag_drop k c) = OUTSTANDING c"
  "QUEUE_LIMIT (tag_enter k c) = QUEUE_LIMIT c" "QUEUE_LIMIT (tag_drop k c) = QUEUE_LIMIT c"
  "RUNNING (tag_enter k c) = RUNNING c" "RUNNING (tag_drop k c) = RUNNING c"
  "tasks_submitted (tag_enter k c) = tasks_submitted c" "tasks_submitted (tag_drop k c) = tasks_submitted c"
  "tasks_completed (tag_enter k c) = tasks_completed c" "tasks_completed (tag_drop k c) = tasks_completed c"
  "tasks_cancelled (tag_enter k c) = tasks_cancelled c" "tasks_cancelled (tag_drop k c) = tasks_cancelled c"
  "tasks_orphaned (tag_enter k c) = tasks_orphaned c" "tasks_orphaned (tag_drop k c) = tasks_orphaned c"
  "outstanding_gauge (tag_enter k c) = outstanding_gauge c"
  "outstanding_gauge (tag_drop k c) = outstanding_gauge c"
  by (cases k; simp add: tag_enter_def tag_drop_def arbiter_ops)+

lemma tag_counts [simp]:
  "ENCODE_OUTSTANDING (tag_enter k c) = ENCODE_OUTSTANDING c + (if k = Encode then 1 else 0)"
  "ENCODE_OUTSTANDING (tag_drop k c) = ENCODE_OUTSTANDING c - (if k = Encode then 1 else 0)"
  "DECODE_OUTSTANDING (tag_enter k c) = DECODE_OUTSTANDING c + (if k = Decode then 1 else 0)"
  "DECODE_OUTSTANDING (tag_drop k c) = DECODE_OUTSTANDING c - (if k = Decode then 1 else 0)"
  by (cases k; simp add: tag_enter_def tag_drop_def arbiter_ops)+

text \<open>Tasks that entered the queue and have not left it, by the metrics.\<close>

definition queue_balance :: "cpu \<Rightarrow> int" where
  "queue_balance c =
     int (tasks_submitted c) - int (tasks_completed c + tasks_cancelled c + tasks_orphaned c)"

lemmas pool_ops = slot_fetch_add_def slot_drop_def slot_check_def arbiter_ops

lemma task_step_ok:
  assumes "task_step e c t = Some (c', t')" and "task_ok t"
  shows "task_ok t' \<and> started t' \<and> QUEUE_LIMIT c' = QUEUE_LIMIT c"
  using assms
  by (cases e) (auto simp: task_ok_def pool_ops split: if_splits phase.splits option.splits)

lemma task_step_counts:
  assumes "task_step e c t = Some (c', t')" and "task_ok t"
  shows "OUTSTANDING c' = OUTSTANDING c + diff (holds_slot t') (holds_slot t)"
    and "RUNNING c' = RUNNING c + diff (executing t') (executing t)"
    and "ENCODE_OUTSTANDING c' = ENCODE_OUTSTANDING c + diff (holds_tag Encode t') (holds_tag Encode t)"
    and "DECODE_OUTSTANDING c' = DECODE_OUTSTANDING c + diff (holds_tag Decode t') (holds_tag Decode t)"
    and "outstanding_gauge c' = outstanding_gauge c + diff (holds_slot t') (holds_slot t)"
    and "queue_balance c' = queue_balance c + diff (unfinished t') (unfinished t)"
  using assms
  by (cases e; auto simp: queue_balance_def task_ok_def pool_ops split: if_splits phase.splits option.splits)+

text \<open>The books of the pool: every counter equals its value at the start plus its live owners.\<close>

definition books :: "cpu \<Rightarrow> cpu \<Rightarrow> (nat \<Rightarrow> 'r task) \<Rightarrow> bool" where
  "books c0 c ts \<longleftrightarrow>
     OUTSTANDING c = OUTSTANDING c0 + of_nat (cnt holds_slot ts) \<and>
     RUNNING c = RUNNING c0 + of_nat (cnt executing ts) \<and>
     ENCODE_OUTSTANDING c = ENCODE_OUTSTANDING c0 + of_nat (cnt (holds_tag Encode) ts) \<and>
     DECODE_OUTSTANDING c = DECODE_OUTSTANDING c0 + of_nat (cnt (holds_tag Decode) ts) \<and>
     outstanding_gauge c = outstanding_gauge c0 + int (cnt holds_slot ts) \<and>
     queue_balance c = queue_balance c0 + int (cnt unfinished ts)"


lemma finite_owners_started:
  assumes "tasks_ok ts" and "\<And>t. task_ok t \<Longrightarrow> P t \<Longrightarrow> started t"
  shows "finite (owners P ts)"
  using assms by (intro finite_subset [of "owners P ts" "owners started ts"])
    (auto simp: owners_def tasks_ok_def)

lemma started_if:
  "holds_slot t \<Longrightarrow> started t" "executing t \<Longrightarrow> started t" "unfinished t \<Longrightarrow> started t"
  "task_ok t \<Longrightarrow> holds_tag k t \<Longrightarrow> started t"
  by (auto simp: task_ok_def)

lemma books_step:
  assumes b: "books c0 c ts" and ok: "tasks_ok ts" and st: "task_step e c (ts i) = Some (c', t')"
  shows "books c0 c' (ts(i := t')) \<and> tasks_ok (ts(i := t'))"
proof -
  have ti: "task_ok (ts i)" using ok by (simp add: tasks_ok_def)
  note fin = finite_owners_started [OF ok]
  have f: "finite (owners holds_slot ts)" "finite (owners executing ts)"
    "finite (owners (holds_tag k) ts)" "finite (owners unfinished ts)" for k
    by (rule fin, erule started_if(1), rule fin, erule started_if(2),
        rule fin, erule (1) started_if(4), rule fin, erule started_if(3))
  have "books c0 c' (ts(i := t'))"
    using b by (simp add: books_def task_step_counts [OF st ti] cnt_upd f)
  moreover have "tasks_ok (ts(i := t'))"
    using ok task_step_ok [OF st ti] by (simp add: tasks_ok_def)
  ultimately show ?thesis ..
qed

lemma pool_reach_books: "pool_reach c0 s \<Longrightarrow> books c0 (cpu s) (tasks s) \<and> tasks_ok (tasks s)"
proof (induction rule: pool_reach.induct)
  case (pool_start ts)
  then have "\<not> holds_slot (ts i)" "\<not> executing (ts i)" "\<not> unfinished (ts i)"
    "\<not> rx_alive (ts i)" "\<not> started (ts i)" for i by simp_all
  then show ?case by (simp add: books_def tasks_ok_def task_ok_def)
next
  case (pool_move s i e s')
  from pool_move(2) obtain c t where st: "task_step e (cpu s) (tasks s i) = Some (c, t)"
    and s': "s' = s\<lparr>cpu := c, tasks := (tasks s)(i := t)\<rparr>"
    by (auto elim: pool_stepE)
  have sel: "cpu s' = c" "tasks s' = (tasks s)(i := t)" unfolding s' by simp_all
  show ?case unfolding sel using pool_move.IH st by (intro books_step) auto
qed

section \<open>The queue limit\<close>

text \<open>A task that the limit lets through: already queued, or about to be.\<close>

fun let_through :: "usize \<Rightarrow> 'r phase \<Rightarrow> bool" where
  "let_through l (Acquiring prev) = (prev + 1 \<le> l)"
| "let_through l Queued = True"
| "let_through l Executing = True"
| "let_through l _ = False"

definition limit_inv :: "usize \<Rightarrow> 'r pool \<Rightarrow> bool" where
  "limit_inv l s \<longleftrightarrow> QUEUE_LIMIT (cpu s) = Some l \<and> cnt holds_slot (tasks s) < 2 ^ 64 \<and>
     cnt (\<lambda>t. let_through l (phase t)) (tasks s) \<le> unat l"

lemma cnt_mono:
  "finite (owners Q f) \<Longrightarrow> (\<And>x. P x \<Longrightarrow> Q x) \<Longrightarrow> cnt P f \<le> cnt Q f"
  by (auto simp: cnt_def owners_def intro!: card_mono)

lemma let_through_slot: "let_through l ph \<Longrightarrow> slot_phase ph"
  by (cases ph) auto


lemma task_step_no_new:
  assumes "task_step e c t = Some (c', t')" and "QUEUE_LIMIT c = Some l"
    and "\<And>k b. e \<noteq> Call k b"
  shows "(let_through l (phase t') \<longrightarrow> let_through l (phase t)) \<and> (holds_slot t' \<longrightarrow> holds_slot t)"
  using assms
  by (cases e) (auto simp: slot_check_def slot_rejects_def split: if_splits phase.splits option.splits)

lemma cnt_upd_le:
  assumes "finite (owners P f)" and "P x \<longrightarrow> P (f t)"
  shows "cnt P (f(t := x)) \<le> cnt P f"
  using cnt_upd_nat [OF assms(1), of t x] assms(2) by (simp split: if_splits)

lemma limit_inv_move:
  assumes inv: "limit_inv l s" and ok: "tasks_ok (tasks s)"
    and out: "OUTSTANDING (cpu s) = of_nat (cnt holds_slot (tasks s))"
    and st: "task_step e (cpu s) (tasks s i) = Some (c, t)"
  shows "limit_inv l (s\<lparr>cpu := c, tasks := (tasks s)(i := t)\<rparr>)"
proof -
  let ?T = "\<lambda>t. let_through l (phase t)"
  have ti: "task_ok (tasks s i)" using ok by (simp add: tasks_ok_def)
  have fH: "finite (owners holds_slot (tasks s))"
    by (rule finite_owners_started [OF ok]) (erule started_if)
  have fT: "finite (owners ?T (tasks s))"
    by (rule finite_owners_started [OF ok]) (auto dest!: let_through_slot)
  have ql: "QUEUE_LIMIT c = Some l"
    using task_step_ok [OF st ti] inv by (simp add: limit_inv_def)
  show ?thesis
  proof (cases "\<exists>k b. e = Call k b")
    case True
    then obtain k b where e: "e = Call k b" by blast
    let ?prev = "OUTSTANDING (cpu s)"
    from st e have idle: "phase (tasks s i) = Idle" and max: "?prev \<noteq> - 1" and t: "phase t = Acquiring ?prev"
      by (auto simp: slot_fetch_add_def split: if_splits)
    have un: "unat ?prev = cnt holds_slot (tasks s)"
      using inv out by (simp add: limit_inv_def unat_of_nat)
    have H: "cnt holds_slot ((tasks s)(i := t)) = unat (?prev + 1)"
      using cnt_upd_nat [OF fH, of i t] idle t un max by (simp add: unat_inc)
    have "unat (?prev + 1) < 2 ^ LENGTH(64)" by (rule unsigned_less)
    moreover have "cnt ?T ((tasks s)(i := t)) \<le> unat l"
    proof (cases "?prev + 1 \<le> l")
      case True
      have "cnt ?T ((tasks s)(i := t)) \<le> cnt holds_slot ((tasks s)(i := t))"
        by (rule cnt_mono) (use fH in \<open>auto dest: let_through_slot\<close>)
      with True H show ?thesis by (simp add: word_le_nat_alt)
    next
      case False
      then show ?thesis
        using cnt_upd_le [OF fT, of t i] t inv by (simp add: limit_inv_def)
    qed
    ultimately show ?thesis using ql H by (simp add: limit_inv_def)
  next
    case False
    then have "(?T t \<longrightarrow> ?T (tasks s i)) \<and> (holds_slot t \<longrightarrow> holds_slot (tasks s i))"
      using task_step_no_new [OF st] inv by (auto simp: limit_inv_def)
    then show ?thesis
      using cnt_upd_le [OF fT, of t i] cnt_upd_le [OF fH, of t i] inv ql
      by (auto simp: limit_inv_def)
  qed
qed


lemma pool_reach_limit: "pool_reach (cpu_init (Some l)) s \<Longrightarrow> limit_inv l s"
proof (induction rule: pool_reach.induct)
  case (pool_start ts)
  then have "\<not> holds_slot (ts i)" "\<not> let_through l (phase (ts i))" for i by simp_all
  then show ?case by (simp add: limit_inv_def cpu_init_def)
next
  case (pool_move s i e s')
  from pool_move(2) obtain c t where st: "task_step e (cpu s) (tasks s i) = Some (c, t)"
    and s': "s' = s\<lparr>cpu := c, tasks := (tasks s)(i := t)\<rparr>"
    by (auto elim: pool_stepE)
  have "OUTSTANDING (cpu s) = of_nat (cnt holds_slot (tasks s))" "tasks_ok (tasks s)"
    using pool_reach_books [OF pool_move(1)] by (auto simp: books_def cpu_init_def)
  then show ?case unfolding s' by (intro limit_inv_move [OF pool_move.IH _ _ st])
qed

section \<open>Properties\<close>

definition idle_task :: "'r \<Rightarrow> 'r task" where
  "idle_task r = \<lparr>cls = Plain, body = Value r, rx_alive = False, phase = Idle\<rparr>"

fun pool_exec :: "(nat \<times> 'r event) list \<Rightarrow> 'r pool \<Rightarrow> 'r pool option" where
  "pool_exec [] s = Some s"
| "pool_exec ((i, e) # es) s =
     (case task_step e (cpu s) (tasks s i) of
        None \<Rightarrow> None
      | Some (c, t) \<Rightarrow> pool_exec es (s\<lparr>cpu := c, tasks := (tasks s)(i := t)\<rparr>))"

lemma pool_exec_reach: "pool_reach c0 s \<Longrightarrow> pool_exec es s = Some s' \<Longrightarrow> pool_reach c0 s'"
proof (induction es s rule: pool_exec.induct)
  case (2 i e es s)
  from "2.prems"(2) obtain c t where st: "task_step e (cpu s) (tasks s i) = Some (c, t)"
    and "pool_exec es (s\<lparr>cpu := c, tasks := (tasks s)(i := t)\<rparr>) = Some s'"
    by (simp split: option.splits prod.splits)
  with pool_reach.pool_move [OF "2.prems"(1) pool_step.move [OF st]] "2.IH" show ?case by blast
qed simp

lemma pool_reach_idle: "pool_reach c0 \<lparr>cpu = c0, tasks = (\<lambda>_. idle_task r)\<rparr>"
  by (rule pool_reach.pool_start) (simp add: idle_task_def)

text \<open>C6. In every interleaving of submissions, pick-ups, completions, panics, timeouts and rejections,
  the outstanding, running, encode and decode counters and the gauge equal their initial value plus the
  number of tasks that hold the corresponding guard, and the metrics account for every submitted task
  as completed, cancelled, orphaned or still in the pool.\<close>

theorem pool_counters_balance:
  assumes "pool_reach c0 s"
  shows "OUTSTANDING (cpu s) = OUTSTANDING c0 + of_nat (cnt holds_slot (tasks s)) \<and>
    RUNNING (cpu s) = RUNNING c0 + of_nat (cnt executing (tasks s)) \<and>
    ENCODE_OUTSTANDING (cpu s) = ENCODE_OUTSTANDING c0 + of_nat (cnt (holds_tag Encode) (tasks s)) \<and>
    DECODE_OUTSTANDING (cpu s) = DECODE_OUTSTANDING c0 + of_nat (cnt (holds_tag Decode) (tasks s)) \<and>
    outstanding_gauge (cpu s) = outstanding_gauge c0 + int (cnt holds_slot (tasks s)) \<and>
    queue_balance (cpu s) = queue_balance c0 + int (cnt unfinished (tasks s))"
  using pool_reach_books [OF assms] by (simp add: books_def)

theorem pool_counters_balance_witness:
  "\<exists>s :: nat pool. pool_reach (cpu_init (Some 1)) s \<and> phase (tasks s 0) = Dropped \<and>
     RUNNING (cpu s) = 0 + of_nat (cnt executing (tasks s)) \<and>
     OUTSTANDING (cpu s) = 0 + of_nat (cnt holds_slot (tasks s)) \<and> tasks_cancelled (cpu s) = 1"
proof -
  let ?s0 = "\<lparr>cpu = cpu_init (Some 1), tasks = (\<lambda>_. idle_task (0::nat))\<rparr>"
  obtain s where s: "pool_exec [(0, Call Encode (Value 7)), (0, Check), (0, Abandon), (0, PickUp)] ?s0 = Some s"
    and p: "phase (tasks s 0) = Dropped" "tasks_cancelled (cpu s) = 1"
    by (simp add: pool_ops idle_task_def cpu_init_def
        slot_rejects_def tag_enter_def tag_drop_def)
  have r: "pool_reach (cpu_init (Some 1)) s" by (rule pool_exec_reach [OF pool_reach_idle s])
  have z: "RUNNING (cpu_init (Some 1)) = 0" "OUTSTANDING (cpu_init (Some 1)) = 0"
    by (simp_all add: cpu_init_def)
  show ?thesis using pool_counters_balance [OF r] unfolding z
    by (intro exI [of _ s]) (simp add: r p)
qed

text \<open>C7. With a queue limit, the tasks queued or running never exceed it, although the slot counter is
  incremented before the limit is checked and rejected callers inflate it meanwhile.\<close>

theorem queue_limit_respected:
  assumes "pool_reach (cpu_init (Some l)) s"
  shows "cnt unfinished (tasks s) \<le> unat l"
proof -
  have "tasks_ok (tasks s)" using pool_reach_books [OF assms] ..
  then have "finite (owners (\<lambda>t. let_through l (phase t)) (tasks s))"
    by (rule finite_owners_started) (auto dest!: let_through_slot)
  then have "cnt unfinished (tasks s) \<le> cnt (\<lambda>t. let_through l (phase t)) (tasks s)"
  proof (rule cnt_mono)
    show "unfinished t \<Longrightarrow> let_through l (phase t)" for t by (cases "phase t") auto
  qed
  with pool_reach_limit [OF assms] show ?thesis by (simp add: limit_inv_def)
qed


theorem queue_limit_respected_witness:
  "\<exists>s :: nat pool. phase (tasks s 1) = Returned (Inl (QueueFull 1 1)) \<and> tasks_rejected (cpu s) = 1 \<and>
     cnt unfinished (tasks s) \<le> unat (1 :: usize)"
proof -
  let ?s0 = "\<lparr>cpu = cpu_init (Some 1), tasks = (\<lambda>_. idle_task (0::nat))\<rparr>"
  obtain s where s: "pool_exec [(0, Call Plain (Value 7)), (1, Call Plain (Value 8)), (0, Check), (1, Check)] ?s0
      = Some s"
    and p: "phase (tasks s 1) = Returned (Inl (QueueFull 1 1))" "tasks_rejected (cpu s) = 1"
    by (simp add: pool_ops idle_task_def cpu_init_def slot_rejects_def tag_enter_def tag_drop_def)
  have "pool_reach (cpu_init (Some 1)) s" by (rule pool_exec_reach [OF pool_reach_idle s])
  from queue_limit_respected [OF this] p show ?thesis by blast
qed

definition pool_steps :: "'r pool \<Rightarrow> 'r pool \<Rightarrow> bool" where
  "pool_steps = (\<lambda>s s'. \<exists>i e. pool_step s i e s')\<^sup>*\<^sup>*"

lemma zombie_step:
  assumes "phase (tasks s i) \<in> {Queued, Dropped}" and "\<not> rx_alive (tasks s i)" and "pool_step s j e s'"
  shows "phase (tasks s' i) \<in> {Queued, Dropped} \<and> \<not> rx_alive (tasks s' i)"
proof -
  from assms(3) obtain c t where st: "task_step e (cpu s) (tasks s j) = Some (c, t)"
    and s': "s' = s\<lparr>cpu := c, tasks := (tasks s)(j := t)\<rparr>"
    by (auto elim: pool_stepE)
  show ?thesis
  proof (cases "i = j")
    case True
    then show ?thesis using assms(1,2) st unfolding s'
      by (cases e) (auto split: if_splits phase.splits option.splits)
  next
    case False
    then show ?thesis using assms(1,2) by (simp add: s')
  qed
qed

text \<open>C8. A task whose caller gave up while it was still queued never runs: from then on it is either
  waiting to be skipped or gone, so it never occupies a pool thread.\<close>

theorem queued_zombie_never_runs:
  assumes "pool_steps s s'" and "phase (tasks s i) = Queued" and "\<not> rx_alive (tasks s i)"
  shows "phase (tasks s' i) \<in> {Queued, Dropped}"
proof -
  from assms(1) [unfolded pool_steps_def]
  have "phase (tasks s' i) \<in> {Queued, Dropped} \<and> \<not> rx_alive (tasks s' i)"
    by (induction rule: rtranclp_induct) (use assms(2,3) zombie_step in \<open>auto, blast+\<close>)
  then show ?thesis ..
qed

theorem queued_zombie_never_runs_witness:
  "\<exists>s s' :: nat pool. phase (tasks s 0) = Queued \<and> pool_steps s s' \<and>
     phase (tasks s' 0) \<in> {Queued, Dropped}"
proof -
  let ?t = "\<lparr>cls = Plain, body = Value (0::nat), rx_alive = False, phase = Queued\<rparr>"
  let ?s = "\<lparr>cpu = cpu_init None, tasks = (\<lambda>_. ?t)\<rparr>"
  obtain s' where "pool_step ?s 0 PickUp s'"
    by (rule exE [of "\<lambda>s'. pool_step ?s 0 PickUp s'"], rule exI, rule pool_step.move) simp_all
  then have st: "pool_steps ?s s'" by (auto simp: pool_steps_def)
  then show ?thesis using queued_zombie_never_runs [OF st, of 0] by (intro exI [of _ ?s] exI [of _ s']) simp
qed

text \<open>Without contention \<open>try_acquire_slot\<close> rejects exactly at the limit, reports the count it
  saw, and leaves the slot counter as it was; otherwise it takes exactly one slot.\<close>

lemma try_acquire_slot_result:
  assumes "QUEUE_LIMIT c = Some l" and "OUTSTANDING c \<noteq> - 1"
  shows "fst (try_acquire_slot c) =
      (if OUTSTANDING c < l then Inr () else Inl (QueueFull (OUTSTANDING c) l)) \<and>
    OUTSTANDING (snd (try_acquire_slot c)) = OUTSTANDING c + (if OUTSTANDING c < l then 1 else 0)"
proof -
  have "l < OUTSTANDING c + 1 \<longleftrightarrow> \<not> OUTSTANDING c < l"
    using unat_inc [OF assms(2)] by (auto simp: word_less_nat_alt)
  then show ?thesis using assms(1)
    by (simp add: try_acquire_slot_def slot_fetch_add_def slot_check_def slot_rejects_def slot_drop_def)
qed

lemma half_less: "real e < real t * (1 / 2) \<longleftrightarrow> 2 * e < t" for e t :: nat
  by linarith

lemma headroom_iff:
  "encode_pool_has_headroom c \<longleftrightarrow>
     POOL_THREAD_COUNT c = 0 \<or> 2 * unat (ENCODE_OUTSTANDING c) < unat (POOL_THREAD_COUNT c)"
  unfolding encode_pool_has_headroom_def Let_def half_less by auto

lemma queue_limit_never_zero: "queue_limit_of_env v \<noteq> Some 0"
proof
  assume "queue_limit_of_env v = Some 0"
  then obtain s n where p: "parse_uint 64 s = Some n" and n: "0 < n" "(of_nat n :: usize) = 0"
    by (auto simp: queue_limit_of_env_def bind_eq_Some_conv split: option.splits if_splits)
  from p have "n < 2 ^ 64" by (rule parse_uint_bound)
  moreover from n(2) have "2 ^ 64 dvd n" by (simp add: word_of_nat_eq_0_iff)
  ultimately show False using n(1) by (auto dest: dvd_imp_le)
qed

end
