(* ===== verification/Decode_Path.thy ===== *)
theory Decode_Path
  imports CpuPool
begin

text \<open>
  The decode path as a whole, \<open>cpu::spawn_decode_blocking\<close> in \<open>src/parallelize/mod.rs\<close>: a call
  first goes through the admission machine of \<open>Admission\<close>, then takes a slot of \<open>CpuPool\<close> and becomes
  a task whose caller holds the reserved decode slot. Both machines share the process globals, and
  encode and plain tasks run beside them. The composition is shown to refine the admission machine:
  what the pool does to the arbiter's counters is what the labels of \<open>sys_step\<close> allow, so the theorems
  on admission hold of the pool. As in \<open>CpuPool\<close>, a guard's decrement and its notification are one step.
\<close>

section \<open>The composed machine\<close>

definition arb :: "cpu \<Rightarrow> arbiter" where
  "arb c = arbiter.truncate c"

definition with_arb :: "arbiter \<Rightarrow> cpu \<Rightarrow> cpu" where
  "with_arb a c = arbiter.extend a (arbiter.more c)"

record 'r path =
  shared :: cpu
  adm :: "nat \<Rightarrow> admit_pc"      \<comment> \<open>where call \<open>i\<close> is in \<open>admit_decode\<close>; \<open>Gone\<close> once it has left\<close>
  calls :: "nat \<Rightarrow> 'r task"

datatype 'r path_event =
    Adm bool                  \<comment> \<open>the next atomic operation of \<open>admit_decode\<close>\<close>
  | CancelAdm                 \<comment> \<open>the future is dropped while it is parked\<close>
  | Submit "'r outcome"       \<comment> \<open>the guard is built and \<open>spawn_fifo_blocking\<close> entered\<close>
  | Task "'r event"
  | Config ArbitrationConfig

definition decode_task :: "'r outcome \<Rightarrow> usize \<Rightarrow> 'r task" where
  "decode_task b prev = \<lparr>cls = Decode, body = b, rx_alive = True, phase = Acquiring prev\<rparr>"

fun may_call :: "'r event \<Rightarrow> cpu \<Rightarrow> admit_pc \<Rightarrow> bool" where
  "may_call (Call k b) c pc \<longleftrightarrow> k \<noteq> Decode \<and> pc = Start \<and> (k = Encode \<longrightarrow> ENCODE_OUTSTANDING c \<noteq> - 1)"
| "may_call _ c pc \<longleftrightarrow> True"

fun path_step :: "nat \<Rightarrow> 'r path_event \<Rightarrow> 'r path \<Rightarrow> 'r path option" where
  "path_step i (Adm ok) s =
     (if phase (calls s i) \<noteq> Idle \<or> adm s i = Bypass \<and> DECODE_OUTSTANDING (shared s) = - 1 then None
      else let (a, pc) = admit_step ok (arb (shared s)) (adm s i)
           in Some (s\<lparr>shared := with_arb a (shared s), adm := (adm s)(i := pc)\<rparr>))"
| "path_step i CancelAdm s =
     (case adm s i of
        Awaiting _ _ _ _ \<Rightarrow>
          if phase (calls s i) = Idle then Some (s\<lparr>adm := (adm s)(i := Gone)\<rparr>) else None
      | _ \<Rightarrow> None)"
| "path_step i (Submit b) s =
     (if phase (calls s i) = Idle \<and> adm s i = Admitted \<and> OUTSTANDING (shared s) \<noteq> - 1
      then let (prev, c) = slot_fetch_add (shared s)
           in Some (s\<lparr>shared := c, adm := (adm s)(i := Gone), calls := (calls s)(i := decode_task b prev)\<rparr>)
      else None)"
| "path_step i (Task e) s =
     (if may_call e (shared s) (adm s i)
      then (case task_step e (shared s) (calls s i) of
              None \<Rightarrow> None
            | Some (c, t) \<Rightarrow> Some (s\<lparr>shared := c, calls := (calls s)(i := t)\<rparr>))
      else None)"
| "path_step i (Config cfg) s =
     Some (s\<lparr>shared := with_arb (apply_config cfg (arb (shared s))) (shared s)\<rparr>)"

abbreviation boot :: "usize \<Rightarrow> usize option \<Rightarrow> cpu" where
  "boot n ql \<equiv> snd (init_thread_pool n (Inr () :: unit + unit) (cpu_init ql))"

inductive path_reach :: "('r path_event \<Rightarrow> bool) \<Rightarrow> cpu \<Rightarrow> 'r path \<Rightarrow> bool" for ok c0 where
  path_start: "(\<And>i. phase (ts i) = Idle \<and> \<not> rx_alive (ts i)) \<Longrightarrow>
     path_reach ok c0 \<lparr>shared = c0, adm = (\<lambda>_. Start), calls = ts\<rparr>"
| path_move: "path_reach ok c0 s \<Longrightarrow> path_step i e s = Some s' \<Longrightarrow> ok e \<Longrightarrow> path_reach ok c0 s'"

fun path_exec :: "(nat \<times> 'r path_event) list \<Rightarrow> 'r path \<Rightarrow> 'r path option" where
  "path_exec [] s = Some s"
| "path_exec ((i, e) # es) s = (case path_step i e s of None \<Rightarrow> None | Some s' \<Rightarrow> path_exec es s')"

lemma path_exec_reach:
  "path_reach ok c0 s \<Longrightarrow> path_exec es s = Some s' \<Longrightarrow> list_all (\<lambda>(i, e). ok e) es \<Longrightarrow> path_reach ok c0 s'"
  by (induction es s rule: path_exec.induct) (auto split: option.splits intro: path_move)

section \<open>The view of the admission machine\<close>

text \<open>
  A call that holds the reserved slot, still in \<open>admit_decode\<close> or as the caller of a task, is what
  \<open>Admission\<close> calls \<open>Admitted\<close>.
\<close>

definition view :: "'r path \<Rightarrow> nat \<Rightarrow> admit_pc" where
  "view s i = (if holds_tag Decode (calls s i) then Admitted else adm s i)"

definition proj :: "'r path \<Rightarrow> sys" where
  "proj s = \<lparr>glob = arb (shared s), owed = 0, thr = view s\<rparr>"

definition tag_labels :: "cls \<Rightarrow> nat \<Rightarrow> label list" where
  "tag_labels k i =
     (case k of Plain \<Rightarrow> [] | Encode \<Rightarrow> [EncRelease, Notify] | Decode \<Rightarrow> [DropDecode i, Notify])"

text \<open>What a task event does to the arbiter, and what any event is in terms of the admission machine.\<close>

fun task_labels :: "nat \<Rightarrow> 'r event \<Rightarrow> cpu \<Rightarrow> 'r task \<Rightarrow> label list" where
  "task_labels i (Call k b) c t = (if k = Encode then [EncEnter] else [])"
| "task_labels i Check c t =
     (case phase t of
        Acquiring prev \<Rightarrow> if slot_rejects prev c = None then [] else tag_labels (cls t) i
      | _ \<Rightarrow> [])"
| "task_labels i PickUp c t = (if rx_alive t then [RunEnter] else [])"
| "task_labels i Finish c t = [RunRelease, Notify]"
| "task_labels i Abandon c t = tag_labels (cls t) i"
| "task_labels i Resume c t = tag_labels (cls t) i"

fun path_labels :: "nat \<Rightarrow> 'r path_event \<Rightarrow> 'r path \<Rightarrow> label list" where
  "path_labels i (Adm ok) s = [Admit i ok]"
| "path_labels i CancelAdm s = [Cancel i]"
| "path_labels i (Submit b) s = []"
| "path_labels i (Task e) s = task_labels i e (shared s) (calls s i)"
| "path_labels i (Config cfg) s = [Configure cfg, Notify]"

lemma arb_sel [simp]:
  "ARBITRATION_ENABLED (arb c) = ARBITRATION_ENABLED c"
  "ARBITRATION_OCCUPANCY_PCT (arb c) = ARBITRATION_OCCUPANCY_PCT c"
  "ARBITRATION_ENCODE_RESERVE_PCT (arb c) = ARBITRATION_ENCODE_RESERVE_PCT c"
  "RUNNING (arb c) = RUNNING c" "ARBITRATION_EVENT (arb c) = ARBITRATION_EVENT c"
  "POOL_THREAD_COUNT (arb c) = POOL_THREAD_COUNT c"
  "ENCODE_OUTSTANDING (arb c) = ENCODE_OUTSTANDING c"
  "DECODE_OUTSTANDING (arb c) = DECODE_OUTSTANDING c"
  by (simp_all add: arb_def arbiter.defs)

lemma with_arb_sel [simp]:
  "arb (with_arb a c) = a"
  "RUNNING (with_arb a c) = RUNNING a" "ENCODE_OUTSTANDING (with_arb a c) = ENCODE_OUTSTANDING a"
  "DECODE_OUTSTANDING (with_arb a c) = DECODE_OUTSTANDING a"
  "OUTSTANDING (with_arb a c) = OUTSTANDING c" "QUEUE_LIMIT (with_arb a c) = QUEUE_LIMIT c"
  by (cases c; simp add: arb_def with_arb_def arbiter.defs)+

lemma arb_ops [simp]:
  "arb (encode_enter c) = encode_enter (arb c)" "arb (encode_drop c) = encode_drop (arb c)"
  "arb (decode_drop c) = decode_drop (arb c)" "arb (running_enter c) = running_enter (arb c)"
  "arb (running_drop c) = running_drop (arb c)" "arb (slot_drop c) = arb c"
  "arb (snd (slot_fetch_add c)) = arb c"
  "arb (c\<lparr>OUTSTANDING := n\<rparr>) = arb c" "arb (c\<lparr>outstanding_gauge := z\<rparr>) = arb c"
  "arb (c\<lparr>tasks_submitted := m\<rparr>) = arb c" "arb (c\<lparr>tasks_completed := m\<rparr>) = arb c"
  "arb (c\<lparr>tasks_cancelled := m\<rparr>) = arb c" "arb (c\<lparr>tasks_orphaned := m\<rparr>) = arb c"
  "arb (c\<lparr>tasks_rejected := m\<rparr>) = arb c"
  by (simp_all add: arb_def arbiter.defs pool_ops)


section \<open>Exact counters\<close>

text \<open>A machine counter that equals the number of its owners, without wrap-around.\<close>

definition exact :: "usize \<Rightarrow> ('b \<Rightarrow> bool) \<Rightarrow> (nat \<Rightarrow> 'b) \<Rightarrow> bool" where
  "exact w P f \<longleftrightarrow> finite (owners P f) \<and> unat w = cnt P f"

lemma exact_pos: "exact w P f \<Longrightarrow> P (f i) \<Longrightarrow> w \<noteq> 0"
  by (auto simp: exact_def cnt_def owners_def)

lemma exact_of_nat: "exact w P f \<Longrightarrow> of_nat (cnt P f) = w"
  by (metis exact_def of_nat_unat ucast_id)

lemma exact_upd:
  assumes ex: "exact w P f" and w': "w' = w + diff (P x) (P (f t))"
    and max: "P x \<Longrightarrow> \<not> P (f t) \<Longrightarrow> w \<noteq> - 1"
  shows "exact w' P (f(t := x))"
proof -
  have fin: "finite (owners P f)" and un: "unat w = cnt P f" using ex by (auto simp: exact_def)
  consider (same) "P x = P (f t)" | (more) "P x" "\<not> P (f t)" | (less) "\<not> P x" "P (f t)" by blast
  then have "unat w' = cnt P (f(t := x))"
  proof cases
    case same
    then show ?thesis using w' un by (simp add: cnt_upd_same)
  next
    case more
    then show ?thesis using w' un max cnt_upd_nat [OF fin, of t x] by (simp add: unat_inc)
  next
    case less
    then show ?thesis using w' un exact_pos [OF ex] cnt_upd_nat [OF fin, of t x] by (simp add: unat_dec)
  qed
  with fin show ?thesis by (simp add: exact_def)
qed

lemma exact_same: "exact w P f \<Longrightarrow> P x = P (f t) \<Longrightarrow> exact w P (f(t := x))"
  by (erule exact_upd) simp_all

lemma exact_less_max:
  assumes w: "exact w P f" and v: "exact v Q f" and PQ: "\<And>x. P x \<Longrightarrow> Q x"
    and i: "Q (f i)" "\<not> P (f i)"
  shows "w \<noteq> - 1"
proof -
  have "owners P f \<subset> owners Q f" using PQ i by (auto simp: owners_def)
  then have "cnt P f < cnt Q f" using v by (auto simp: exact_def cnt_def intro: psubset_card_mono)
  then have "unat w < unat v" using w v by (simp add: exact_def)
  also have "unat v \<le> unat (- 1 :: usize)" by (simp add: word_le_nat_alt [symmetric])
  finally show ?thesis by auto
qed

section \<open>The invariant of the path\<close>

abbreviation is_admitted :: "admit_pc \<Rightarrow> bool" where "is_admitted pc \<equiv> pc = Admitted"

definition path_inv :: "'r path \<Rightarrow> bool" where
  "path_inv s \<longleftrightarrow> tasks_ok (calls s) \<and>
     (\<forall>i. started (calls s i) \<longrightarrow> adm s i = (if cls (calls s i) = Decode then Gone else Start)) \<and>
     (\<forall>i. cas_ok (adm s i)) \<and>
     exact (OUTSTANDING (shared s)) holds_slot (calls s) \<and>
     exact (RUNNING (shared s)) executing (calls s) \<and>
     exact (ENCODE_OUTSTANDING (shared s)) (holds_tag Encode) (calls s) \<and>
     exact (DECODE_OUTSTANDING (shared s)) is_admitted (view s)"

lemma path_invD:
  assumes "path_inv s"
  shows "task_ok (calls s i)" "tasks_ok (calls s)"
    and "started (calls s i) \<Longrightarrow> adm s i = (if cls (calls s i) = Decode then Gone else Start)"
    and "exact (OUTSTANDING (shared s)) holds_slot (calls s)"
    and "exact (RUNNING (shared s)) executing (calls s)"
    and "exact (ENCODE_OUTSTANDING (shared s)) (holds_tag Encode) (calls s)"
    and "exact (DECODE_OUTSTANDING (shared s)) is_admitted (view s)" and "cas_ok (adm s i)"
  using assms by (auto simp: path_inv_def tasks_ok_def)

lemma view_upd:
  "view (s\<lparr>shared := c, adm := (adm s)(i := pc)\<rparr>) =
     (view s)(i := if holds_tag Decode (calls s i) then Admitted else pc)"
  "view (s\<lparr>adm := (adm s)(i := pc)\<rparr>) =
     (view s)(i := if holds_tag Decode (calls s i) then Admitted else pc)"
  "view (s\<lparr>shared := c, calls := (calls s)(i := t)\<rparr>) =
     (view s)(i := if holds_tag Decode t then Admitted else adm s i)"
  "view (s\<lparr>shared := c, adm := (adm s)(i := pc), calls := (calls s)(i := t)\<rparr>) =
     (view s)(i := if holds_tag Decode t then Admitted else pc)"
  "view (s\<lparr>shared := c\<rparr>) = view s"
  by (auto simp: view_def)

lemma idle_holds_nothing:
  "task_ok t \<Longrightarrow> phase t = Idle \<Longrightarrow> \<not> rx_alive t"
  by (auto simp: task_ok_def)

lemma task_step_frame:
  assumes "task_step e c t = Some (c', t')"
  shows "(case e of Call k b \<Rightarrow> phase t = Idle \<and> OUTSTANDING c \<noteq> - 1 \<and> cls t' = k | _ \<Rightarrow> started t \<and> cls t' = cls t)"
  using assms by (cases e) (auto split: if_splits phase.splits option.splits prod.splits sum.splits)

text \<open>A task event happens to a call that the admission machine sees as holding the decode slot just
  when the task does.\<close>

lemma task_view:
  assumes inv: "path_inv s" and may: "may_call e (shared s) (adm s i)"
    and st: "task_step e (shared s) (calls s i) = Some (c, t)"
  shows "is_admitted (view s i) = holds_tag Decode (calls s i)"
    and "adm s i \<noteq> Admitted" and "adm s i = (if cls t = Decode then Gone else Start)"
proof -
  have fr: "case e of Call k b \<Rightarrow> phase (calls s i) = Idle \<and> OUTSTANDING (shared s) \<noteq> - 1 \<and> cls t = k
      | _ \<Rightarrow> started (calls s i) \<and> cls t = cls (calls s i)"
    by (rule task_step_frame [OF st])
  then show "adm s i = (if cls t = Decode then Gone else Start)"
    using may path_invD(3) [OF inv, of i] by (cases e) auto
  then show "adm s i \<noteq> Admitted" by simp
  then show "is_admitted (view s i) = holds_tag Decode (calls s i)" by (simp add: view_def)
qed

lemma path_inv_task:
  assumes inv: "path_inv s" and may: "may_call e (shared s) (adm s i)"
    and st: "task_step e (shared s) (calls s i) = Some (c, t)"
  shows "path_inv (s\<lparr>shared := c, calls := (calls s)(i := t)\<rparr>)"
proof -
  note I = path_invD [OF inv]
  note T = task_step_counts [OF st I(1)]
  note V = task_view [OF inv may st]
  have ok: "task_ok t" "started t" using task_step_ok [OF st I(1)] by auto
  have out: "OUTSTANDING (shared s) \<noteq> - 1" if "holds_slot t" "\<not> holds_slot (calls s i)"
    using that st by (cases e) (auto split: if_splits phase.splits option.splits prod.splits sum.splits)
  have run: "RUNNING (shared s) \<noteq> - 1" if "executing t" "\<not> executing (calls s i)"
  proof (rule exact_less_max [OF I(5) I(4), of i])
    show "holds_slot (calls s i)" using that st
      by (cases e) (auto split: if_splits phase.splits option.splits prod.splits sum.splits)
  qed (use that in auto)
  have enc: "ENCODE_OUTSTANDING (shared s) \<noteq> - 1" if "holds_tag Encode t" "\<not> holds_tag Encode (calls s i)"
    using that st may by (cases e) (auto split: if_splits phase.splits option.splits prod.splits sum.splits)
  have dec: "\<not> (holds_tag Decode t \<and> \<not> holds_tag Decode (calls s i))"
    using st may by (cases e) (auto split: if_splits phase.splits option.splits prod.splits sum.splits)
  have "exact (DECODE_OUTSTANDING c) is_admitted ((view s)(i := if holds_tag Decode t then Admitted else adm s i))"
    using dec V T(4) by (intro exact_upd [OF I(7)]) auto
  moreover have "tasks_ok ((calls s)(i := t))" using I(2) ok by (simp add: tasks_ok_def)
  ultimately show ?thesis
    using exact_upd [OF I(4) T(1) out] exact_upd [OF I(5) T(2) run] exact_upd [OF I(6) T(3) enc] I(3) I(8) V(3)
    unfolding path_inv_def view_upd by simp
qed


lemma admit_no_wrap:
  assumes "admit_step ok a pc = (a', Admitted)" and "pc \<noteq> Admitted" and "cas_ok pc"
    and "pc = Bypass \<Longrightarrow> DECODE_OUTSTANDING a \<noteq> - 1"
  shows "DECODE_OUTSTANDING a \<noteq> - 1"
  using assms by (cases pc) (auto dest: not_refused_not_max split: if_splits option.splits)

lemma path_inv_adm:
  assumes inv: "path_inv s" and idle: "phase (calls s i) = Idle"
    and max: "adm s i = Bypass \<Longrightarrow> DECODE_OUTSTANDING (shared s) \<noteq> - 1"
    and ad: "admit_step ok (arb (shared s)) (adm s i) = (a, pc)"
  shows "path_inv (s\<lparr>shared := with_arb a (shared s), adm := (adm s)(i := pc)\<rparr>)"
proof -
  note I = path_invD [OF inv]
  have none: "\<not> rx_alive (calls s i)" using idle by (rule idle_holds_nothing [OF I(1)])
  then have v: "view s i = adm s i" by (simp add: view_def)
  have "exact (DECODE_OUTSTANDING a) is_admitted ((view s)(i := pc))"
  proof (rule exact_upd [OF I(7)])
    show "DECODE_OUTSTANDING a = DECODE_OUTSTANDING (shared s) + diff (is_admitted pc) (is_admitted (view s i))"
      using admit_step_admitted [OF ad] unfolding v by auto
    show "DECODE_OUTSTANDING (shared s) \<noteq> - 1" if "is_admitted pc" "\<not> is_admitted (view s i)"
      using admit_no_wrap [of ok "arb (shared s)" "adm s i" a] ad that I(8) max unfolding v by auto
  qed
  then show ?thesis
    using none idle I(2-6,8) admit_step_frame [OF ad] admit_step_cas_ok [OF ad]
    unfolding path_inv_def view_upd by simp
qed

lemma path_inv_submit:
  assumes inv: "path_inv s" and idle: "phase (calls s i) = Idle" and adm: "adm s i = Admitted"
    and max: "OUTSTANDING (shared s) \<noteq> - 1" and fa: "slot_fetch_add (shared s) = (prev, c)"
  shows "path_inv (s\<lparr>shared := c, adm := (adm s)(i := Gone), calls := (calls s)(i := decode_task b prev)\<rparr>)"
proof -
  note I = path_invD [OF inv]
  have none: "\<not> rx_alive (calls s i)" using idle by (rule idle_holds_nothing [OF I(1)])
  have c: "c = snd (slot_fetch_add (shared s))" using fa by simp
  have out: "OUTSTANDING c = OUTSTANDING (shared s) + 1" "RUNNING c = RUNNING (shared s)"
    "ENCODE_OUTSTANDING c = ENCODE_OUTSTANDING (shared s)"
    "DECODE_OUTSTANDING c = DECODE_OUTSTANDING (shared s)"
    unfolding c by (simp_all add: slot_fetch_add_def)
  have t: "holds_slot (decode_task b prev)" "\<not> executing (decode_task b prev)"
    "\<not> holds_tag Encode (decode_task b prev)" "holds_tag Decode (decode_task b prev)"
    "task_ok (decode_task b prev)" "started (decode_task b prev)" "cls (decode_task b prev) = Decode"
    by (simp_all add: decode_task_def task_ok_def)
  have "exact (OUTSTANDING c) holds_slot ((calls s)(i := decode_task b prev))"
    using max idle t(1) out(1) by (intro exact_upd [OF I(4)]) auto
  moreover have "exact (RUNNING c) executing ((calls s)(i := decode_task b prev))"
    unfolding out using idle t(2) by (intro exact_same [OF I(5)]) simp
  moreover have "exact (ENCODE_OUTSTANDING c) (holds_tag Encode) ((calls s)(i := decode_task b prev))"
    unfolding out using none t(3) by (intro exact_same [OF I(6)]) simp
  moreover have "exact (DECODE_OUTSTANDING c) is_admitted ((view s)(i := Admitted))"
    unfolding out using adm by (intro exact_same [OF I(7)]) (simp add: view_def)
  moreover have "tasks_ok ((calls s)(i := decode_task b prev))"
    using I(2) t by (simp add: tasks_ok_def)
  ultimately show ?thesis
    using I(3,8) t unfolding path_inv_def view_upd by simp
qed

lemma path_inv_cancel:
  assumes inv: "path_inv s" and idle: "phase (calls s i) = Idle" and adm: "adm s i = Awaiting n p occ res"
  shows "path_inv (s\<lparr>adm := (adm s)(i := Gone)\<rparr>)"
proof -
  note I = path_invD [OF inv]
  have none: "\<not> rx_alive (calls s i)" using idle by (rule idle_holds_nothing [OF I(1)])
  have "exact (DECODE_OUTSTANDING (shared s)) is_admitted ((view s)(i := Gone))"
    using none adm by (intro exact_same [OF I(7)]) (simp add: view_def)
  then show ?thesis
    using I(2-6,8) none idle unfolding path_inv_def view_upd by simp
qed

lemma path_inv_config:
  assumes "path_inv s"
  shows "path_inv (s\<lparr>shared := with_arb (apply_config cfg (arb (shared s))) (shared s)\<rparr>)"
  using assms unfolding path_inv_def view_upd by (simp add: apply_config_def notify_def)

lemma path_inv_step:
  assumes inv: "path_inv s" and st: "path_step i e s = Some s'"
  shows "path_inv s'"
proof (cases e)
  case (Adm ok)
  obtain a pc where "admit_step ok (arb (shared s)) (adm s i) = (a, pc)" by fastforce
  then show ?thesis using st Adm path_inv_adm [OF inv, of i ok a pc] by (auto split: if_splits)
next
  case CancelAdm
  then show ?thesis using st path_inv_cancel [OF inv, of i] by (auto split: admit_pc.splits if_splits)
next
  case (Submit b)
  obtain prev c where "slot_fetch_add (shared s) = (prev, c)" by fastforce
  then show ?thesis using st Submit path_inv_submit [OF inv, of i prev c b] by (auto split: if_splits)
next
  case (Task x)
  then show ?thesis using st path_inv_task [OF inv, of x i] by (auto split: if_splits option.splits)
next
  case (Config cfg)
  then show ?thesis using st path_inv_config [OF inv] by auto
qed

section \<open>The simulation\<close>

text \<open>A dropped tag is the release and the notification of its class.\<close>

lemma tag_drop_sim:
  assumes inv: "path_inv s" and rx: "rx_alive (calls s i)" and ph: "started (calls s i)"
  shows "sys_exec (tag_labels (cls (calls s i)) i) (proj s) =
    Some \<lparr>glob = arb (tag_drop (cls (calls s i)) (shared s)), owed = 0, thr = (view s)(i := adm s i)\<rparr>"
proof -
  note I = path_invD [OF inv]
  show ?thesis
  proof (cases "cls (calls s i)")
    case Plain
    then show ?thesis by (simp add: tag_labels_def tag_drop_def proj_def view_def fun_upd_idem)
  next
    case Encode
    then have "ENCODE_OUTSTANDING (shared s) \<noteq> 0" using rx by (intro exact_pos [OF I(6), of i]) simp
    with Encode show ?thesis
      by (simp add: tag_labels_def tag_drop_def proj_def view_def fun_upd_idem
        encode_drop_def [of "arb (shared s)"])
  next
    case Decode
    then have v: "view s i = Admitted" using rx by (simp add: view_def)
    then have "DECODE_OUTSTANDING (shared s) \<noteq> 0" by (rule exact_pos [OF I(7)])
    with Decode v ph I(3) [of i] show ?thesis
      by (simp add: tag_labels_def tag_drop_def proj_def decode_drop_def [of "arb (shared s)"])
  qed
qed


lemma slot_check_arb: "arb (snd (slot_check prev c)) = arb c"
  by (simp add: slot_check_def split: option.splits)

lemma arb_tag [simp]:
  "arb (tag_drop k (c\<lparr>tasks_rejected := m\<rparr>)) = arb (tag_drop k c)"
  "arb (tag_drop k (slot_drop c)) = arb (tag_drop k c)"
  by (cases k; simp add: tag_drop_def)+

text \<open>One event of a task is the sequence of labels \<open>task_labels\<close> of the admission machine.\<close>

lemma task_sim:
  assumes inv: "path_inv s" and may: "may_call e (shared s) (adm s i)"
    and st: "task_step e (shared s) (calls s i) = Some (c, t)"
  shows "sys_exec (task_labels i e (shared s) (calls s i)) (proj s) =
    Some \<lparr>glob = arb c, owed = 0, thr = (view s)(i := if holds_tag Decode t then Admitted else adm s i)\<rparr>"
proof -
  note I = path_invD [OF inv]
  have same: "(view s)(i := if holds_tag Decode (calls s i) then Admitted else adm s i) = view s"
    by (simp add: view_def fun_upd_idem)
  show ?thesis
  proof (cases e)
    case (Call k b)
    then have "\<not> holds_tag Decode (calls s i)" "\<not> holds_tag Decode t"
      using st may idle_holds_nothing [OF I(1) [of i]] by (auto split: if_splits prod.splits)
    then show ?thesis using st may same Call
      by (cases k) (auto simp: proj_def tag_enter_def slot_fetch_add_def split: if_splits)
  next
    case Check
    then obtain prev where ph: "phase (calls s i) = Acquiring prev"
      using st by (auto split: phase.splits)
    then have rx: "rx_alive (calls s i)" using I(1) [of i] by (simp add: task_ok_def)
    show ?thesis
    proof (cases "slot_rejects prev (shared s)")
      case None
      then show ?thesis using st ph same Check by (auto simp: proj_def slot_check_def)
    next
      case (Some l)
      then show ?thesis using st ph rx Check tag_drop_sim [OF inv rx] by (auto simp: slot_check_def)
    qed
  next
    case PickUp
    show ?thesis
    proof (cases "rx_alive (calls s i)")
      case True
      then have "RUNNING (shared s) \<noteq> - 1" using st PickUp
        by (intro exact_less_max [OF I(5) I(4), of i]) (auto split: if_splits)
      then show ?thesis using st PickUp True same
        by (auto simp: proj_def running_enter_def [of "arb c" for c] split: if_splits)
    next
      case False
      then show ?thesis using st PickUp same by (auto simp: proj_def split: if_splits)
    qed
  next
    case Finish
    then have "executing (calls s i)" using st by (auto split: if_splits)
    then have "RUNNING (shared s) \<noteq> 0" by (rule exact_pos [OF I(5)])
    then show ?thesis using st Finish same
      by (auto simp: proj_def running_drop_def [of "arb c" for c] split: if_splits)
  next
    case Abandon
    then have "rx_alive (calls s i)" "started (calls s i)" using st by (auto split: if_splits phase.splits)
    then show ?thesis using st Abandon tag_drop_sim [OF inv, of i] by (auto split: phase.splits)
  next
    case Resume
    then have "rx_alive (calls s i)" "started (calls s i)" using st by (auto split: if_splits)
    then show ?thesis using st Resume tag_drop_sim [OF inv, of i] by (auto split: if_splits)
  qed
qed


lemma path_sim_step:
  assumes inv: "path_inv s" and st: "path_step i e s = Some s'"
  shows "sys_exec (path_labels i e s) (proj s) = Some (proj s')"
proof (cases e)
  case (Adm ok)
  obtain a pc where ad: "admit_step ok (arb (shared s)) (adm s i) = (a, pc)" by fastforce
  from st Adm have idle: "phase (calls s i) = Idle" by (auto split: if_splits)
  have "view s i = adm s i" "\<not> rx_alive (calls s i)"
    using idle_holds_nothing [OF path_invD(1) [OF inv] idle] by (simp_all add: view_def)
  then show ?thesis using st Adm ad by (auto simp: proj_def view_upd split: if_splits)
next
  case CancelAdm
  from st CancelAdm have idle: "phase (calls s i) = Idle" by (auto split: if_splits admit_pc.splits)
  have "view s i = adm s i" "\<not> rx_alive (calls s i)"
    using idle_holds_nothing [OF path_invD(1) [OF inv] idle] by (simp_all add: view_def)
  then show ?thesis using st CancelAdm by (auto simp: proj_def view_upd split: if_splits admit_pc.splits)
next
  case (Submit b)
  then have "(view s)(i := Admitted) = view s"
    using st by (intro fun_upd_idem) (auto simp: view_def split: if_splits)
  moreover from st Submit have "s' = s\<lparr>shared := snd (slot_fetch_add (shared s)), adm := (adm s)(i := Gone),
      calls := (calls s)(i := decode_task b (fst (slot_fetch_add (shared s))))\<rparr>"
    by (auto split: if_splits prod.splits)
  ultimately show ?thesis using Submit by (simp add: proj_def view_upd decode_task_def)
next
  case (Task x)
  then obtain c t where "may_call x (shared s) (adm s i)"
    and "task_step x (shared s) (calls s i) = Some (c, t)"
    and "s' = s\<lparr>shared := c, calls := (calls s)(i := t)\<rparr>"
    using st by (auto split: if_splits option.splits)
  then show ?thesis using task_sim [OF inv, of x i c t] Task
    by (simp add: proj_def [of "s\<lparr>shared := c, calls := (calls s)(i := t)\<rparr>"] view_upd)
next
  case (Config cfg)
  then show ?thesis using st by (auto simp: proj_def view_upd apply_config_def)
qed

section \<open>Runs\<close>

text \<open>The events that raise \<open>ENCODE_OUTSTANDING\<close>: the only ones that map to \<open>EncEnter\<close>.\<close>

fun starts_encode :: "'r path_event \<Rightarrow> bool" where
  "starts_encode (Task (Call k b)) = (k = Encode)"
| "starts_encode _ = False"

lemma labels_enc: "list_all (\<lambda>l. l \<noteq> EncEnter) (tag_labels k i)"
  by (cases k) (simp_all add: tag_labels_def)

lemma path_labels_enc:
  "\<not> starts_encode e \<Longrightarrow> list_all (\<lambda>l. l \<noteq> EncEnter) (path_labels i e s)"
  by (cases e rule: starts_encode.cases) (auto simp: labels_enc split: phase.splits)

abbreviation booted :: "usize \<Rightarrow> arbiter" where
  "booted n \<equiv> arbiter_init\<lparr>POOL_THREAD_COUNT := n\<rparr>"

lemma path_start_inv:
  assumes "\<And>i. phase (ts i) = Idle \<and> \<not> rx_alive (ts i)"
  shows "path_inv \<lparr>shared = boot n ql, adm = \<lambda>_. Start, calls = ts\<rparr>"
    and "proj \<lparr>shared = boot n ql, adm = \<lambda>_. Start, calls = ts\<rparr> = sys_start (booted n)"
proof -
  let ?s = "\<lparr>shared = boot n ql, adm = \<lambda>_. Start, calls = ts\<rparr>"
  have v: "view ?s = (\<lambda>_. Start)" using assms by (auto simp: view_def)
  show "path_inv ?s" unfolding path_inv_def v using assms
    by (simp add: exact_def tasks_ok_def task_ok_def init_thread_pool_def cpu_init_def)
  show "proj ?s = sys_start (booted n)"
    unfolding proj_def v
    by (simp add: sys_start_def arb_def arbiter.defs init_thread_pool_def cpu_init_def arbiter_init_def)
qed

lemma path_reach_inv: "path_reach ok (boot n ql) s \<Longrightarrow> path_inv s"
  by (induction rule: path_reach.induct) (auto intro: path_start_inv path_inv_step)

lemma path_reach_sim:
  assumes "path_reach ok (boot n ql) s"
    and lab: "\<And>i e u. ok e \<Longrightarrow> list_all lab (path_labels i e u)"
  shows "sys_run lab (sys_start (booted n)) (proj s)"
  using assms(1)
proof (induction rule: path_reach.induct)
  case (path_start ts)
  show ?case unfolding path_start_inv(2) [OF path_start] by (rule run_refl)
next
  case (path_move s i e s')
  have "sys_run lab (proj s) (proj s')"
    using path_sim_step [OF path_reach_inv [OF path_move(1)] path_move(2)] lab [OF path_move(3)]
    by (rule sys_exec_run)
  then show ?case using path_move.IH by (rule sys_run_trans)
qed

text \<open>A parked decode call that has not been notified is one that the current counters refuse, as long
  as no encode call has started; the counters here are those of the tasks on the pool.\<close>

lemma waiting_decode_is_refused:
  assumes "path_reach (\<lambda>e. \<not> starts_encode e) (boot n ql) s"
    and "adm s i = Awaiting m p occ res" and "ARBITRATION_EVENT (shared s) = m"
  shows "ARBITRATION_ENABLED (shared s) \<and>
    refused p (of_nat (cnt executing (calls s))) (DECODE_OUTSTANDING (shared s))
      (of_nat (cnt (holds_tag Encode) (calls s))) occ res"
proof -
  note I = path_invD [OF path_reach_inv [OF assms(1)]]
  have run: "sys_run (\<lambda>l. l \<noteq> EncEnter) (sys_start (booted n)) (proj s)"
    using assms(1) path_labels_enc by (rule path_reach_sim)
  have "\<not> holds_tag Decode (calls s i)"
    using I(3) [of i] idle_holds_nothing [OF I(1) [of i]] assms(2) by (cases "phase (calls s i) = Idle") auto
  then have "thr (proj s) i = Awaiting m p occ res" using assms(2) by (simp add: proj_def view_def)
  moreover have "of_nat (cnt executing (calls s)) = RUNNING (shared s)"
    and "of_nat (cnt (holds_tag Encode) (calls s)) = ENCODE_OUTSTANDING (shared s)"
    by (rule exact_of_nat [OF I(5)], rule exact_of_nat [OF I(6)])
  moreover have "listener_ok (glob (proj s)) (owed (proj s)) (thr (proj s) i)"
    using adm_inv_run [OF run] by (simp add: adm_inv_def wake_inv_def)
  ultimately show ?thesis using assms(3) by (simp add: proj_def)
qed

text \<open>With a queue limit, the composed pool respects it as well.\<close>

definition as_pool :: "'r path \<Rightarrow> 'r pool" where
  "as_pool s = \<lparr>cpu = shared s, tasks = calls s\<rparr>"

lemma limit_inv_cong:
  assumes "limit_inv l \<lparr>cpu = c, tasks = ts\<rparr>" and "QUEUE_LIMIT c' = QUEUE_LIMIT c"
  shows "limit_inv l \<lparr>cpu = c', tasks = ts\<rparr>"
  using assms by (simp add: limit_inv_def)

lemma limit_step:
  assumes inv: "path_inv s" and lim: "limit_inv l (as_pool s)" and st: "path_step i e s = Some s'"
  shows "limit_inv l (as_pool s')"
proof -
  have ok: "tasks_ok (tasks (as_pool s))" and out: "OUTSTANDING (cpu (as_pool s)) = of_nat (cnt holds_slot (tasks (as_pool s)))"
    using path_invD(2) [OF inv] exact_of_nat [OF path_invD(4) [OF inv]] by (simp_all add: as_pool_def)
  note move = limit_inv_move [OF lim ok out]
  show ?thesis
  proof (cases e)
    case (Submit b)
    let ?t = "decode_task b (OUTSTANDING (shared s))"
    have "task_step (Call Decode b) (shared s) (calls s i) =
        Some (snd (slot_fetch_add (decode_enter (shared s))), ?t)"
      using st Submit by (auto simp: decode_task_def slot_fetch_add_def tag_enter_def arbiter_ops split: if_splits)
    then have "limit_inv l \<lparr>cpu = snd (slot_fetch_add (decode_enter (shared s))), tasks = (calls s)(i := ?t)\<rparr>"
      using move [of "Call Decode b" i] by (simp add: as_pool_def)
    then have "limit_inv l \<lparr>cpu = snd (slot_fetch_add (shared s)), tasks = (calls s)(i := ?t)\<rparr>"
      by (rule limit_inv_cong) (simp add: slot_fetch_add_def arbiter_ops)
    moreover have "as_pool s' = \<lparr>cpu = snd (slot_fetch_add (shared s)), tasks = (calls s)(i := ?t)\<rparr>"
      using st Submit by (auto simp: as_pool_def slot_fetch_add_def split: if_splits)
    ultimately show ?thesis by simp
  next
    case (Task x)
    then show ?thesis using st move [of x i] by (auto simp: as_pool_def split: if_splits option.splits)
  qed (use lim st in \<open>auto simp: as_pool_def limit_inv_def split: if_splits prod.splits admit_pc.splits\<close>)
qed

lemma path_reach_limit:
  "path_reach ok (boot n (Some l)) s \<Longrightarrow> limit_inv l (as_pool s)"
proof (induction rule: path_reach.induct)
  case (path_start ts)
  then have "\<not> holds_slot (ts i)" "\<not> let_through l (phase (ts i))" for i by simp_all
  then show ?case by (simp add: as_pool_def limit_inv_def init_thread_pool_def cpu_init_def)
next
  case (path_move s i e s')
  then show ?case by (blast intro: limit_step path_reach_inv)
qed


section \<open>Periods of the composed machine\<close>

inductive path_period :: "(arbiter \<Rightarrow> bool) \<Rightarrow> 'r path \<Rightarrow> 'r path \<Rightarrow> bool" for P where
  pp_start: "P (arb (shared s)) \<Longrightarrow> path_period P s s"
| pp_step: "path_period P s s' \<Longrightarrow> path_step i e s' = Some s'' \<Longrightarrow> P (arb (shared s'')) \<Longrightarrow>
    path_period P s s''"

text \<open>An event is at most one change of the counters, followed by its notification.\<close>

definition short :: "label list \<Rightarrow> bool" where
  "short ls \<longleftrightarrow> ls = [] \<or> (\<exists>l. ls = [l]) \<or> (\<exists>l. ls = [l, Notify])"

lemma path_labels_short: "short (path_labels i e s)"
proof -
  have tag: "short (tag_labels k j)" for k j by (cases k) (simp_all add: tag_labels_def short_def)
  have short: "short []" "short [l]" "short [l, Notify]" for l by (simp_all add: short_def)
  have task: "short (task_labels i x c t)" for x c t
    by (cases x) (auto simp: tag short split: phase.splits)
  show ?thesis by (cases e) (simp_all add: task short)
qed

lemma saturated_notify: "saturated g lo hi (notify a) = saturated g lo hi a"
  by (simp add: saturated_def notify_def)

lemma short_period:
  assumes "short ls" and ex: "sys_exec ls u = Some v"
    and P: "P (glob u)" "P (glob v)" and insens: "\<And>a. P (notify a) = P a"
  shows "period P u v"
proof -
  consider "ls = []" | l where "ls = [l]" | l where "ls = [l, Notify]"
    using assms(1) by (auto simp: short_def)
  then show ?thesis
  proof cases
    case 1
    then show ?thesis using ex P by (auto intro: period_start)
  next
    case 2
    then have "sys_exec1 l u = Some v" using ex by (simp split: option.splits)
    then show ?thesis by (rule period_one [OF P(1) sys_exec1_step P(2)])
  next
    case 3
    with ex obtain w where w: "sys_exec1 l u = Some w" and v: "sys_exec1 Notify w = Some v"
      by (simp del: sys_exec1.simps split: option.splits)
    from v have "glob v = notify (glob w)" by (auto split: if_splits)
    then have Pw: "P (glob w)" using P(2) insens by simp
    show ?thesis
      by (rule period_trans [OF period_one [OF Pw sys_exec1_step [OF v] P(2)]
            period_one [OF P(1) sys_exec1_step [OF w] Pw]])
  qed
qed

lemma path_period_sim:
  assumes "path_period P s s'" and "path_inv s" and insens: "\<And>a. P (notify a) = P a"
  shows "period P (proj s) (proj s') \<and> path_inv s' \<and> P (glob (proj s'))"
  using assms(1,2)
proof (induction rule: path_period.induct)
  case (pp_start s)
  then show ?case by (simp add: proj_def period_start)
next
  case (pp_step s s' i e s'')
  then have IH: "period P (proj s) (proj s')" "path_inv s'" "P (glob (proj s'))" by auto
  have P'': "P (glob (proj s''))" using pp_step(3) by (simp add: proj_def)
  have "period P (proj s') (proj s'')"
    using path_labels_short path_sim_step [OF IH(2) pp_step(2)] IH(3) P'' insens by (rule short_period)
  then show ?case using IH P'' path_inv_step [OF IH(2) pp_step(2)] by (auto intro: period_trans)
qed

fun path_period_exec :: "(arbiter \<Rightarrow> bool) \<Rightarrow> (nat \<times> 'r path_event) list \<Rightarrow> 'r path \<Rightarrow> 'r path option" where
  "path_period_exec P [] s = (if P (arb (shared s)) then Some s else None)"
| "path_period_exec P ((i, e) # es) s =
     (if P (arb (shared s))
      then (case path_step i e s of None \<Rightarrow> None | Some s' \<Rightarrow> path_period_exec P es s') else None)"

lemma path_period_trans: "path_period P s' s'' \<Longrightarrow> path_period P s s' \<Longrightarrow> path_period P s s''"
  by (induction rule: path_period.induct) (auto intro: path_period.intros)

lemma path_period_exec_period: "path_period_exec P es s = Some s' \<Longrightarrow> path_period P s s'"
proof (induction es arbitrary: s)
  case Nil
  then show ?case by (auto intro: pp_start split: if_splits)
next
  case (Cons ie es)
  obtain i e where ie: "ie = (i, e)" by fastforce
  with Cons.prems obtain u where p: "P (arb (shared s))" and u: "path_step i e s = Some u"
    and r: "path_period_exec P es u = Some s'" by (auto split: if_splits option.splits)
  have "P (arb (shared u))" using r by (cases es) (auto split: if_splits)
  then have "path_period P s u" by (rule pp_step [OF pp_start [where P = P, OF p] u])
  with Cons.IH [OF r] show ?case by (rule path_period_trans)
qed

section \<open>Properties\<close>

abbreviation path_init :: "usize \<Rightarrow> usize option \<Rightarrow> 'r \<Rightarrow> 'r path" where
  "path_init n ql r \<equiv> \<lparr>shared = boot n ql, adm = \<lambda>_. Start, calls = \<lambda>_. idle_task r\<rparr>"

lemma path_reach_init: "path_reach ok (boot n ql) (path_init n ql r)"
  by (rule path_reach.path_start) (simp add: idle_task_def)

lemmas path_exec_simps = init_thread_pool_def cpu_init_def arb_def with_arb_def arbiter.defs idle_task_def
  decode_task_def pool_ops slot_rejects_def tag_enter_def tag_drop_def run_simps

abbreviation holding :: "'r path \<Rightarrow> nat set" where
  "holding s \<equiv> {i. adm s i = Admitted \<or> (rx_alive (calls s i) \<and> cls (calls s i) = Decode)}"

lemma decode_counts_holding: "path_inv s \<Longrightarrow> unat (DECODE_OUTSTANDING (shared s)) = card (holding s)"
proof -
  assume "path_inv s"
  then have "exact (DECODE_OUTSTANDING (shared s)) is_admitted (view s)" by (rule path_invD)
  moreover have "owners is_admitted (view s) = holding s" by (auto simp: owners_def view_def)
  ultimately show ?thesis by (simp add: exact_def cnt_def)
qed

text \<open>C5. Every run of the composed decode path, with encode and plain tasks and configuration calls
  beside it, is a run of the admission machine on the arbiter's part of the state, and
  \<open>DECODE_OUTSTANDING\<close> is exactly the number of decode calls that were admitted and whose caller has
  not left: no reservation is lost or duplicated between \<open>admit_decode\<close> and the guard of the task.\<close>

theorem decode_path_refines_admission:
  assumes "path_reach ok (boot n ql) s"
  shows "sys_run (\<lambda>_. True) (sys_start (booted n)) (proj s) \<and>
    unat (DECODE_OUTSTANDING (shared s)) =
      card {i. adm s i = Admitted \<or> (rx_alive (calls s i) \<and> cls (calls s i) = Decode)}"
  using decode_counts_holding [OF path_reach_inv [OF assms]] path_reach_sim [OF assms]
  by (simp add: list.pred_True)

theorem decode_path_refines_admission_witness:
  "\<exists>s :: nat path. phase (calls s 0) = Queued \<and> phase (calls s 1) = Executing \<and> adm s 2 = Gone \<and>
     sys_run (\<lambda>_. True) (sys_start (booted 8)) (proj s) \<and>
     unat (DECODE_OUTSTANDING (shared s)) =
       card {i. adm s i = Admitted \<or> (rx_alive (calls s i) \<and> cls (calls s i) = Decode)}"
proof -
  let ?es = "[(1, Task (Call Encode (Value 5))), (1, Task Check), (1, Task PickUp)] @
    replicate 9 (0, Adm True) @ [(0, Submit (Value 7)), (0, Task Check)] @
    replicate 9 (2, Adm True) @ [(2, Submit (Value 9)), (2, Task Check), (2, Task Abandon)]"
  obtain s where s: "path_exec ?es (path_init 8 None (0::nat)) = Some s"
    and p: "phase (calls s 0) = Queued" "phase (calls s 1) = Executing" "adm s 2 = Gone"
    by (simp add: path_exec_simps)
  have "path_reach (\<lambda>_. True) (boot 8 None) s" by (rule path_exec_reach [OF path_reach_init s]) simp
  from decode_path_refines_admission [OF this] p show ?thesis by blast
qed



text \<open>The reservation belongs to the caller's future, not to the task: a caller that gives up releases
  it while its task still occupies a pool thread, so orphaned decode tasks are outside the cap.\<close>

lemma orphaned_decode_uncounted:
  "\<exists>s :: nat path. path_reach (\<lambda>_. True) (boot 1 None) s \<and> cls (calls s 0) = Decode \<and>
     phase (calls s 0) = Executing \<and> RUNNING (shared s) = 1 \<and> DECODE_OUTSTANDING (shared s) = 0"
proof -
  let ?es = "replicate 9 (0, Adm True) @
    [(0, Submit (Value 7)), (0, Task Check), (0, Task PickUp), (0, Task Abandon)]"
  obtain s where s: "path_exec ?es (path_init 1 None (0::nat)) = Some s"
    and p: "cls (calls s 0) = Decode" "phase (calls s 0) = Executing" "RUNNING (shared s) = 1"
      "DECODE_OUTSTANDING (shared s) = 0"
    by (simp add: path_exec_simps)
  have "path_reach (\<lambda>_. True) (boot 1 None) s" by (rule path_exec_reach [OF path_reach_init s]) simp
  with p show ?thesis by blast
qed

end
