(* ===== verification/Windowed.thy ===== *)
theory Windowed
  imports Prelude
begin

text \<open>
  The sliding-window ratio of \<open>src/statistics/moving/windowed.rs\<close>: a ring of stamped buckets that is
  cleared lazily. Durations and instants are natural numbers of nanoseconds; \<open>f64\<close> division is division of
  reals. The abstract meaning is a log of all records, and \<open>recent_value_of_log\<close> states that the ring
  answers exactly like the log restricted to the window.
\<close>

section \<open>The ring\<close>

record bucket =
  stamp :: u64
  expected :: u64
  observed :: u64

record windowed =
  buckets :: "bucket list"
  bucket_width :: nat
  epoch :: nat

definition bucket_default :: bucket where
  "bucket_default = \<lparr>stamp = 0, expected = 0, observed = 0\<rparr>"

definition windowed_new :: "nat \<Rightarrow> nat \<Rightarrow> nat \<Rightarrow> windowed" where
  "windowed_new n width ep =
     \<lparr>buckets = replicate n bucket_default, bucket_width = max width (from_millis 1), epoch = ep\<rparr>"

definition absolute_bucket :: "windowed \<Rightarrow> nat \<Rightarrow> u64" where
  "absolute_bucket w now = of_nat ((now - epoch w) div bucket_width w)"

definition bucket_at :: "nat \<Rightarrow> windowed \<Rightarrow> (nat \<times> windowed) option" where
  "bucket_at now w =
     (let absolute = absolute_bucket w now;
          i = unat (absolute mod of_nat (length (buckets w)));
          b = buckets w ! i in
      if absolute < stamp b then None
      else if absolute = stamp b then Some (i, w)
      else Some (i, w\<lparr>buckets := (buckets w)[i := \<lparr>stamp = absolute, expected = 0, observed = 0\<rparr>]\<rparr>))"

definition record_expected :: "u64 \<Rightarrow> nat \<Rightarrow> windowed \<Rightarrow> windowed" where
  "record_expected n now w =
     (case bucket_at now w of
        None \<Rightarrow> w
      | Some (i, w') \<Rightarrow> w'\<lparr>buckets := (buckets w')[i :=
          (buckets w' ! i)\<lparr>expected := sat_add (expected (buckets w' ! i)) n\<rparr>]\<rparr>)"

definition record_observed :: "u64 \<Rightarrow> nat \<Rightarrow> windowed \<Rightarrow> windowed" where
  "record_observed n now w =
     (case bucket_at now w of
        None \<Rightarrow> w
      | Some (i, w') \<Rightarrow> w'\<lparr>buckets := (buckets w')[i :=
          (buckets w' ! i)\<lparr>observed := sat_add (observed (buckets w' ! i)) n\<rparr>]\<rparr>)"

definition live_totals :: "u64 \<Rightarrow> u64 \<Rightarrow> bucket list \<Rightarrow> u64 \<times> u64" where
  "live_totals oldest current bs =
     foldl (\<lambda>(e, ob) b. (sat_add e (expected b), sat_add ob (observed b))) (0, 0)
       (filter (\<lambda>b. oldest \<le> stamp b \<and> stamp b \<le> current) bs)"

definition recent_value :: "nat \<Rightarrow> nat \<Rightarrow> windowed \<Rightarrow> real option" where
  "recent_value slices now w =
     (let s = of_nat (clamp slices 1 (length (buckets w)));
          current = absolute_bucket w now;
          oldest = sat_sub current (s - 1);
          (e, ob) = live_totals oldest current (buckets w)
      in if 0 < e then Some (clamp (real (unat ob) / real (unat e)) 0 1) else None)"

definition windowed_value :: "nat \<Rightarrow> windowed \<Rightarrow> real option" where
  "windowed_value now w = recent_value (length (buckets w)) now w"

definition window :: "windowed \<Rightarrow> nat" where
  "window w = min (bucket_width w * min (length (buckets w)) (2 ^ 32 - 1)) DURATION_MAX"

section \<open>The log\<close>

datatype log_kind = Expected | Observed

type_synonym log_entry = "log_kind \<times> u64 \<times> nat"

fun apply_entry :: "windowed \<Rightarrow> log_entry \<Rightarrow> windowed" where
  "apply_entry w (Expected, c, t) = record_expected c t w"
| "apply_entry w (Observed, c, t) = record_observed c t w"

definition replay :: "log_entry list \<Rightarrow> windowed \<Rightarrow> windowed" where
  "replay xs w = foldl apply_entry w xs"

definition total :: "log_kind \<Rightarrow> (nat \<Rightarrow> bool) \<Rightarrow> log_entry list \<Rightarrow> nat" where
  "total k P xs = sum_list (map (\<lambda>(k', c, t). if k' = k \<and> P t then unat c else 0) xs)"

abbreviation capped :: "nat \<Rightarrow> nat" where "capped m \<equiv> min m (2 ^ 64 - 1)"

lemma total_Nil [simp]: "total k P [] = 0"
  by (simp add: total_def)

lemma total_snoc [simp]:
  "total k P (xs @ [(k', c, t)]) = total k P xs + (if k' = k \<and> P t then unat c else 0)"
  by (simp add: total_def)

lemma total_cong: "(\<And>k c t. (k, c, t) \<in> set xs \<Longrightarrow> P t = Q t) \<Longrightarrow> total k P xs = total k Q xs"
  unfolding total_def by (intro arg_cong [of _ _ sum_list] map_cong) auto

lemma total_none: "(\<And>k c t. (k, c, t) \<in> set xs \<Longrightarrow> \<not> P t) \<Longrightarrow> total k P xs = 0"
  unfolding total_def by (subst sum_list_eq_0_iff) (auto split: if_splits)

text \<open>Entries are counted once when each is attributed to one index.\<close>

lemma total_partition:
  fixes n :: nat
  assumes "\<And>k c t. (k, c, t) \<in> set xs \<Longrightarrow> idx t < n"
  shows "(\<Sum>i<n. total k (\<lambda>t. P t \<and> idx t = i) xs) = total k P xs"
  using assms
proof (induction xs rule: rev_induct)
  case (snoc x xs)
  obtain k' c t where x: "x = (k', c, t)" by (cases x)
  have "idx t < n" using snoc.prems [of k' c t] by (simp add: x)
  then have "(\<Sum>i<n. if k' = k \<and> P t \<and> idx t = i then unat c else 0) = (if k' = k \<and> P t then unat c else 0)"
    by (auto simp: sum.If_cases)
  moreover have "(\<Sum>i<n. total k (\<lambda>t. P t \<and> idx t = i) xs) = total k P xs"
    using snoc.prems by (intro snoc.IH) auto
  ultimately show ?case by (simp add: x sum.distrib)
qed simp

section \<open>What a slot holds\<close>

text \<open>
  \<open>slot_stamp\<close> is the newest slice that was recorded in a slot; its counts are those of that slice.
\<close>

definition slot_stamp :: "(nat \<Rightarrow> nat) \<Rightarrow> nat \<Rightarrow> nat \<Rightarrow> log_entry list \<Rightarrow> nat" where
  "slot_stamp sl n i xs = foldl (\<lambda>m (_, _, t). if sl t mod n = i then max m (sl t) else m) 0 xs"

lemma slot_stamp_snoc [simp]:
  "slot_stamp sl n i (xs @ [(k, c, t)]) =
     (if sl t mod n = i then max (slot_stamp sl n i xs) (sl t) else slot_stamp sl n i xs)"
  by (simp add: slot_stamp_def)

lemma slot_stamp_Nil [simp]: "slot_stamp sl n i [] = 0"
  by (simp add: slot_stamp_def)

lemma slot_stamp_ge:
  "(k, c, t) \<in> set xs \<Longrightarrow> sl t \<le> slot_stamp sl n (sl t mod n) xs"
proof (induction xs rule: rev_induct)
  case (snoc x xs)
  then show ?case by (cases x) (auto simp: max.coboundedI1)
qed simp

lemma slot_stamp_mem:
  "slot_stamp sl n i xs = 0 \<or>
   (slot_stamp sl n i xs mod n = i \<and> (\<exists>k c t. (k, c, t) \<in> set xs \<and> slot_stamp sl n i xs = sl t))"
proof (induction xs rule: rev_induct)
  case (snoc x xs)
  obtain k c t where x: "x = (k, c, t)" by (cases x)
  have m: "max a b = a \<or> max a b = b" for a b :: nat by (auto simp: max_def)
  show ?case using snoc m [of "slot_stamp sl n i xs" "sl t"] unfolding x slot_stamp_snoc
    by (cases "sl t mod n = i") (auto, metis+)
qed simp

lemma slot_stamp_le:
  "(\<And>k c t. (k, c, t) \<in> set xs \<Longrightarrow> sl t \<le> m) \<Longrightarrow> slot_stamp sl n i xs \<le> m"
  using slot_stamp_mem [of sl n i xs] by auto

definition slice :: "nat \<Rightarrow> nat \<Rightarrow> nat \<Rightarrow> nat" where
  "slice ep width t = (t - ep) div width"

definition slot_ok :: "(nat \<Rightarrow> nat) \<Rightarrow> nat \<Rightarrow> log_entry list \<Rightarrow> nat \<Rightarrow> bucket \<Rightarrow> bool" where
  "slot_ok sl n xs i b \<longleftrightarrow>
     unat (stamp b) = slot_stamp sl n i xs \<and>
     unat (expected b) = capped (total Expected (\<lambda>t. sl t = slot_stamp sl n i xs \<and> sl t mod n = i) xs) \<and>
     unat (observed b) = capped (total Observed (\<lambda>t. sl t = slot_stamp sl n i xs \<and> sl t mod n = i) xs)"

definition ring_ok :: "nat \<Rightarrow> nat \<Rightarrow> nat \<Rightarrow> log_entry list \<Rightarrow> windowed \<Rightarrow> bool" where
  "ring_ok n width ep xs w \<longleftrightarrow> length (buckets w) = n \<and> bucket_width w = width \<and> epoch w = ep \<and>
     (\<forall>i<n. slot_ok (slice ep width) n xs i (buckets w ! i))"

fun bump :: "log_kind \<Rightarrow> u64 \<Rightarrow> bucket \<Rightarrow> bucket" where
  "bump Expected c b = b\<lparr>expected := sat_add (expected b) c\<rparr>"
| "bump Observed c b = b\<lparr>observed := sat_add (observed b) c\<rparr>"

definition push_slot :: "nat \<Rightarrow> log_kind \<Rightarrow> u64 \<Rightarrow> bucket \<Rightarrow> bucket" where
  "push_slot s k c b =
     (if s < unat (stamp b) then b
      else bump k c (if s = unat (stamp b) then b else \<lparr>stamp = of_nat s, expected = 0, observed = 0\<rparr>))"

lemma slot_ok_push_same:
  assumes ok: "slot_ok sl n xs i b" and i: "sl t mod n = i" and s: "sl t < 2 ^ 64"
  shows "slot_ok sl n (xs @ [(k, c, t)]) i (push_slot (sl t) k c b)"
proof -
  let ?S = "slot_stamp sl n i xs"
  have st: "unat (stamp b) = ?S" using ok by (simp add: slot_ok_def)
  have u: "unat (of_nat (sl t) :: u64) = sl t" using s by (simp add: unat_of_small)
  consider "sl t < ?S" | "sl t = ?S" | "?S < sl t" by linarith
  then show ?thesis
  proof cases
    case 1
    then show ?thesis using ok st i by (simp add: slot_ok_def push_slot_def max.absorb1)
  next
    case 2
    then show ?thesis using ok st i
      by (cases k) (auto simp: slot_ok_def push_slot_def unat_sat_add)
  next
    case 3
    have "total k' (\<lambda>u. sl u = sl t \<and> sl u mod n = i) xs = 0" for k'
      using slot_stamp_ge [of _ _ _ xs sl n] 3 by (intro total_none) fastforce
    then show ?thesis using 3 st i u
      by (cases k) (auto simp: slot_ok_def push_slot_def unat_sat_add max.absorb2)
  qed
qed

lemma slot_ok_push_other:
  "slot_ok sl n xs i b \<Longrightarrow> sl t mod n \<noteq> i \<Longrightarrow> slot_ok sl n (xs @ [(k, c, t)]) i b"
  by (simp add: slot_ok_def)

lemma unat_slot_index:
  assumes "s < 2 ^ 64" and "n < 2 ^ 64"
  shows "unat (of_nat s mod of_nat n :: u64) = s mod n"
  using assms by (simp add: unat_mod_distrib unat_of_small)

lemma apply_entry_push:
  assumes n: "length (buckets w) = n" "0 < n" "n < 2 ^ 64"
    and s: "(t - epoch w) div bucket_width w = s" "s < 2 ^ 64"
  shows "apply_entry w (k, c, t) =
    w\<lparr>buckets := (buckets w)[s mod n := push_slot s k c (buckets w ! (s mod n))]\<rparr>"
proof -
  let ?b = "buckets w ! (s mod n)"
  have i: "s mod n < length (buckets w)" using n by simp
  have a: "absolute_bucket w t = of_nat s" by (simp add: absolute_bucket_def s)
  have u: "unat (of_nat s :: u64) = s" using s by (simp add: unat_of_small)
  have cmp: "(of_nat s < stamp ?b) = (s < unat (stamp ?b))" "(of_nat s = stamp ?b) = (s = unat (stamp ?b))"
    using u by (simp_all add: word_less_nat_alt word_unat_eq_iff)
  have at: "bucket_at t w = (if s < unat (stamp ?b) then None
      else Some (s mod n, w\<lparr>buckets := (buckets w)[s mod n :=
        (if s = unat (stamp ?b) then ?b else \<lparr>stamp = of_nat s, expected = 0, observed = 0\<rparr>)]\<rparr>))"
    by (simp add: bucket_at_def Let_def a n(1) unat_slot_index [OF s(2) n(3)] cmp)
  show ?thesis
    by (cases k) (simp_all add: at record_expected_def record_observed_def push_slot_def i)
qed

lemma ring_ok_new:
  assumes "1000000 \<le> width"
  shows "ring_ok n width ep [] (windowed_new n width ep)"
  using assms
  by (simp add: ring_ok_def windowed_new_def bucket_default_def from_millis_def slot_ok_def max.absorb1)

lemma ring_ok_push:
  assumes ok: "ring_ok n width ep xs w" and n: "0 < n" "n < 2 ^ 64" and s: "slice ep width t < 2 ^ 64"
  shows "ring_ok n width ep (xs @ [(k, c, t)]) (apply_entry w (k, c, t))"
proof -
  let ?s = "slice ep width t"
  have w: "length (buckets w) = n" "bucket_width w = width" "epoch w = ep"
    and sl: "\<And>i. i < n \<Longrightarrow> slot_ok (slice ep width) n xs i (buckets w ! i)"
    using ok by (auto simp: ring_ok_def)
  have e: "apply_entry w (k, c, t) =
      w\<lparr>buckets := (buckets w)[?s mod n := push_slot ?s k c (buckets w ! (?s mod n))]\<rparr>"
    using apply_entry_push [OF w(1) n _ s] w by (simp add: slice_def)
  have "slot_ok (slice ep width) n (xs @ [(k, c, t)]) i (buckets (apply_entry w (k, c, t)) ! i)" if i: "i < n" for i
    using sl [OF i] i s by (cases "?s mod n = i")
      (auto simp: e w nth_list_update intro: slot_ok_push_same slot_ok_push_other)
  then show ?thesis by (simp add: ring_ok_def e w)
qed

lemma ring_ok_replay:
  assumes "1000000 \<le> width" and "0 < n" "n < 2 ^ 64"
    and "\<And>k c t. (k, c, t) \<in> set xs \<Longrightarrow> slice ep width t < 2 ^ 64"
  shows "ring_ok n width ep xs (replay xs (windowed_new n width ep))"
  using assms(4)
proof (induction xs rule: rev_induct)
  case Nil
  show ?case using assms(1) by (simp add: replay_def ring_ok_new)
next
  case (snoc x xs)
  then show ?case by (cases x) (auto simp: replay_def intro!: ring_ok_push assms(2,3), blast)
qed

section \<open>Reading the ring\<close>

lemma min_sum:
  fixes f :: "'i \<Rightarrow> nat"
  shows "min (\<Sum>i\<in>A. min (f i) m) m = min (\<Sum>i\<in>A. f i) m"
proof (cases "finite A")
  case True
  then show ?thesis
  proof (induction A)
    case (insert a A)
    have "min (min x m + y) m = min (x + y) m" "min (x + min y m) m = min (x + y) m" for x y :: nat
      by linarith+
    then show ?case using insert by (metis sum.insert)
  qed simp
qed simp

lemmas capped_sum = min_sum [where m = "2 ^ 64 - 1"]

lemma capped_if: "(if P then capped a else 0) = capped (if P then a else 0)"
  by simp

lemma foldl_totals:
  "foldl (\<lambda>(e, ob) b. (sat_add e (expected b), sat_add ob (observed b))) (e0, o0) bs = (e, ob) \<Longrightarrow>
   unat e = capped (unat e0 + sum_list (map (\<lambda>b. unat (expected b)) bs)) \<and>
   unat ob = capped (unat o0 + sum_list (map (\<lambda>b. unat (observed b)) bs))"
proof (induction bs arbitrary: e0 o0)
  case Nil
  note unat_u64_le [of e0] unat_u64_le [of o0]
  then show ?case using Nil by (simp add: min_absorb1)
next
  case (Cons b bs)
  have "capped (capped (x + y) + z) = capped (x + (y + z))" for x y z by linarith
  with Cons.IH [OF Cons.prems [simplified]] show ?case by (simp add: unat_sat_add)
qed

lemma sum_list_filter_nth:
  "sum_list (map f (filter P bs)) = (\<Sum>i<length bs. if P (bs ! i) then f (bs ! i) else (0::nat))"
proof -
  have "sum_list (map f (filter P bs)) = sum_list (map (\<lambda>b. if P b then f b else 0) bs)"
    by (induction bs) auto
  then show ?thesis by (simp add: sum_list_sum_nth atLeast0LessThan)
qed

lemma mod_window_unique:
  fixes a b n :: nat
  assumes "a mod n = b mod n" and "a \<le> b" and "b < a + n"
  shows "a = b"
proof -
  from assms(1,2) have "n dvd b - a" by (metis mod_eq_dvd_iff_nat)
  then have "b - a = 0 \<or> n \<le> b - a" by (auto dest: dvd_imp_le)
  with assms(2,3) show ?thesis by linarith
qed

lemma slot_total:
  assumes k: "k \<le> n" and cur: "\<And>k c t. (k, c, t) \<in> set xs \<Longrightarrow> sl t \<le> cur"
  shows "(if cur < slot_stamp sl n i xs + k then total kd (\<lambda>t. sl t = slot_stamp sl n i xs \<and> sl t mod n = i) xs else 0) =
    total kd (\<lambda>t. cur < sl t + k \<and> sl t mod n = i) xs"
proof -
  let ?S = "slot_stamp sl n i xs"
  have S: "?S \<le> cur" using cur by (rule slot_stamp_le)
  have le: "sl t \<le> ?S" if "(kd', c, t) \<in> set xs" "sl t mod n = i" for kd' c t
    using slot_stamp_ge [OF that(1), of sl n] that(2) by simp
  have eq: "sl t = ?S" if "(kd', c, t) \<in> set xs" "sl t mod n = i" "cur < sl t + k" for kd' c t
  proof (cases "?S = 0")
    case True
    with le [OF that(1,2)] show ?thesis by simp
  next
    case False
    then have "?S mod n = i" using slot_stamp_mem [of sl n i xs] by auto
    then have m: "sl t mod n = ?S mod n" using that(2) by simp
    have "?S < sl t + n" using S k that(3) by linarith
    with m le [OF that(1,2)] show ?thesis by (rule mod_window_unique)
  qed
  show ?thesis
  proof (cases "cur < ?S + k")
    case True
    have "total kd (\<lambda>t. sl t = ?S \<and> sl t mod n = i) xs = total kd (\<lambda>t. cur < sl t + k \<and> sl t mod n = i) xs"
      using eq True by (intro total_cong) metis
    with True show ?thesis by simp
  next
    case False
    have "total kd (\<lambda>t. cur < sl t + k \<and> sl t mod n = i) xs = 0"
      using le False by (intro total_none) fastforce
    with False show ?thesis by simp
  qed
qed

text \<open>The two totals of a read, for the counts of either kind.\<close>

lemma live_total:
  assumes slots: "\<And>i. i < length bs \<Longrightarrow> slot_ok sl (length bs) xs i (bs ! i)"
    and f: "\<And>i b. slot_ok sl (length bs) xs i b \<Longrightarrow> f b =
      capped (total kd (\<lambda>t. sl t = slot_stamp sl (length bs) i xs \<and> sl t mod length bs = i) xs)"
    and k: "k \<le> length bs" "0 < length bs" and cur: "\<And>k c t. (k, c, t) \<in> set xs \<Longrightarrow> sl t \<le> cur"
    and P: "\<And>b. P b \<longleftrightarrow> cur < unat (stamp b) + k"
  shows "capped (sum_list (map f (filter P bs))) = capped (total kd (\<lambda>t. cur < sl t + k) xs)"
proof -
  let ?n = "length bs"
  have t: "(if P (bs ! i) then f (bs ! i) else 0) = capped (total kd (\<lambda>t. cur < sl t + k \<and> sl t mod ?n = i) xs)"
    if "i < ?n" for i
  proof -
    have st: "unat (stamp (bs ! i)) = slot_stamp sl ?n i xs" using slots [OF that] by (simp add: slot_ok_def)
    show ?thesis
      unfolding P st f [OF slots [OF that]] capped_if by (subst slot_total [OF k(1)]) (auto intro: cur)
  qed
  have "sum_list (map f (filter P bs)) = (\<Sum>i<?n. capped (total kd (\<lambda>t. cur < sl t + k \<and> sl t mod ?n = i) xs))"
    unfolding sum_list_filter_nth using t by (intro sum.cong) auto
  then have "capped (sum_list (map f (filter P bs))) =
      capped (\<Sum>i<?n. total kd (\<lambda>t. cur < sl t + k \<and> sl t mod ?n = i) xs)"
    by (simp only: capped_sum)
  also have "(\<Sum>i<?n. total kd (\<lambda>t. cur < sl t + k \<and> sl t mod ?n = i) xs) = total kd (\<lambda>t. cur < sl t + k) xs"
    using k(2) by (intro total_partition) simp
  finally show ?thesis .
qed

lemma recent_value_of_ring:
  assumes ok: "ring_ok n width ep xs w" and n: "0 < n" "n < 2 ^ 64"
    and now: "slice ep width now < 2 ^ 64"
    and past: "\<And>k c t. (k, c, t) \<in> set xs \<Longrightarrow> slice ep width t \<le> slice ep width now"
  shows "recent_value slices now w =
    (let inside = (\<lambda>t. slice ep width now < slice ep width t + clamp slices 1 n);
         e = capped (total Expected inside xs); ob = capped (total Observed inside xs)
     in if 0 < e then Some (min (real ob / real e) 1) else None)"
proof -
  let ?sl = "slice ep width" and ?cur = "slice ep width now" and ?k = "clamp slices 1 n"
  let ?P = "\<lambda>b. sat_sub (of_nat ?cur) (of_nat ?k - 1) \<le> stamp b \<and> stamp b \<le> of_nat ?cur"
  have w: "length (buckets w) = n" "bucket_width w = width" "epoch w = ep"
    and sl: "\<And>i. i < n \<Longrightarrow> slot_ok ?sl n xs i (buckets w ! i)"
    using ok by (auto simp: ring_ok_def)
  have k: "1 \<le> ?k" "?k \<le> n" using n(1) clamp_bounds [of 1 n slices] by auto
  have ab: "absolute_bucket w now = of_nat ?cur" by (simp add: absolute_bucket_def w slice_def)
  have uc: "unat (of_nat ?cur :: u64) = ?cur" using now by (simp add: unat_of_small)
  have "unat (of_nat ?k :: u64) = ?k" using k n by (intro unat_of_small) simp
  moreover have "of_nat ?k \<noteq> (0 :: u64)" using calculation k by auto
  ultimately have ok1: "unat (of_nat ?k - 1 :: u64) = ?k - 1" by (simp add: unat_dec)
  have le: "unat (stamp (buckets w ! i)) \<le> ?cur" if "i < n" for i
    using sl [OF that] slot_stamp_le [of xs ?sl ?cur n i] past by (auto simp: slot_ok_def)
  have P: "?P b \<longleftrightarrow> ?cur < unat (stamp b) + ?k" if "b \<in> set (buckets w)" for b
  proof -
    have "unat (stamp b) \<le> ?cur" using that le w(1) by (auto simp: in_set_conv_nth)
    then show ?thesis unfolding word_le_nat_alt unat_sat_sub uc ok1 using k(1) by linarith
  qed
  define e where "e = fst (live_totals (sat_sub (of_nat ?cur) (of_nat ?k - 1)) (of_nat ?cur) (buckets w))"
  define ob where "ob = snd (live_totals (sat_sub (of_nat ?cur) (of_nat ?k - 1)) (of_nat ?cur) (buckets w))"
  have fl: "filter ?P (buckets w) = filter (\<lambda>b. ?cur < unat (stamp b) + ?k) (buckets w)"
    using P by (intro filter_cong) auto
  have lt: "live_totals (sat_sub (of_nat ?cur) (of_nat ?k - 1)) (of_nat ?cur) (buckets w) = (e, ob)"
    by (simp add: e_def ob_def)
  from foldl_totals [OF lt [unfolded live_totals_def fl]]
  have sums: "unat e = capped (sum_list (map (\<lambda>b. unat (expected b)) (filter (\<lambda>b. ?cur < unat (stamp b) + ?k) (buckets w))))"
    "unat ob = capped (sum_list (map (\<lambda>b. unat (observed b)) (filter (\<lambda>b. ?cur < unat (stamp b) + ?k) (buckets w))))"
    by (simp_all only: unsigned_0 add_0)
  have e: "unat e = capped (total Expected (\<lambda>t. ?cur < ?sl t + ?k) xs)"
    unfolding sums by (rule live_total) (use w sl k n past in \<open>auto simp: slot_ok_def\<close>)
  have ob: "unat ob = capped (total Observed (\<lambda>t. ?cur < ?sl t + ?k) xs)"
    unfolding sums by (rule live_total) (use w sl k n past in \<open>auto simp: slot_ok_def\<close>)
  have "recent_value slices now w = (if 0 < e then Some (clamp (real (unat ob) / real (unat e)) 0 1) else None)"
    by (simp only: recent_value_def w(1) ab lt Let_def prod.case)
  moreover have "clamp (real a / real b) 0 1 = min (real a / real b) 1" for a b :: nat
  proof -
    have "clamp x 0 1 = min x 1" if "0 \<le> x" for x :: real using that by (auto simp: clamp_def)
    then show ?thesis by simp
  qed
  moreover have "0 < e \<longleftrightarrow> 0 < unat e" by (simp add: word_less_nat_alt)
  ultimately show ?thesis by (simp only: Let_def e [symmetric] ob [symmetric])
qed

section \<open>Properties\<close>

text \<open>C10. The ring answers like the complete log: after any records, in any order, none of them later
  than \<open>now\<close>, \<open>recent_value\<close> is the ratio of the observations to the expectations whose slice lies in
  the window, at most 1, and \<open>None\<close> exactly when no expectation lies in it.\<close>

theorem recent_value_of_log:
  assumes "1000000 \<le> width" and "0 < n" "n < 2 ^ 64" and "slice ep width now < 2 ^ 64"
    and "\<And>k c t. (k, c, t) \<in> set xs \<Longrightarrow> slice ep width t \<le> slice ep width now"
  shows "recent_value slices now (replay xs (windowed_new n width ep)) =
    (let inside = (\<lambda>t. slice ep width now < slice ep width t + clamp slices 1 n);
         e = min (total Expected inside xs) (2 ^ 64 - 1); ob = min (total Observed inside xs) (2 ^ 64 - 1)
     in if 0 < e then Some (min (real ob / real e) 1) else None)"
  using assms by (intro recent_value_of_ring ring_ok_replay) (auto intro: le_less_trans)

theorem recent_value_of_log_witness:
  "recent_value 2 9500000 (replay [(Expected, 4, 1000000), (Observed, 3, 8200000), (Expected, 6, 9000000),
      (Expected, 5, 5100000)] (windowed_new 4 1000000 0)) = Some (1 / 2)"
proof -
  let ?xs = "[(Expected, 4, 1000000), (Observed, 3, 8200000), (Expected, 6, 9000000), (Expected, 5, 5100000)]"
  have "slice 0 1000000 t \<le> slice 0 1000000 9500000" if "(k, c, t) \<in> set ?xs" for k c t
    using that by (auto simp: slice_def)
  then show ?thesis
    using recent_value_of_log [of 1000000 4 0 9500000 ?xs 2]
    by (auto simp: slice_def clamp_def total_def Let_def)
qed

end
