(* ===== verification/Averages.thy ===== *)
theory Averages
  imports Prelude
begin

text \<open>
  Moving averages, \<open>src/statistics/moving/simple.rs\<close> and \<open>exponential.rs\<close>. The trait \<open>SMA\<close> is the locale
  \<open>sma\<close>, whose laws say that an implementation is a window of the last samples; \<open>NoSumSMA\<close> and
  \<open>SingleSumSMA\<close> interpret it. The sample type is a commutative group (exact arithmetic, or wrapping
  machine integers) and \<open>dv x n\<close> stands for \<open>x / D::from(n)\<close>. The exponential average computes with reals.
\<close>

section \<open>The trait\<close>

definition last_n :: "nat \<Rightarrow> 'a list \<Rightarrow> 'a list" where
  "last_n n xs = drop (length xs - n) xs"

lemma length_last_n [simp]: "length (last_n n xs) = min n (length xs)"
  by (simp add: last_n_def)

lemma last_n_append: "last_n n (last_n n ys @ xs) = last_n n (ys @ xs)"
proof (cases "length ys \<le> n")
  case True
  then show ?thesis by (simp add: last_n_def)
next
  case False
  then have "last_n n ys @ xs = drop (length ys - n) (ys @ xs)" by (simp add: last_n_def)
  with False show ?thesis by (simp add: last_n_def add.commute)
qed

lemma last_n_eq_Nil [simp]: "last_n n xs = [] \<longleftrightarrow> n = 0 \<or> xs = []"
  by (cases xs) (auto simp: last_n_def)

locale sma =
  fixes push :: "'t::ab_group_add \<Rightarrow> 's \<Rightarrow> 's"
    and average :: "('t \<Rightarrow> u32 \<Rightarrow> 't) \<Rightarrow> 's \<Rightarrow> 't option"
    and window_size :: "'s \<Rightarrow> nat"
    and len :: "'s \<Rightarrow> nat"
    and clear :: "'s \<Rightarrow> 's"
    and samples :: "'s \<Rightarrow> 't list"
    and ok :: "'s \<Rightarrow> bool"
  assumes push_ok: "ok s \<Longrightarrow> ok (push x s)"
    and push_samples: "ok s \<Longrightarrow> samples (push x s) = last_n (window_size s) (samples s @ [x])"
    and push_size: "window_size (push x s) = window_size s"
    and average_spec: "ok s \<Longrightarrow> average dv s =
      (if samples s = [] then None else Some (dv (sum_list (samples s)) (of_nat (length (samples s)))))"
    and len_spec: "len s = length (samples s)"
    and size_pos: "ok s \<Longrightarrow> 0 < window_size s"
    and window_bound: "ok s \<Longrightarrow> length (samples s) \<le> window_size s"
    and clear_spec: "ok s \<Longrightarrow> ok (clear s) \<and> samples (clear s) = [] \<and> window_size (clear s) = window_size s"
begin

definition is_window_full :: "'s \<Rightarrow> bool" where
  "is_window_full s \<longleftrightarrow> len s = window_size s"

lemma fold_push:
  "ok s \<Longrightarrow> ok (fold push xs s) \<and> window_size (fold push xs s) = window_size s \<and>
     samples (fold push xs s) = last_n (window_size s) (samples s @ xs)"
proof (induction xs arbitrary: s)
  case Nil
  then show ?case using window_bound [of s] by (simp add: last_n_def)
next
  case (Cons x xs)
  have "last_n n (last_n n (ys @ [x]) @ xs) = last_n n (ys @ x # xs)" for n ys
    using last_n_append [of n "ys @ [x]" xs] by simp
  with Cons.IH [of "push x s"] Cons.prems show ?case
    by (simp add: push_ok push_size push_samples)
qed

lemma average_fold_push:
  assumes "ok s" and "samples s = []" and "xs \<noteq> []"
  shows "average dv (fold push xs s) =
    Some (dv (sum_list (last_n (window_size s) xs)) (of_nat (min (window_size s) (length xs))))"
proof -
  note f = fold_push [OF assms(1), of xs]
  have "last_n (window_size s) xs \<noteq> []"
    using assms(3) size_pos [OF assms(1)] by simp
  with f assms(2) show ?thesis by (simp add: average_spec)
qed

lemma len_fold_push: "ok s \<Longrightarrow> samples s = [] \<Longrightarrow> len (fold push xs s) = min (window_size s) (length xs)"
  using fold_push [of s xs] by (simp add: len_spec)

lemma average_none_iff: "ok s \<Longrightarrow> average dv s = None \<longleftrightarrow> len s = 0"
  by (simp add: average_spec len_spec)

end

section \<open>\<open>NoSumSMA\<close>\<close>

record 't no_sum =
  ns_window :: "'t list"
  ns_window_size :: nat

definition no_sum_push :: "'t \<Rightarrow> 't no_sum \<Rightarrow> 't no_sum" where
  "no_sum_push sample s =
     (let s' = (if length (ns_window s) = ns_window_size s then s\<lparr>ns_window := tl (ns_window s)\<rparr> else s)
      in s'\<lparr>ns_window := ns_window s' @ [sample]\<rparr>)"

definition no_sum_average :: "('t::ab_group_add \<Rightarrow> u32 \<Rightarrow> 't) \<Rightarrow> 't no_sum \<Rightarrow> 't option" where
  "no_sum_average dv s =
     (if ns_window s \<noteq> [] then Some (dv (sum_list (ns_window s)) (of_nat (length (ns_window s)))) else None)"

definition no_sum_len :: "'t no_sum \<Rightarrow> nat" where
  "no_sum_len s = length (ns_window s)"

definition no_sum_clear :: "'t no_sum \<Rightarrow> 't no_sum" where
  "no_sum_clear s = s\<lparr>ns_window := []\<rparr>"

text \<open>\<open>new\<close> asserts that the window holds more than one sample; \<open>None\<close> is the panic.\<close>

definition no_sum_new :: "nat \<Rightarrow> 't no_sum option" where
  "no_sum_new n = (if 1 < n then Some \<lparr>ns_window = [], ns_window_size = n\<rparr> else None)"

definition no_sum_new_with_samples :: "nat \<Rightarrow> 't list \<Rightarrow> 't no_sum option" where
  "no_sum_new_with_samples n xs = map_option (fold no_sum_push xs) (no_sum_new n)"

definition no_sum_ok :: "'t no_sum \<Rightarrow> bool" where
  "no_sum_ok s \<longleftrightarrow> 0 < ns_window_size s \<and> length (ns_window s) \<le> ns_window_size s"

lemma last_n_full: "length w \<le> n \<Longrightarrow> 0 < n \<Longrightarrow>
    last_n n (w @ [x]) = (if length w = n then tl w else w) @ [x]"
  by (auto simp: last_n_def drop_Suc)

interpretation no_sum: sma no_sum_push no_sum_average ns_window_size no_sum_len no_sum_clear ns_window no_sum_ok
  by unfold_locales
    (auto simp: no_sum_push_def no_sum_average_def no_sum_len_def no_sum_clear_def no_sum_ok_def last_n_full Let_def)

section \<open>\<open>SingleSumSMA\<close>\<close>

record 't single_sum =
  ss_window :: "'t list"
  ss_window_size :: nat
  ss_sum :: 't

definition single_sum_push :: "'t::ab_group_add \<Rightarrow> 't single_sum \<Rightarrow> 't single_sum" where
  "single_sum_push sample s =
     (let s1 = s\<lparr>ss_sum := ss_sum s + sample\<rparr>;
          s2 = (if length (ss_window s1) = ss_window_size s1
                then (case ss_window s1 of
                        [] \<Rightarrow> s1
                      | shifted # rest \<Rightarrow> s1\<lparr>ss_window := rest, ss_sum := ss_sum s1 - shifted\<rparr>)
                else s1)
      in s2\<lparr>ss_window := ss_window s2 @ [sample]\<rparr>)"

definition single_sum_average :: "('t \<Rightarrow> u32 \<Rightarrow> 't) \<Rightarrow> 't single_sum \<Rightarrow> 't option" where
  "single_sum_average dv s =
     (if ss_window s \<noteq> [] then Some (dv (ss_sum s) (of_nat (length (ss_window s)))) else None)"

definition single_sum_len :: "'t single_sum \<Rightarrow> nat" where
  "single_sum_len s = length (ss_window s)"

definition single_sum_clear :: "'t::ab_group_add single_sum \<Rightarrow> 't single_sum" where
  "single_sum_clear s = s\<lparr>ss_sum := ss_sum s - ss_sum s, ss_window := []\<rparr>"

definition single_sum_new :: "nat \<Rightarrow> 't::ab_group_add single_sum option" where
  "single_sum_new n = (if 1 < n then Some \<lparr>ss_window = [], ss_window_size = n, ss_sum = 0\<rparr> else None)"

definition single_sum_new_with_samples :: "nat \<Rightarrow> 't::ab_group_add list \<Rightarrow> 't single_sum option" where
  "single_sum_new_with_samples n xs = map_option (fold single_sum_push xs) (single_sum_new n)"

text \<open>The running sum is the sum of the window.\<close>

definition single_sum_ok :: "'t::ab_group_add single_sum \<Rightarrow> bool" where
  "single_sum_ok s \<longleftrightarrow> 0 < ss_window_size s \<and> length (ss_window s) \<le> ss_window_size s \<and>
     ss_sum s = sum_list (ss_window s)"

interpretation single_sum: sma single_sum_push single_sum_average ss_window_size single_sum_len
  single_sum_clear ss_window single_sum_ok
  by unfold_locales
    (auto simp: single_sum_push_def single_sum_average_def single_sum_len_def single_sum_clear_def
      single_sum_ok_def last_n_full Let_def algebra_simps split: list.splits)

section \<open>Arithmetic that can panic\<close>

text \<open>
  The operators of the sample type may panic: those of \<open>Duration\<close> on overflow, those of the integers in
  builds with overflow checks. \<open>add\<close> and \<open>sub\<close> return \<open>None\<close> then. \<open>SingleSumSMA\<close> adds the new sample before it
  takes the shifted one off, while \<open>NoSumSMA\<close> adds only what is in the window.
\<close>

definition single_sum_push_checked ::
  "('t \<Rightarrow> 't \<Rightarrow> 't option) \<Rightarrow> ('t \<Rightarrow> 't \<Rightarrow> 't option) \<Rightarrow> 't \<Rightarrow> 't single_sum \<Rightarrow> 't single_sum option" where
  "single_sum_push_checked add sub sample s =
     (case add (ss_sum s) sample of
        None \<Rightarrow> None
      | Some tot \<Rightarrow>
          (let s1 = s\<lparr>ss_sum := tot\<rparr> in
           case (if length (ss_window s1) = ss_window_size s1 then ss_window s1 else []) of
             [] \<Rightarrow> Some (s1\<lparr>ss_window := ss_window s1 @ [sample]\<rparr>)
           | shifted # rest \<Rightarrow>
               map_option (\<lambda>tot'. s1\<lparr>ss_sum := tot', ss_window := rest @ [sample]\<rparr>) (sub (ss_sum s1) shifted)))"

definition no_sum_sum_checked :: "('t \<Rightarrow> 't \<Rightarrow> 't option) \<Rightarrow> 't \<Rightarrow> 't no_sum \<Rightarrow> 't option" where
  "no_sum_sum_checked add zero s =
     foldl (\<lambda>acc x. case acc of None \<Rightarrow> None | Some a \<Rightarrow> add a x) (Some zero) (ns_window s)"

definition nat_checked_add :: "nat \<Rightarrow> nat \<Rightarrow> nat \<Rightarrow> nat option" where
  "nat_checked_add m x y = (if x + y \<le> m then Some (x + y) else None)"

definition nat_checked_sub :: "nat \<Rightarrow> nat \<Rightarrow> nat option" where
  "nat_checked_sub x y = (if y \<le> x then Some (x - y) else None)"

text \<open>Where nothing panics the checked push is the push.\<close>

lemma single_sum_push_checked_agrees:
  assumes "\<And>x y z. add x y = Some z \<Longrightarrow> z = x + y" and "\<And>x y z. sub x y = Some z \<Longrightarrow> z = x - y"
    and "single_sum_push_checked add sub sample s = Some s'"
  shows "s' = single_sum_push sample s"
  using assms(3) unfolding single_sum_push_checked_def single_sum_push_def
  by (auto simp: Let_def dest!: assms(1,2) split: option.splits list.splits if_splits)

text \<open>Samples of a type with maximum \<open>m\<close>: the push panics exactly when the old window and the new sample
  together exceed \<open>m\<close>, also when the new window does not.\<close>

lemma single_sum_push_checked_iff:
  assumes "ss_sum s = sum_list (ss_window s)"
  shows "single_sum_push_checked (nat_checked_add m) nat_checked_sub x s \<noteq> None \<longleftrightarrow>
    sum_list (ss_window s) + x \<le> m"
  using assms
  by (cases "ss_window s") (auto simp: single_sum_push_checked_def nat_checked_add_def nat_checked_sub_def Let_def)

lemma no_sum_sum_checked_iff:
  "no_sum_sum_checked (nat_checked_add m) 0 s =
     (if sum_list (ns_window s) \<le> m then Some (sum_list (ns_window s)) else None)"
proof -
  have "foldl (\<lambda>acc x. case acc of None \<Rightarrow> None | Some a \<Rightarrow> nat_checked_add m a x) (Some z) xs =
      (if z + sum_list xs \<le> m then Some (z + sum_list xs) else None)" if "z \<le> m" for z xs
  proof -
    have none: "foldl (\<lambda>acc x. case acc of None \<Rightarrow> None | Some a \<Rightarrow> nat_checked_add m a x) None ys = None" for ys
      by (induction ys) simp_all
    show ?thesis using that
      by (induction xs arbitrary: z) (auto simp: nat_checked_add_def none add.assoc)
  qed
  then show ?thesis by (simp add: no_sum_sum_checked_def)
qed

lemma single_sum_transient_overflow:
  "no_sum_sum_checked (nat_checked_add 255) 0 \<lparr>ns_window = [100, 100], ns_window_size = 2\<rparr> = Some 200 \<and>
   single_sum_push_checked (nat_checked_add 255) nat_checked_sub 100
     \<lparr>ss_window = [100, 100], ss_window_size = 2, ss_sum = 200\<rparr> = None"
  by (simp add: no_sum_sum_checked_def single_sum_push_checked_def nat_checked_add_def)

section \<open>The exponential average\<close>

record ema =
  ema_count :: usize
  ema_average :: real

definition ema_default :: ema where
  "ema_default = \<lparr>ema_count = 0, ema_average = 0\<rparr>"

definition ema_update :: "usize \<Rightarrow> real \<Rightarrow> ema \<Rightarrow> ema" where
  "ema_update factor v e =
     (let e' = e\<lparr>ema_count := ema_count e + 1\<rparr>
      in e'\<lparr>ema_average := ema_average e' + (v - ema_average e') / real (unat (min (ema_count e') factor))\<rparr>)"

lemma ema_update_simps:
  "ema_count (ema_update f v e) = ema_count e + 1"
  "ema_average (ema_update f v e) =
     ema_average e + (v - ema_average e) / real (unat (min (ema_count e + 1) f))"
  by (simp_all add: ema_update_def Let_def)

lemma fold_snoc: "fold f (xs @ [x]) s = f x (fold f xs s)"
  by simp

lemma ema_count_fold:
  "length vs < 2 ^ 64 \<Longrightarrow> unat (ema_count (fold (ema_update f) vs ema_default)) = length vs"
proof (induction vs rule: rev_induct)
  case (snoc v vs)
  then have u: "unat (ema_count (fold (ema_update f) vs ema_default)) = length vs" by simp
  with snoc.prems have "ema_count (fold (ema_update f) vs ema_default) \<noteq> - 1"
    using unat_max_word [where ?'a = 64] by auto
  with u show ?case unfolding fold_snoc ema_update_simps by (simp add: unat_inc)
qed (simp add: ema_default_def)

text \<open>One update, with the divisor as a number.\<close>

lemma ema_step:
  assumes "length vs + 1 < 2 ^ 64"
  shows "ema_average (fold (ema_update f) (vs @ [v]) ema_default) =
    (let a = ema_average (fold (ema_update f) vs ema_default)
     in a + (v - a) / real (min (length vs + 1) (unat f)))"
proof -
  let ?e = "fold (ema_update f) vs ema_default"
  have u: "unat (ema_count ?e) = length vs" using assms by (simp add: ema_count_fold)
  with assms have "ema_count ?e \<noteq> - 1" using unat_max_word [where ?'a = 64] by auto
  then have "unat (min (ema_count ?e + 1) f) = min (length vs + 1) (unat f)"
    by (simp add: unat_min unat_inc u)
  then show ?thesis unfolding fold_snoc ema_update_simps Let_def by simp
qed

lemma ema_mean:
  assumes "length vs < 2 ^ 64" and "length vs \<le> unat f" and "vs \<noteq> []"
  shows "ema_average (fold (ema_update f) vs ema_default) = sum_list vs / real (length vs)"
  using assms
proof (induction vs rule: rev_induct)
  case (snoc v vs)
  let ?a = "ema_average (fold (ema_update f) vs ema_default)" and ?n = "length vs"
  have m: "min (?n + 1) (unat f) = ?n + 1" using snoc.prems by simp
  have "?a * real ?n = sum_list vs"
    using snoc by (cases "vs = []") auto
  moreover have "a + (v - a) / real (k + 1) = (a * real k + v) / real (k + 1)" for a :: real and k
    by (simp add: field_simps)
  ultimately show ?case using snoc.prems by (subst ema_step) (simp_all only: Let_def m sum_list.append length_append
      list.size sum_list.Cons sum_list.Nil add_0_right add_0 Suc_eq_plus1 mult.commute)
qed simp

lemma ema_hull:
  assumes "length vs < 2 ^ 64" and "0 < unat f" and "vs \<noteq> []" and "\<And>v. v \<in> set vs \<Longrightarrow> lo \<le> v \<and> v \<le> hi"
  shows "lo \<le> ema_average (fold (ema_update f) vs ema_default) \<and>
    ema_average (fold (ema_update f) vs ema_default) \<le> hi"
  using assms
proof (induction vs rule: rev_induct)
  case (snoc v vs)
  let ?a = "ema_average (fold (ema_update f) vs ema_default)" and ?d = "real (min (length vs + 1) (unat f))"
  have e: "ema_average (fold (ema_update f) (vs @ [v]) ema_default) = ?a + (v - ?a) / ?d"
    using snoc.prems by (subst ema_step) (simp_all add: Let_def)
  have v: "lo \<le> v" "v \<le> hi" using snoc.prems(4) [of v] by auto
  show ?case
  proof (cases "vs = []")
    case True
    with snoc.prems(2) have "?d = 1" by simp
    with v show ?thesis unfolding e by simp
  next
    case False
    with snoc have a: "lo \<le> ?a" "?a \<le> hi" by auto
    have d: "1 \<le> ?d" using snoc.prems(2) by simp
    have "?a + (v - ?a) / ?d = (1 - 1 / ?d) * ?a + (1 / ?d) * v" by (simp add: algebra_simps diff_divide_distrib)
    moreover have "0 \<le> 1 / ?d" "1 / ?d \<le> 1" using d by auto
    ultimately show ?thesis unfolding e
      using a v convex_bound_le [of ?a hi v "1 - 1 / ?d" "1 / ?d"] convex_bound_le [of "- ?a" "- lo" "- v" "1 - 1 / ?d" "1 / ?d"]
      by (simp add: algebra_simps)
  qed
qed simp

section \<open>Properties\<close>

lemma no_sum_new_ok: "no_sum_new n = Some s \<Longrightarrow> no_sum_ok s \<and> ns_window s = [] \<and> ns_window_size s = n \<and> 1 < n"
  by (auto simp: no_sum_new_def no_sum_ok_def split: if_splits)

lemma single_sum_new_ok:
  "single_sum_new n = Some s \<Longrightarrow> single_sum_ok s \<and> ss_window s = [] \<and> ss_window_size s = n \<and> 1 < n"
  by (auto simp: single_sum_new_def single_sum_ok_def split: if_splits)


text \<open>C12. The exponential average of at most \<open>FACTOR\<close> values is their arithmetic mean, and it always stays
  between the smallest and the largest value seen.\<close>

theorem ema_mean_then_hull:
  assumes "length vs < 2 ^ 64" and "0 < unat f" and "vs \<noteq> []"
  shows "Min (set vs) \<le> ema_average (fold (ema_update f) vs ema_default) \<and>
    ema_average (fold (ema_update f) vs ema_default) \<le> Max (set vs) \<and>
    (length vs \<le> unat f \<longrightarrow>
      ema_average (fold (ema_update f) vs ema_default) = sum_list vs / real (length vs))"
  using ema_hull [OF assms, of "Min (set vs)" "Max (set vs)"] ema_mean [OF assms(1) _ assms(3)]
  by simp

theorem ema_mean_then_hull_witness:
  "ema_average (fold (ema_update 3) [1, 2, 6] ema_default) = 3"
  using ema_mean_then_hull [of "[1, 2, 6]" 3] by simp

end
