(* ===== verification/Weighted.thy ===== *)
theory Weighted
  imports Prelude "HOL-Library.Multiset"
begin

text \<open>
  Weighted collections, \<open>src/statistics/weighted.rs\<close>. Weights and random numbers are reals; the random
  number generator is a parameter: \<open>pick_index\<close> receives the number \<open>random_range(0.0..total_weight)\<close>
  returned, \<open>into_shuffled\<close> draws its numbers from a generator \<open>rng\<close> passing its state along.
\<close>

section \<open>The collection\<close>

record 'a weighted =
  items :: "('a \<times> real) list"
  total_weight :: real

definition weighted_from :: "('a \<times> real) list \<Rightarrow> 'a weighted" where
  "weighted_from xs = \<lparr>items = xs, total_weight = sum_list (map (\<lambda>(_, w). max w 0) xs)\<rparr>"

definition probability_of :: "real \<Rightarrow> 'a weighted \<Rightarrow> real" where
  "probability_of w wc =
     (if 0 < total_weight wc \<and> 0 < w then w / total_weight wc else 0)"

section \<open>Picking\<close>

fun pick_loop :: "real \<Rightarrow> real \<Rightarrow> nat \<Rightarrow> ('a \<times> real) list \<Rightarrow> nat option" where
  "pick_loop r cumulative i [] = None"
| "pick_loop r cumulative i ((_, weight) # xs) =
     (let cumulative' = cumulative + max weight 0 in
      if r < cumulative' then Some i else pick_loop r cumulative' (i + 1) xs)"

definition rposition :: "('b \<Rightarrow> bool) \<Rightarrow> 'b list \<Rightarrow> nat option" where
  "rposition P xs = (case filter (\<lambda>i. P (xs ! i)) (rev [0..<length xs]) of [] \<Rightarrow> None | i # _ \<Rightarrow> Some i)"

definition pick_index :: "real \<Rightarrow> 'a weighted \<Rightarrow> nat option" where
  "pick_index r wc =
     (if total_weight wc \<le> 0 then None
      else if length (items wc) = 1 then Some 0
      else case pick_loop r 0 0 (items wc) of
             Some i \<Rightarrow> Some i
           | None \<Rightarrow> rposition (\<lambda>(_, weight). 0 < weight) (items wc))"

definition pick_ref :: "real \<Rightarrow> 'a weighted \<Rightarrow> 'a option" where
  "pick_ref r wc = map_option (\<lambda>i. fst (items wc ! i)) (pick_index r wc)"

section \<open>Shuffling\<close>

fun assign_keys :: "('s \<Rightarrow> real \<times> 's) \<Rightarrow> 's \<Rightarrow> ('a \<times> real) list \<Rightarrow> ('a \<times> real) list" where
  "assign_keys rng s [] = []"
| "assign_keys rng s ((x, weight) # xs) =
     (if 0 < weight
      then (let (u, s') = rng s in (x, u powr (1 / weight)) # assign_keys rng s' xs)
      else (x, 0) # assign_keys rng s xs)"

definition into_shuffled :: "('s \<Rightarrow> real \<times> 's) \<Rightarrow> 's \<Rightarrow> 'a weighted \<Rightarrow> 'a list" where
  "into_shuffled rng s wc = map fst (sort_key (\<lambda>(_, k). - k) (assign_keys rng s (items wc)))"

section \<open>Lemmas\<close>

text \<open>The positive weight in front of an index: the interval of an index starts there.\<close>

definition ahead :: "('a \<times> real) list \<Rightarrow> nat \<Rightarrow> real" where
  "ahead xs i = sum_list (map (\<lambda>(_, w). max w 0) (take i xs))"

lemma ahead_0 [simp]: "ahead xs 0 = 0"
  by (simp add: ahead_def)

lemma ahead_Suc_Cons [simp]: "ahead ((x, w) # xs) (Suc i) = max w 0 + ahead xs i"
  by (simp add: ahead_def)

lemma ahead_Suc: "i < length xs \<Longrightarrow> ahead xs (Suc i) = ahead xs i + max (snd (xs ! i)) 0"
  by (simp add: ahead_def take_Suc_conv_app_nth case_prod_beta)

lemma ahead_nonneg: "0 \<le> ahead xs i"
  unfolding ahead_def by (rule sum_list_nonneg) auto

lemma total_weight_ahead: "total_weight (weighted_from xs) = ahead xs (length xs)"
  by (simp add: weighted_from_def ahead_def)

lemma pick_loop_iff:
  assumes "c \<le> r"
  shows "pick_loop r c k xs = Some j \<longleftrightarrow>
    (\<exists>i<length xs. j = k + i \<and> c + ahead xs i \<le> r \<and> r < c + ahead xs (Suc i))"
  using assms
proof (induction xs arbitrary: c k)
  case (Cons x xs)
  obtain y w where x: "x = (y, w)" by (cases x)
  have n: "0 \<le> ahead xs i" for i by (rule ahead_nonneg)
  show ?case
  proof (cases "r < c + max w 0")
    case True
    have "i = 0" if "c + ahead (x # xs) i \<le> r" for i
      using that True n [of "i - 1"] by (cases i) (auto simp: x)
    moreover have "pick_loop r c k (x # xs) = Some k" using True by (simp add: x)
    moreover have "ahead (x # xs) (Suc 0) = max w 0" unfolding x ahead_Suc_Cons by simp
    moreover have "ahead (x # xs) 0 = 0" by simp
    ultimately show ?thesis using True Cons.prems
      by (metis add.right_neutral length_Cons option.inject zero_less_Suc)
  next
    case False
    then have "pick_loop r c k (x # xs) = Some j \<longleftrightarrow>
      (\<exists>i<length xs. j = k + 1 + i \<and> c + max w 0 + ahead xs i \<le> r \<and> r < c + max w 0 + ahead xs (Suc i))"
      using Cons.IH [of "c + max w 0" "k + 1"] by (simp add: x)
    also have "\<dots> \<longleftrightarrow> (\<exists>i<length (x # xs). j = k + i \<and> c + ahead (x # xs) i \<le> r \<and> r < c + ahead (x # xs) (Suc i))"
    proof
      assume "\<exists>i<length xs. j = k + 1 + i \<and> c + max w 0 + ahead xs i \<le> r \<and> r < c + max w 0 + ahead xs (Suc i)"
      then obtain i where "i < length xs" "j = k + 1 + i" "c + max w 0 + ahead xs i \<le> r"
        "r < c + max w 0 + ahead xs (Suc i)" by blast
      then show "\<exists>i<length (x # xs). j = k + i \<and> c + ahead (x # xs) i \<le> r \<and> r < c + ahead (x # xs) (Suc i)"
        by (intro exI [of _ "Suc i"]) (auto simp: x)
    next
      assume "\<exists>i<length (x # xs). j = k + i \<and> c + ahead (x # xs) i \<le> r \<and> r < c + ahead (x # xs) (Suc i)"
      then obtain i where i: "i < length (x # xs)" "j = k + i" "c + ahead (x # xs) i \<le> r"
        "r < c + ahead (x # xs) (Suc i)" by blast
      with False obtain m where "i = Suc m" by (cases i) (auto simp: x)
      with i show "\<exists>i<length xs. j = k + 1 + i \<and> c + max w 0 + ahead xs i \<le> r \<and> r < c + max w 0 + ahead xs (Suc i)"
        by (intro exI [of _ m]) (auto simp: x)
    qed
    finally show ?thesis .
  qed
qed simp

text \<open>Some interval holds every number below the total.\<close>

lemma ahead_cover:
  assumes "0 \<le> r" and "r < ahead xs (length xs)"
  shows "\<exists>i<length xs. ahead xs i \<le> r \<and> r < ahead xs (Suc i)"
proof -
  let ?k = "LEAST k. r < ahead xs k"
  have k: "r < ahead xs ?k" using assms(2) by (rule LeastI)
  have "?k \<le> length xs" using assms(2) by (rule Least_le)
  moreover obtain i where i: "?k = Suc i" using k assms(1) by (cases ?k) auto
  have "\<not> r < ahead xs i" using not_less_Least [of i "\<lambda>k. r < ahead xs k"] i by simp
  ultimately show ?thesis using k i by (intro exI [of _ i]) auto
qed

lemma pick_index_iff:
  assumes "0 \<le> r" and "r < total_weight (weighted_from xs)"
  shows "pick_index r (weighted_from xs) = Some j \<longleftrightarrow>
    j < length xs \<and> ahead xs j \<le> r \<and> r < ahead xs (Suc j)"
proof -
  let ?wc = "weighted_from xs"
  have tot: "r < ahead xs (length xs)" "0 < total_weight ?wc" "items ?wc = xs"
    using assms by (simp add: total_weight_ahead, linarith, simp add: weighted_from_def)
  obtain i where i: "i < length xs" "ahead xs i \<le> r" "r < ahead xs (Suc i)"
    using ahead_cover [OF assms(1) tot(1)] by blast
  show ?thesis
  proof (cases "length xs = 1")
    case True
    have "pick_index r ?wc = Some 0" unfolding pick_index_def using True tot by auto
    moreover have "i = 0" using True i by simp
    moreover have "j < length xs \<longleftrightarrow> j = 0" using True by auto
    ultimately show ?thesis using i by auto
  next
    case False
    have "pick_loop r 0 0 xs = Some i"
      using i by (simp add: pick_loop_iff [OF assms(1)])
    then have "pick_index r ?wc = pick_loop r 0 0 xs" unfolding pick_index_def using False tot by auto
    then show ?thesis by (auto simp: pick_loop_iff [OF assms(1)])
  qed
qed

lemma assign_keys_fst: "map fst (assign_keys rng s xs) = map fst xs"
  by (induction rng s xs rule: assign_keys.induct) (auto split: prod.splits)

lemma assign_keys_filter:
  assumes "\<And>s. 0 < fst (rng s)"
  shows "map fst (filter (\<lambda>(_, k). k = 0) (assign_keys rng s xs)) = map fst (filter (\<lambda>(_, w). w \<le> 0) xs) \<and>
    map fst (filter (\<lambda>(_, k). k \<noteq> 0) (assign_keys rng s xs)) = map fst (filter (\<lambda>(_, w). 0 < w) xs) \<and>
    (\<forall>(_, k) \<in> set (assign_keys rng s xs). 0 \<le> k)"
  using assms
proof (induction rng s xs rule: assign_keys.induct)
  case (2 rng s x w xs)
  obtain u s' where u: "rng s = (u, s')" by (cases "rng s")
  with "2.prems" [of s] have "0 < u" by simp
  with 2 u show ?case by (cases "0 < w") auto
qed auto

text \<open>A stable sort by descending keys that are not negative leaves the zero keys last, in order.\<close>

lemma sort_zeros_last:
  fixes ks :: "('a \<times> real) list"
  assumes "\<forall>(_, k) \<in> set ks. 0 \<le> k"
  shows "sort_key (\<lambda>(_, k). - k) ks =
    sort_key (\<lambda>(_, k). - k) (filter (\<lambda>(_, k). k \<noteq> 0) ks) @ filter (\<lambda>(_, k). k = 0) ks"
proof (rule properties_for_sort_key)
  let ?f = "\<lambda>(_ :: 'a, k :: real). - k"
  show "mset (sort_key ?f (filter (\<lambda>(_, k). k \<noteq> 0) ks) @ filter (\<lambda>(_, k). k = 0) ks) = mset ks"
    using multiset_partition [of "mset ks" "\<lambda>(_, k). k \<noteq> 0"] by (simp add: case_prod_unfold)
next
  let ?f = "\<lambda>(_ :: 'a, k :: real). - k"
  fix x assume "x \<in> set (sort_key ?f (filter (\<lambda>(_, k). k \<noteq> 0) ks) @ filter (\<lambda>(_, k). k = 0) ks)"
  have "filter (\<lambda>y. ?f y = ?f x) (sort_key ?f (filter (\<lambda>(_, k). k \<noteq> 0) ks) @ filter (\<lambda>(_, k). k = 0) ks) =
      filter (\<lambda>y. ?f y = ?f x) (filter (\<lambda>(_, k). k \<noteq> 0) ks) @ filter (\<lambda>y. ?f y = ?f x) (filter (\<lambda>(_, k). k = 0) ks)"
    by (simp only: filter_append sort_key_stable)
  also have "\<dots> = filter (\<lambda>y. ?f y = ?f x) ks"
  proof (cases "snd x = 0")
    case True
    then show ?thesis by (auto simp: case_prod_unfold filter_empty_conv intro!: filter_cong)
  next
    case False
    then show ?thesis by (auto simp: case_prod_unfold filter_empty_conv intro!: filter_cong)
  qed
  finally show "filter (\<lambda>y. ?f x = ?f y) (sort_key ?f (filter (\<lambda>(_, k). k \<noteq> 0) ks) @ filter (\<lambda>(_, k). k = 0) ks) =
      filter (\<lambda>y. ?f x = ?f y) ks"
    by (simp only: eq_commute [of "?f x"])
next
  let ?f = "\<lambda>(_ :: 'a, k :: real). - k"
  show "sorted (map ?f (sort_key ?f (filter (\<lambda>(_, k). k \<noteq> 0) ks) @ filter (\<lambda>(_, k). k = 0) ks))"
  proof -
    have "sorted (map ?f (filter (\<lambda>(_, k). k = 0) zs))" for zs by (induction zs) auto
    then show ?thesis using assms by (auto simp: sorted_append)
  qed
qed

section \<open>Properties\<close>

text \<open>C13. A pick always lands on an entry of positive weight, each number of the range lands on exactly
  one, and the numbers that land on entry \<open>j\<close> are an interval whose length is the share
  \<open>probability_of\<close> promises (times the total): the floating-point fallback is dead in exact arithmetic.\<close>

theorem pick_index_by_weight:
  assumes "0 \<le> r" and "r < total_weight (weighted_from xs)"
  shows "(\<exists>!j. pick_index r (weighted_from xs) = Some j) \<and>
    (pick_index r (weighted_from xs) = Some j \<longrightarrow> j < length xs \<and> 0 < snd (xs ! j)) \<and>
    (j < length xs \<longrightarrow>
      (pick_index r (weighted_from xs) = Some j \<longleftrightarrow>
        r \<in> {ahead xs j ..<
             ahead xs j + probability_of (snd (xs ! j)) (weighted_from xs) * total_weight (weighted_from xs)}))"
proof (intro conjI)
  obtain i where "i < length xs" "ahead xs i \<le> r" "r < ahead xs (Suc i)"
    using ahead_cover [of r xs] assms by (auto simp: total_weight_ahead)
  then have "pick_index r (weighted_from xs) = Some i" by (simp add: pick_index_iff [OF assms])
  then show "\<exists>!j. pick_index r (weighted_from xs) = Some j" by auto
  have "0 < snd (xs ! j)" if "j < length xs" "ahead xs j \<le> r" "r < ahead xs (Suc j)"
    using that by (auto simp: ahead_Suc max_def split: if_splits)
  then show "pick_index r (weighted_from xs) = Some j \<longrightarrow> j < length xs \<and> 0 < snd (xs ! j)"
    by (auto simp: pick_index_iff [OF assms])
  have "0 < total_weight (weighted_from xs)" using assms by linarith
  then have "probability_of w (weighted_from xs) * total_weight (weighted_from xs) = max w 0" for w
    by (auto simp: probability_of_def)
  then show "j < length xs \<longrightarrow> (pick_index r (weighted_from xs) = Some j \<longleftrightarrow>
      r \<in> {ahead xs j ..< ahead xs j + probability_of (snd (xs ! j)) (weighted_from xs) * total_weight (weighted_from xs)})"
    by (auto simp: pick_index_iff [OF assms] ahead_Suc)
qed

theorem pick_index_by_weight_witness:
  "pick_index 4 (weighted_from [(''a'', 3), (''b'', - 1), (''c'', 5)]) = Some 2"
  using pick_index_by_weight [of 4 "[(''a'', 3), (''b'', - 1), (''c'', 5)]" 2]
  by (simp add: weighted_from_def probability_of_def ahead_def)



end
