(* ===== verification/Addr.thy ===== *)
theory Addr
  imports Prelude
begin

text \<open>
  Address classification, \<open>src/network_types/addr.rs\<close>. Addresses are 32 and 128 bit words; the predicates
  of \<open>std::net\<close> are the address blocks their documentation names. A multiaddress is the list of its
  protocols.
\<close>

type_synonym ipv6 = "128 word"

datatype ip_addr = V4 u32 | V6 ipv6

definition in_block :: "'a::len word \<Rightarrow> nat \<Rightarrow> 'a word \<Rightarrow> bool" where
  "in_block base host_bits ip \<longleftrightarrow> drop_bit host_bits ip = drop_bit host_bits base"

definition ipv4 :: "nat \<Rightarrow> nat \<Rightarrow> nat \<Rightarrow> nat \<Rightarrow> u32" where
  "ipv4 a b c d = of_nat (((a * 256 + b) * 256 + c) * 256 + d)"

definition is_private :: "u32 \<Rightarrow> bool" where
  "is_private ip \<longleftrightarrow> in_block (ipv4 10 0 0 0) 24 ip \<or> in_block (ipv4 172 16 0 0) 20 ip \<or>
     in_block (ipv4 192 168 0 0) 16 ip"

definition is_loopback4 :: "u32 \<Rightarrow> bool" where
  "is_loopback4 ip \<longleftrightarrow> in_block (ipv4 127 0 0 0) 24 ip"

definition is_link_local :: "u32 \<Rightarrow> bool" where
  "is_link_local ip \<longleftrightarrow> in_block (ipv4 169 254 0 0) 16 ip"

definition is_unicast_link_local :: "ipv6 \<Rightarrow> bool" where
  "is_unicast_link_local ip \<longleftrightarrow> in_block (push_bit 112 0xfe80) 118 ip"

definition is_unique_local :: "ipv6 \<Rightarrow> bool" where
  "is_unique_local ip \<longleftrightarrow> in_block (push_bit 112 0xfc00) 121 ip"

fun is_public :: "ip_addr \<Rightarrow> bool" where
  "is_public (V4 ip) \<longleftrightarrow> ip \<noteq> 0 \<and> \<not> is_private ip \<and> \<not> is_loopback4 ip \<and> \<not> is_link_local ip"
| "is_public (V6 ip) \<longleftrightarrow> ip \<noteq> 0 \<and> ip \<noteq> 1 \<and> \<not> is_unicast_link_local ip \<and> \<not> is_unique_local ip"

datatype protocol = Ip4 u32 | Ip6 ipv6 | OtherProtocol

definition is_public_address :: "protocol list \<Rightarrow> bool" where
  "is_public_address addr =
     list_all (\<lambda>p. case p of Ip4 ip \<Rightarrow> is_public (V4 ip) | Ip6 ip \<Rightarrow> is_public (V6 ip) | OtherProtocol \<Rightarrow> True) addr"

section \<open>Blocks are ranges\<close>

lemma div_eq_range: "0 < m \<Longrightarrow> u div m = q \<longleftrightarrow> q * m \<le> u \<and> u < (q + 1) * m" for m :: nat
  by (metis Suc_eq_plus1 div_nat_eqI dividend_less_div_times mult.commute mult_Suc times_div_less_eq_dividend)

lemma in_block_range:
  fixes ip :: "'a::len word"
  shows "in_block base n ip \<longleftrightarrow>
    unat base div 2 ^ n * 2 ^ n \<le> unat ip \<and> unat ip < (unat base div 2 ^ n + 1) * 2 ^ n"
proof -
  have "in_block base n ip \<longleftrightarrow> unat ip div 2 ^ n = unat base div 2 ^ n"
    by (simp only: in_block_def word_unat_eq_iff unat_drop_bit_eq) (simp add: drop_bit_eq_div)
  then show ?thesis by (simp only: div_eq_range zero_less_power zero_less_numeral)
qed

definition dotted :: "nat \<Rightarrow> nat \<Rightarrow> nat \<Rightarrow> nat \<Rightarrow> nat" where
  "dotted a b c d = ((a * 256 + b) * 256 + c) * 256 + d"

lemma unat_ipv4: "dotted a b c d < 2 ^ 32 \<Longrightarrow> unat (ipv4 a b c d) = dotted a b c d"
  unfolding ipv4_def dotted_def by (rule unat_of_small) simp

definition ipv4_mapped :: "u32 \<Rightarrow> ipv6" where
  "ipv4_mapped ip = of_nat (0xffff * 2 ^ 32 + unat ip)"

lemma unat_ipv4_mapped: "unat (ipv4_mapped ip) = 0xffff * 2 ^ 32 + unat ip"
proof -
  have "unat ip < 2 ^ 32" using unsigned_less [of ip] by simp
  then show ?thesis unfolding ipv4_mapped_def by (intro unat_of_small) simp
qed

lemma blocks4:
  "in_block (ipv4 10 0 0 0) 24 ip \<longleftrightarrow> unat ip \<in> {dotted 10 0 0 0 ..< dotted 11 0 0 0}"
  "in_block (ipv4 127 0 0 0) 24 ip \<longleftrightarrow> unat ip \<in> {dotted 127 0 0 0 ..< dotted 128 0 0 0}"
  "in_block (ipv4 169 254 0 0) 16 ip \<longleftrightarrow> unat ip \<in> {dotted 169 254 0 0 ..< dotted 169 255 0 0}"
  "in_block (ipv4 172 16 0 0) 20 ip \<longleftrightarrow> unat ip \<in> {dotted 172 16 0 0 ..< dotted 172 32 0 0}"
  "in_block (ipv4 192 168 0 0) 16 ip \<longleftrightarrow> unat ip \<in> {dotted 192 168 0 0 ..< dotted 192 169 0 0}"
  by (simp_all add: in_block_range unat_ipv4 dotted_def)

lemma unat_push_112: "n < 2 ^ 16 \<Longrightarrow> unat (push_bit 112 (of_nat n) :: ipv6) = n * 2 ^ 112"
proof -
  assume "n < 2 ^ 16"
  then have "n * 2 ^ 112 < 2 ^ LENGTH(128)" by simp
  then have "unat (of_nat (n * 2 ^ 112) :: ipv6) = n * 2 ^ 112" by (rule unat_of_small)
  then show ?thesis by (simp add: push_bit_eq_mult)
qed

lemma blocks6:
  fixes ip :: ipv6
  shows "in_block (push_bit 112 0xfe80) 118 ip \<longleftrightarrow> unat ip \<in> {0xfe80 * 2 ^ 112 ..< 0xfec0 * 2 ^ 112}"
    and "in_block (push_bit 112 0xfc00) 121 ip \<longleftrightarrow> unat ip \<in> {0xfc00 * 2 ^ 112 ..< 0xfe00 * 2 ^ 112}"
  using unat_push_112 [of "0xfe80"] unat_push_112 [of "0xfc00"] by (simp_all add: in_block_range)

lemma unat_unspecified:
  fixes ip :: "'a::len word"
  assumes "1 < LENGTH('a)"
  shows "ip = 0 \<longleftrightarrow> unat ip \<in> {0}" and "ip = 1 \<longleftrightarrow> unat ip = 1"
  using assms by (simp_all add: word_unat_eq_iff)

section \<open>Properties\<close>

text \<open>An IPv4 address is public exactly when it lies outside the unspecified address and the ranges
  10.0.0.0/8, 127.0.0.0/8, 169.254.0.0/16, 172.16.0.0/12 and 192.168.0.0/16, and an IPv6 address when it
  lies outside \<open>::\<close>, \<open>::1\<close>, fe80::/10 and fc00::/7, each read as a range of numbers.\<close>

lemma is_public_ranges:
  "(is_public (V4 ip) \<longleftrightarrow> unat ip \<notin> {0} \<union> {dotted 10 0 0 0 ..< dotted 11 0 0 0} \<union>
      {dotted 127 0 0 0 ..< dotted 128 0 0 0} \<union> {dotted 169 254 0 0 ..< dotted 169 255 0 0} \<union>
      {dotted 172 16 0 0 ..< dotted 172 32 0 0} \<union> {dotted 192 168 0 0 ..< dotted 192 169 0 0}) \<and>
   (is_public (V6 ip6) \<longleftrightarrow> unat ip6 \<notin> {0, 1} \<union> {0xfe80 * 2 ^ 112 ..< 0xfec0 * 2 ^ 112} \<union>
      {0xfc00 * 2 ^ 112 ..< 0xfe00 * 2 ^ 112})"
proof
  show "is_public (V4 ip) \<longleftrightarrow> unat ip \<notin> {0} \<union> {dotted 10 0 0 0 ..< dotted 11 0 0 0} \<union>
      {dotted 127 0 0 0 ..< dotted 128 0 0 0} \<union> {dotted 169 254 0 0 ..< dotted 169 255 0 0} \<union>
      {dotted 172 16 0 0 ..< dotted 172 32 0 0} \<union> {dotted 192 168 0 0 ..< dotted 192 169 0 0}"
    unfolding is_public.simps is_private_def is_loopback4_def is_link_local_def blocks4 Un_iff
    by (subst unat_unspecified) (simp, blast)
  have one: "ip6 = 1 \<longleftrightarrow> unat ip6 = 1" and zero: "ip6 = 0 \<longleftrightarrow> unat ip6 = 0"
    by (simp_all add: word_unat_eq_iff)
  show "is_public (V6 ip6) \<longleftrightarrow> unat ip6 \<notin> {0, 1} \<union> {0xfe80 * 2 ^ 112 ..< 0xfec0 * 2 ^ 112} \<union>
      {0xfc00 * 2 ^ 112 ..< 0xfe00 * 2 ^ 112}"
    unfolding is_public.simps is_unicast_link_local_def is_unique_local_def blocks6 one zero
      Un_iff insert_iff empty_iff by argo
qed

text \<open>An IPv4 address written as an IPv4-mapped IPv6 address is always classified as public, also
  when the IPv4 address itself is private, loopback or link-local.\<close>

lemma ipv4_mapped_always_public:
  "is_public_address [Ip6 (ipv4_mapped ip)] \<and> \<not> is_public_address [Ip4 (ipv4 127 0 0 1)]"
proof
  have "unat ip < 2 ^ 32" using unsigned_less [of ip] by simp
  then have b: "unat (ipv4_mapped ip) < 2 ^ 112" "1 < unat (ipv4_mapped ip)"
    by (simp_all add: unat_ipv4_mapped)
  then have "ipv4_mapped ip \<noteq> 0" "ipv4_mapped ip \<noteq> 1" by auto
  with b show "is_public_address [Ip6 (ipv4_mapped ip)]"
    unfolding is_public_address_def list.pred_inject protocol.case is_public.simps
      is_unicast_link_local_def is_unique_local_def blocks6 by simp
  show "\<not> is_public_address [Ip4 (ipv4 127 0 0 1)]"
    by (simp add: is_public_address_def is_loopback4_def blocks4 unat_ipv4 dotted_def)
qed

section \<open>Resolving hosts\<close>

text \<open>
  \<open>IpOrHostExt\<close> of \<open>src/network_types/types.rs\<close>: the resolver is built on first use and kept in a cell; building it and
  looking up a name are parameters. A failure to build it leaves the cell empty, so the next call tries again.
\<close>

datatype IpOrHost = Dns string nat | Ip "ip_addr \<times> nat"

definition resolve_tokio ::
  "('e + 'r) \<Rightarrow> ('r \<Rightarrow> string \<Rightarrow> 'e + ip_addr list) \<Rightarrow> IpOrHost \<Rightarrow> 'r option \<Rightarrow> ('e + (ip_addr \<times> nat) list) \<times> 'r option" where
  "resolve_tokio build lookup_ip h cell =
     (case h of
        Ip addr \<Rightarrow> (Inr [addr], cell)
      | Dns name port \<Rightarrow>
          (case (case cell of Some r \<Rightarrow> Inr r | None \<Rightarrow> build) of
             Inl e \<Rightarrow> (Inl e, cell)
           | Inr r \<Rightarrow>
               ((case lookup_ip r name of Inl e \<Rightarrow> Inl e | Inr ips \<Rightarrow> Inr (map (\<lambda>ip. (ip, port)) ips)), Some r)))"

lemma resolve_tokio_port:
  assumes "resolve_tokio build lookup_ip h cell = (Inr as, cell')"
  shows "\<forall>(a, p) \<in> set as. p = (case h of Dns _ q \<Rightarrow> q | Ip b \<Rightarrow> snd b)"
  using assms by (auto simp: resolve_tokio_def split: IpOrHost.splits option.splits sum.splits)

lemma resolver_built_once:
  assumes "resolve_tokio build lookup_ip h cell = (res, cell')" and "cell = Some r"
  shows "cell' = Some r \<and> resolve_tokio build' lookup_ip h cell = (res, cell')"
  using assms by (auto simp: resolve_tokio_def split: IpOrHost.splits option.splits sum.splits)

end
