(* ===== verification/Diagnostics.thy ===== *)
theory Diagnostics
  imports Prelude
begin

text \<open>
  Poll diagnostics, \<open>src/runtime.rs\<close> (module \<open>diagnostics\<close>): the configuration read from the environment,
  the rate limiter \<open>should_warn\<close> (one call at a time and, as a machine over its atomic operations, any
  number of racing calls), the counting future wrapper and the counters of concurrent children. Durations
  are nanoseconds; strings are lists of Latin-1 characters; the environment and the wrapped futures are
  parameters.
\<close>

section \<open>Configuration\<close>

definition is_whitespace :: "char \<Rightarrow> bool" where
  "is_whitespace c \<longleftrightarrow> of_char c \<in> {9..13} \<union> {32, 133, 160 :: nat}"

definition trim :: "string \<Rightarrow> string" where
  "trim s = rev (dropWhile is_whitespace (rev (dropWhile is_whitespace s)))"

definition to_ascii_lowercase :: "string \<Rightarrow> string" where
  "to_ascii_lowercase s =
     map (\<lambda>c. if of_char c \<in> {65..90 :: nat} then char_of (of_char c + 32 :: nat) else c) s"

definition strip_suffix :: "string \<Rightarrow> string \<Rightarrow> string option" where
  "strip_suffix suf s =
     (let n = length s - length suf in
      if length suf \<le> length s \<and> drop n s = suf then Some (take n s) else None)"

definition parse_bool :: "string \<Rightarrow> bool" where
  "parse_bool value \<longleftrightarrow> to_ascii_lowercase (trim value) \<in> {''1'', ''true'', ''yes'', ''on''}"

definition parse_duration :: "string \<Rightarrow> nat option" where
  "parse_duration value =
     (let trimmed = trim value in
      case strip_suffix ''ms'' trimmed of
        Some stripped \<Rightarrow> map_option from_millis (parse_uint 64 (trim stripped))
      | None \<Rightarrow>
          (case strip_suffix ''s'' trimmed of
             Some stripped \<Rightarrow> map_option from_secs (parse_uint 64 (trim stripped))
           | None \<Rightarrow> map_option from_secs (parse_uint 64 trimmed)))"

record diagnostics_config =
  enabled :: bool
  warn_after :: u64
  warn_every :: nat

definition DEFAULT_WARN_AFTER :: u64 where "DEFAULT_WARN_AFTER = 100000"

definition DEFAULT_WARN_EVERY :: nat where "DEFAULT_WARN_EVERY = from_secs 5"

definition diagnostics_config_of_env :: "(string \<Rightarrow> string option) \<Rightarrow> diagnostics_config" where
  "diagnostics_config_of_env env =
     \<lparr>enabled = (case env ''HOPR_RUNTIME_POLL_DIAGNOSTICS'' of None \<Rightarrow> False | Some v \<Rightarrow> parse_bool v),
      warn_after =
        (case Option.bind (env ''HOPR_RUNTIME_POLL_WARN_AFTER'') (\<lambda>v. parse_uint 64 (trim v)) of
           None \<Rightarrow> DEFAULT_WARN_AFTER
         | Some n \<Rightarrow> if 0 < n then of_nat n else DEFAULT_WARN_AFTER),
      warn_every =
        (case Option.bind (env ''HOPR_RUNTIME_POLL_WARN_EVERY'') parse_duration of
           None \<Rightarrow> DEFAULT_WARN_EVERY
         | Some d \<Rightarrow> if 0 < d then d else DEFAULT_WARN_EVERY)\<rparr>"

section \<open>The rate limiter\<close>

definition nanos_u64 :: "nat \<Rightarrow> u64" where
  "nanos_u64 d = of_nat (min d (2 ^ 64 - 1))"

definition should_warn :: "nat \<Rightarrow> nat \<Rightarrow> u64 \<Rightarrow> bool \<times> u64" where
  "should_warn elapsed every last_warn =
     (if sat_sub (nanos_u64 elapsed) last_warn < nanos_u64 every then (False, last_warn)
      else (True, nanos_u64 elapsed))"

text \<open>The loop of \<open>should_warn\<close>, one atomic operation at a time.\<close>

datatype sw_pc = SwLoad | SwCas u64 | SwDone bool

fun sw_step :: "u64 \<Rightarrow> u64 \<Rightarrow> u64 \<Rightarrow> sw_pc \<Rightarrow> u64 \<times> sw_pc" where
  "sw_step elapsed every cell SwLoad =
     (cell, if sat_sub elapsed cell < every then SwDone False else SwCas cell)"
| "sw_step elapsed every cell (SwCas l) =
     (if cell = l then (elapsed, SwDone True) else (cell, SwLoad))"
| "sw_step elapsed every cell (SwDone b) = (cell, SwDone b)"

record sw_state =
  last_warn_nanos :: u64
  calls :: "nat \<Rightarrow> sw_pc"
  accepted :: "u64 list"     \<comment> \<open>the times that won, newest first\<close>

text \<open>Any number of calls, call \<open>i\<close> having measured \<open>el i\<close>.\<close>

inductive sw_reach :: "(nat \<Rightarrow> u64) \<Rightarrow> u64 \<Rightarrow> sw_state \<Rightarrow> bool" for el every where
  sw_start: "sw_reach el every \<lparr>last_warn_nanos = 0, calls = (\<lambda>_. SwLoad), accepted = []\<rparr>"
| sw_move: "sw_reach el every s \<Longrightarrow> sw_step (el i) every (last_warn_nanos s) (calls s i) = (cell, pc) \<Longrightarrow>
    sw_reach el every \<lparr>last_warn_nanos = cell, calls = (calls s)(i := pc),
      accepted = (if pc = SwDone True \<and> calls s i \<noteq> SwDone True then el i # accepted s else accepted s)\<rparr>"

text \<open>Successive warnings, newest first and the start last, are at least \<open>every\<close> apart.\<close>

fun spaced :: "nat \<Rightarrow> nat list \<Rightarrow> bool" where
  "spaced d (a # b # xs) \<longleftrightarrow> b + d \<le> a \<and> spaced d (b # xs)"
| "spaced d xs \<longleftrightarrow> True"

definition sw_inv :: "(nat \<Rightarrow> u64) \<Rightarrow> u64 \<Rightarrow> sw_state \<Rightarrow> bool" where
  "sw_inv el every s \<longleftrightarrow> hd (accepted s @ [0]) = last_warn_nanos s \<and>
     spaced (unat every) (map unat (accepted s @ [0])) \<and>
     (\<forall>i l. calls s i = SwCas l \<longrightarrow> every \<le> sat_sub (el i) l)"

lemma spaced_Cons_hd: "xs \<noteq> [] \<Longrightarrow> spaced d (a # xs) \<longleftrightarrow> hd xs + d \<le> a \<and> spaced d xs"
  by (cases xs) auto

lemma sw_reach_inv: "sw_reach el every s \<Longrightarrow> 0 < every \<Longrightarrow> sw_inv el every s"
proof (induction rule: sw_reach.induct)
  case sw_start
  show ?case by (simp add: sw_inv_def)
next
  case (sw_move s i cell pc)
  then have inv: "hd (accepted s @ [0]) = last_warn_nanos s" "spaced (unat every) (map unat (accepted s @ [0]))"
    "\<And>j l. calls s j = SwCas l \<Longrightarrow> every \<le> sat_sub (el j) l"
    by (auto simp: sw_inv_def)
  show ?case
  proof (cases "calls s i")
    case SwLoad
    with sw_move.hyps(2) inv show ?thesis by (auto simp: sw_inv_def not_less split: if_splits)
  next
    case (SwDone b)
    with sw_move.hyps(2) inv show ?thesis by (auto simp: sw_inv_def split: if_splits)
  next
    case (SwCas l)
    show ?thesis
    proof (cases "last_warn_nanos s = l")
      case False
      with SwCas sw_move.hyps(2) inv show ?thesis by (auto simp: sw_inv_def)
    next
      case True
      have "unat every \<le> unat (el i) - unat l" "0 < unat every"
        using inv(3) [OF SwCas] sw_move.prems by (auto simp: word_le_nat_alt word_less_nat_alt unat_sat_sub)
      then have "unat l + unat every \<le> unat (el i)" by linarith
      moreover have "hd (map unat (accepted s @ [0])) = unat l"
        using inv(1) True by (simp add: hd_map del: map_append)
      ultimately show ?thesis using SwCas sw_move.hyps(2) inv True
        by (auto simp: sw_inv_def spaced_Cons_hd simp del: map_append)
    qed
  qed
qed

lemma spaced_length: "spaced d (a # xs) \<Longrightarrow> length xs * d \<le> a"
proof (induction xs arbitrary: a)
  case (Cons b xs)
  then have "length xs * d \<le> b" "b + d \<le> a" by auto
  then show ?case by simp
qed simp

text \<open>Alone, the machine computes \<open>should_warn\<close>.\<close>

lemma should_warn_machine:
  "let (cell1, pc1) = sw_step (nanos_u64 e) (nanos_u64 d) cell SwLoad;
       (cell2, pc2) = sw_step (nanos_u64 e) (nanos_u64 d) cell1 pc1
   in (pc2, cell2) = (SwDone (fst (should_warn e d cell)), snd (should_warn e d cell))"
  by (auto simp: should_warn_def Let_def)

section \<open>The wrapped future\<close>

text \<open>
  \<open>PollDiagnosticFuture\<close>: \<open>inner\<close> is the poll of the wrapped future, \<open>elapsed\<close> the time since the state was
  created. The warning itself is a log line; it is modelled by the number of warnings.
\<close>

record poll_diag =
  total_polls :: u64
  pd_last_warn :: u64
  pd_warnings :: nat

record 'f poll_future =
  pf_inner :: 'f
  pf_state :: "poll_diag option"

definition poll_future_new :: "diagnostics_config \<Rightarrow> 'f \<Rightarrow> 'f poll_future" where
  "poll_future_new cfg f = \<lparr>pf_inner = f,
     pf_state = (if enabled cfg then Some \<lparr>total_polls = 0, pd_last_warn = 0, pd_warnings = 0\<rparr> else None)\<rparr>"

definition count_poll :: "diagnostics_config \<Rightarrow> nat \<Rightarrow> poll_diag \<Rightarrow> poll_diag" where
  "count_poll cfg elapsed st =
     (let n = total_polls st + 1; st' = st\<lparr>total_polls := n\<rparr> in
      if warn_after cfg \<le> n
      then (let (w, l) = should_warn elapsed (warn_every cfg) (pd_last_warn st') in
            st'\<lparr>pd_last_warn := l, pd_warnings := pd_warnings st' + (if w then 1 else 0)\<rparr>)
      else st')"

definition poll_future_poll ::
  "diagnostics_config \<Rightarrow> nat \<Rightarrow> ('f \<Rightarrow> 'r poll \<times> 'f) \<Rightarrow> 'f poll_future \<Rightarrow> 'r poll \<times> 'f poll_future" where
  "poll_future_poll cfg elapsed inner p =
     (let p' = p\<lparr>pf_state := map_option (count_poll cfg elapsed) (pf_state p)\<rparr>;
          (r, f) = inner (pf_inner p')
      in (r, p'\<lparr>pf_inner := f\<rparr>))"

fun run_polls :: "diagnostics_config \<Rightarrow> nat list \<Rightarrow> ('f \<Rightarrow> 'r poll \<times> 'f) \<Rightarrow> 'f poll_future \<Rightarrow>
    'r poll list \<times> 'f poll_future" where
  "run_polls cfg [] inner p = ([], p)"
| "run_polls cfg (t # ts) inner p =
     (let (r, p') = poll_future_poll cfg t inner p; (rs, p'') = run_polls cfg ts inner p' in (r # rs, p''))"

fun inner_polls :: "nat \<Rightarrow> ('f \<Rightarrow> 'r poll \<times> 'f) \<Rightarrow> 'f \<Rightarrow> 'r poll list \<times> 'f" where
  "inner_polls 0 inner f = ([], f)"
| "inner_polls (Suc n) inner f =
     (let (r, f') = inner f; (rs, f'') = inner_polls n inner f' in (r # rs, f''))"

lemma count_poll_total [simp]: "total_polls (count_poll cfg e st) = total_polls st + 1"
  by (simp add: count_poll_def Let_def split: prod.splits)

lemma run_polls_inner:
  "fst (run_polls cfg ts inner p) = fst (inner_polls (length ts) inner (pf_inner p)) \<and>
   pf_inner (snd (run_polls cfg ts inner p)) = snd (inner_polls (length ts) inner (pf_inner p)) \<and>
   map_option total_polls (pf_state (snd (run_polls cfg ts inner p))) =
     map_option (\<lambda>st. total_polls st + of_nat (length ts)) (pf_state p)"
proof (induction ts arbitrary: p)
  case (Cons t ts)
  show ?case
    using Cons.IH [of "snd (poll_future_poll cfg t inner p)"]
    by (auto simp: poll_future_poll_def Let_def option.map_comp o_def add.assoc split: prod.splits)
qed (simp add: option.map_ident)

section \<open>Concurrent children\<close>

record cd_state =
  cd_started :: u64
  cd_completed :: u64
  cd_dropped :: u64
  cd_in_flight :: u64
  cd_last_warn :: u64

record concurrent_diag =
  cd :: "cd_state option"
  children :: "nat \<Rightarrow> bool option"     \<comment> \<open>its \<open>finished\<close> flag, once it exists\<close>

definition concurrent_new :: "diagnostics_config \<Rightarrow> concurrent_diag" where
  "concurrent_new cfg = \<lparr>cd =
     (if enabled cfg
      then Some \<lparr>cd_started = 0, cd_completed = 0, cd_dropped = 0, cd_in_flight = 0, cd_last_warn = 0\<rparr>
      else None), children = (\<lambda>_. None)\<rparr>"

definition wrap_child :: "nat \<Rightarrow> concurrent_diag \<Rightarrow> concurrent_diag" where
  "wrap_child i d =
     d\<lparr>cd := map_option (\<lambda>s. s\<lparr>cd_started := cd_started s + 1, cd_in_flight := cd_in_flight s + 1\<rparr>) (cd d),
       children := (children d)(i := Some False)\<rparr>"

definition mark_finished :: "diagnostics_config \<Rightarrow> nat \<Rightarrow> bool \<Rightarrow> nat \<Rightarrow> concurrent_diag \<Rightarrow> concurrent_diag" where
  "mark_finished cfg elapsed completed i d =
     (let d' = d\<lparr>children := (children d)(i := Some True)\<rparr> in
      if children d i = Some True then d'
      else case cd d' of
        None \<Rightarrow> d'
      | Some st \<Rightarrow>
          let st = st\<lparr>cd_in_flight := cd_in_flight st - 1\<rparr> in
          if completed
          then (let st = st\<lparr>cd_completed := cd_completed st + 1\<rparr> in
                if warn_after cfg \<le> cd_completed st
                then d'\<lparr>cd := Some (st\<lparr>cd_last_warn := snd (should_warn elapsed (warn_every cfg) (cd_last_warn st))\<rparr>)\<rparr>
                else d'\<lparr>cd := Some st\<rparr>)
          else d'\<lparr>cd := Some (st\<lparr>cd_dropped := cd_dropped st + 1\<rparr>)\<rparr>)"

text \<open>
  A child is created once, polled while it lives, and dropped; only a \<open>Ready\<close> poll has an effect. The drop
  runs \<open>mark_finished(false)\<close> also on a child that completed.
\<close>

datatype cd_event = Wrap nat | PollReady nat nat | DropChild nat nat

fun cd_step :: "diagnostics_config \<Rightarrow> cd_event \<Rightarrow> concurrent_diag \<Rightarrow> concurrent_diag option" where
  "cd_step cfg (Wrap i) d = (if children d i = None then Some (wrap_child i d) else None)"
| "cd_step cfg (PollReady t i) d =
     (if children d i = None then None else Some (mark_finished cfg t True i d))"
| "cd_step cfg (DropChild t i) d =
     (if children d i = None then None else Some (mark_finished cfg t False i d))"

fun cd_exec :: "diagnostics_config \<Rightarrow> cd_event list \<Rightarrow> concurrent_diag \<Rightarrow> concurrent_diag option" where
  "cd_exec cfg [] d = Some d"
| "cd_exec cfg (e # es) d = (case cd_step cfg e d of None \<Rightarrow> None | Some d' \<Rightarrow> cd_exec cfg es d')"

abbreviation created :: "bool option \<Rightarrow> bool" where "created c \<equiv> \<not> Option.is_none c"
abbreviation live :: "bool option \<Rightarrow> bool" where "live c \<equiv> c = Some False"

definition cd_inv :: "concurrent_diag \<Rightarrow> bool" where
  "cd_inv d \<longleftrightarrow> finite (owners created (children d)) \<and>
     (\<forall>st. cd d = Some st \<longrightarrow>
        cd_in_flight st = of_nat (cnt live (children d)) \<and>
        cd_started st = of_nat (cnt created (children d)) \<and>
        cd_started st = cd_completed st + cd_dropped st + cd_in_flight st)"

lemma cd_step_inv: "cd_inv d \<Longrightarrow> cd_step cfg e d = Some d' \<Longrightarrow> cd_inv d'"
proof -
  assume inv: "cd_inv d" and st: "cd_step cfg e d = Some d'"
  have fin: "finite (owners created (children d))" using inv by (simp add: cd_inv_def)
  moreover have "owners live (children d) \<subseteq> owners created (children d)" by (auto simp: owners_def)
  ultimately have f: "finite (owners live (children d))" by (rule rev_finite_subset)
  show "cd_inv d'"
    using inv st
    by (cases e) (auto simp: cd_inv_def wrap_child_def mark_finished_def Let_def cnt_upd [OF fin] cnt_upd [OF f]
        algebra_simps split: if_splits option.splits)
qed

lemma cd_exec_inv: "cd_inv d \<Longrightarrow> cd_exec cfg es d = Some d' \<Longrightarrow> cd_inv d'"
  by (induction es arbitrary: d) (auto dest: cd_step_inv split: option.splits)

lemma cd_inv_new: "cd_inv (concurrent_new cfg)"
  by (simp add: cd_inv_def concurrent_new_def)

section \<open>Properties\<close>

text \<open>C16. However many calls of \<open>should_warn\<close> race on the shared cell, the accepted ones are at least
  \<open>warn_every\<close> apart, so by time \<open>e\<close> at most \<open>e / warn_every\<close> warnings have been emitted.\<close>

theorem warnings_rate_limited:
  assumes "sw_reach el every s" and "0 < every"
  shows "spaced (unat every) (map unat (accepted s) @ [0]) \<and>
    length (accepted s) * unat every \<le> unat (last_warn_nanos s)"
proof
  from sw_reach_inv [OF assms] have h: "hd (accepted s @ [0]) = last_warn_nanos s"
    and sp: "spaced (unat every) (map unat (accepted s @ [0]))" by (auto simp: sw_inv_def)
  show "spaced (unat every) (map unat (accepted s) @ [0])" using sp by simp
  show "length (accepted s) * unat every \<le> unat (last_warn_nanos s)"
    using spaced_length [of "unat every" "unat (last_warn_nanos s)" "tl (map unat (accepted s @ [0]))"] sp h
    by (cases "accepted s") auto
qed

theorem warnings_rate_limited_witness:
  "\<exists>s. sw_reach (\<lambda>_. 7) 5 s \<and> accepted s = [7] \<and> length (accepted s) * 5 \<le> unat (last_warn_nanos s)"
proof -
  let ?s0 = "\<lparr>last_warn_nanos = 0, calls = (\<lambda>_. SwLoad), accepted = []\<rparr>"
  let ?s1 = "\<lparr>last_warn_nanos = 0, calls = (\<lambda>_. SwLoad)(0 := SwCas 0), accepted = []\<rparr>"
  let ?s2 = "\<lparr>last_warn_nanos = 7, calls = (\<lambda>_. SwLoad)(0 := SwDone True), accepted = [7]\<rparr>"
  have "sw_reach (\<lambda>_. 7) 5 ?s1"
    using sw_move [OF sw_start, where el = "\<lambda>_. 7" and every = 5 and i = 0] by (simp add: sat_sub_def)
  then have r: "sw_reach (\<lambda>_. 7) 5 ?s2"
    using sw_move [where s = ?s1 and el = "\<lambda>_. 7" and every = 5 and i = 0] by (simp add: fun_upd_idem)
  show ?thesis using warnings_rate_limited [OF r] r by (intro exI [of _ ?s2]) simp
qed

text \<open>Instrumenting a future is transparent: any sequence of polls of the wrapper returns what the same
  number of polls of the wrapped future returns, whether diagnostics are enabled or not, and the poll
  counter of an enabled wrapper is that number.\<close>

lemma instrumentation_transparent:
  "fst (run_polls cfg ts inner (poll_future_new cfg f)) = fst (inner_polls (length ts) inner f) \<and>
   map_option total_polls (pf_state (snd (run_polls cfg ts inner (poll_future_new cfg f)))) =
     (if enabled cfg then Some (of_nat (length ts)) else None)"
  using run_polls_inner [of cfg ts inner "poll_future_new cfg f"] by (simp add: poll_future_new_def)

text \<open>The children of a concurrent stream are counted once each: after any sequence of starts, completions
  and drops, \<open>in_flight\<close> is the number of unfinished children, \<open>started\<close> the number of children, and
  \<open>started = completed + dropped + in_flight\<close>; a completed child is not counted again when dropped.\<close>

lemma child_counters_balance:
  assumes "cd_exec cfg es (concurrent_new cfg) = Some d" and "cd d = Some st"
  shows "cd_in_flight st = of_nat (cnt live (children d)) \<and>
    cd_started st = of_nat (cnt created (children d)) \<and>
    cd_started st = cd_completed st + cd_dropped st + cd_in_flight st"
  using cd_exec_inv [OF cd_inv_new assms(1)] assms(2) unfolding cd_inv_def by blast

end
