(* ===== verification/Abortables.thy ===== *)
theory Abortables
  imports Prelude
begin

text \<open>
  Abortable streams and tasks, \<open>src/runtime.rs\<close>: the stream wrapper \<open>DropAbortable\<close>, the trait \<open>Abortable\<close>
  and \<open>AbortableList\<close>. The flags of abort handles, the abort requests of join handles and the set of tasks
  that have finished are an explicit store; \<open>aborts\<close> logs the abort calls that reached a handle. The
  contract of the trait is the locale \<open>abort_contract\<close>.
\<close>

section \<open>\<open>DropAbortable\<close>\<close>

text \<open>The poll of \<open>futures::stream::Abortable\<close> is a parameter.\<close>

definition drop_abortable_poll ::
  "('s \<Rightarrow> 'i option poll \<times> 's) \<Rightarrow> 's option \<Rightarrow> 'i option poll \<times> 's option" where
  "drop_abortable_poll poll_next inner =
     (case inner of
        None \<Rightarrow> (Ready None, None)
      | Some s \<Rightarrow>
          (case poll_next s of
             (Ready None, _) \<Rightarrow> (Ready None, None)
           | (other, s') \<Rightarrow> (other, Some s')))"

fun drop_abortable_polls ::
  "('s \<Rightarrow> 'i option poll \<times> 's) \<Rightarrow> nat \<Rightarrow> 's option \<Rightarrow> 'i option poll list \<times> 's option" where
  "drop_abortable_polls poll_next 0 inner = ([], inner)"
| "drop_abortable_polls poll_next (Suc n) inner =
     (let (r, inner') = drop_abortable_poll poll_next inner;
          (rs, inner'') = drop_abortable_polls poll_next n inner' in (r # rs, inner''))"

fun stream_polls :: "('s \<Rightarrow> 'i option poll \<times> 's) \<Rightarrow> nat \<Rightarrow> 's \<Rightarrow> 'i option poll list" where
  "stream_polls poll_next 0 s = []"
| "stream_polls poll_next (Suc n) s = (let (r, s') = poll_next s in r # stream_polls poll_next n s')"

section \<open>Tasks\<close>

record world =
  abort_flags :: "nat set"     \<comment> \<open>abort handles that were aborted\<close>
  requested :: "nat set"       \<comment> \<open>join handles whose task was asked to abort\<close>
  finished :: "nat set"        \<comment> \<open>tasks of join handles that have finished\<close>
  aborts :: "nat list"         \<comment> \<open>abort calls, in order\<close>

datatype 'k task = Handle nat | Join nat | Group "('k \<times> 'k task) list"

fun was_aborted :: "world \<Rightarrow> 'k task \<Rightarrow> bool" where
  "was_aborted w (Handle i) = (i \<in> abort_flags w)"
| "was_aborted w (Join i) = (i \<in> finished w)"
| "was_aborted w (Group ts) = (\<forall>(_, t) \<in> set ts. was_aborted w t)"

fun abort_task :: "'k task \<Rightarrow> world \<Rightarrow> world" and abort_all :: "('k \<times> 'k task) list \<Rightarrow> world \<Rightarrow> world" where
  "abort_task (Handle i) w = w\<lparr>abort_flags := insert i (abort_flags w), aborts := aborts w @ [i]\<rparr>"
| "abort_task (Join i) w = w\<lparr>requested := insert i (requested w), aborts := aborts w @ [i]\<rparr>"
| "abort_task (Group ts) w = abort_all ts w"
| "abort_all [] w = w"
| "abort_all ((k, t) # ts) w =
     (let w' = abort_all ts w in if was_aborted w' t then w' else abort_task t w')"

text \<open>Dropping a list aborts it, then drops the tasks it held; dropping a handle does nothing.\<close>

fun drop_task :: "'k task \<Rightarrow> world \<Rightarrow> world" and drop_tasks :: "('k \<times> 'k task) list \<Rightarrow> world \<Rightarrow> world" where
  "drop_task (Handle i) w = w"
| "drop_task (Join i) w = w"
| "drop_task (Group ts) w = drop_tasks ts (abort_all ts w)"
| "drop_tasks [] w = w"
| "drop_tasks ((k, t) # ts) w = drop_tasks ts (drop_task t w)"

definition drop_list :: "('k \<times> 'k task) list \<Rightarrow> world \<Rightarrow> world" where
  "drop_list ts w = drop_tasks ts (abort_all ts w)"

section \<open>The list\<close>

text \<open>\<open>IndexMap::insert\<close>: an existing key keeps its position and the old value is returned.\<close>

fun im_insert :: "'k \<Rightarrow> 'v \<Rightarrow> ('k \<times> 'v) list \<Rightarrow> 'v option \<times> ('k \<times> 'v) list" where
  "im_insert k v [] = (None, [(k, v)])"
| "im_insert k v ((k', v') # m) =
     (if k' = k then (Some v', (k', v) # m)
      else (let (old, m') = im_insert k v m in (old, (k', v') # m')))"

definition shift_remove :: "'k \<Rightarrow> ('k \<times> 'v) list \<Rightarrow> 'v option \<times> ('k \<times> 'v) list" where
  "shift_remove k m = (map_of m k, filter (\<lambda>(k', _). k' \<noteq> k) m)"

definition list_insert ::
  "'k \<Rightarrow> 'k task \<Rightarrow> ('k \<times> 'k task) list \<Rightarrow> world \<Rightarrow> ('k \<times> 'k task) list \<times> world" where
  "list_insert process t ts w =
     (case im_insert process t ts of
        (Some old, ts') \<Rightarrow> (ts', drop_task old (abort_task old w))
      | (None, ts') \<Rightarrow> (ts', w))"

definition list_contains :: "'k \<Rightarrow> ('k \<times> 'k task) list \<Rightarrow> bool" where
  "list_contains process ts \<longleftrightarrow> map_of ts process \<noteq> None"

definition abort_one ::
  "'k \<Rightarrow> ('k \<times> 'k task) list \<Rightarrow> world \<Rightarrow> bool \<times> ('k \<times> 'k task) list \<times> world" where
  "abort_one process ts w =
     (case shift_remove process ts of
        (Some t, ts') \<Rightarrow>
          if \<not> was_aborted w t then (True, ts', drop_task t (abort_task t w))
          else (False, ts', drop_task t w)
      | (None, ts') \<Rightarrow> (False, ts', w))"

fun extend_from ::
  "('k \<times> 'k task) list \<Rightarrow> ('k \<times> 'k task) list \<Rightarrow> world \<Rightarrow> ('k \<times> 'k task) list \<times> world" where
  "extend_from [] ts w = (ts, w)"
| "extend_from ((k, v) # other) ts w =
     (let (ts', w') = list_insert k v ts w in extend_from other ts' w')"

definition flat_map_extend_from ::
  "('u \<Rightarrow> 'k) \<Rightarrow> ('u \<times> 'k task) list \<Rightarrow> ('k \<times> 'k task) list \<Rightarrow> world \<Rightarrow> ('k \<times> 'k task) list \<times> world" where
  "flat_map_extend_from key_map other ts w = extend_from (map (\<lambda>(k, v). (key_map k, v)) other) ts w"

section \<open>The contract of the trait\<close>

text \<open>
  \<open>abortable\<close>: an abort never takes back another one, so calls may be repeated. \<open>abort_contract\<close> adds the
  documented meaning of \<open>was_aborted\<close> for the tasks in \<open>ok\<close>.
\<close>

locale abortable =
  fixes abort :: "'h \<Rightarrow> 'w \<Rightarrow> 'w"
    and was :: "'w \<Rightarrow> 'h \<Rightarrow> bool"
    and asked :: "'w \<Rightarrow> 'x set"
  assumes asked_mono: "asked w \<subseteq> asked (abort h w)"
    and was_mono: "was w h' \<Longrightarrow> was (abort h w) h'"
    and asked_again: "asked (abort h (abort h w)) = asked (abort h w)"
begin

lemma fold_asked: "asked w \<subseteq> asked (fold abort hs w)"
  by (induction hs arbitrary: w) (use asked_mono in \<open>auto, blast\<close>)

lemma fold_was: "was w h \<Longrightarrow> was (fold abort hs w) h"
  by (induction hs arbitrary: w) (auto intro: was_mono)

end

locale abort_contract = abortable +
  fixes ok :: "'b \<Rightarrow> bool"
  assumes abort_was: "ok h \<Longrightarrow> was (abort h w) h"
begin

lemma fold_abort_was: "\<forall>h \<in> set hs. ok h \<Longrightarrow> h \<in> set hs \<Longrightarrow> was (fold abort hs w) h"
proof (induction hs arbitrary: w)
  case (Cons g hs)
  then show ?case by (cases "h = g") (auto intro: fold_was abort_was)
qed simp

end

section \<open>What an abort reaches\<close>

fun handles :: "'k task \<Rightarrow> nat list" and handles_list :: "('k \<times> 'k task) list \<Rightarrow> nat list" where
  "handles (Handle i) = [i]"
| "handles (Join i) = []"
| "handles (Group ts) = handles_list ts"
| "handles_list [] = []"
| "handles_list ((k, t) # ts) = handles t @ handles_list ts"

fun joins :: "'k task \<Rightarrow> nat list" and joins_list :: "('k \<times> 'k task) list \<Rightarrow> nat list" where
  "joins (Handle i) = []"
| "joins (Join i) = [i]"
| "joins (Group ts) = joins_list ts"
| "joins_list [] = []"
| "joins_list ((k, t) # ts) = joins t @ joins_list ts"

lemma was_aborted_iff:
  fixes t :: "'k task" and ts :: "('k \<times> 'k task) list"
  shows "was_aborted w t \<longleftrightarrow> set (handles t) \<subseteq> abort_flags w \<and> set (joins t) \<subseteq> finished w"
    and "(\<forall>(_, t) \<in> set ts. was_aborted w t) \<longleftrightarrow>
     set (handles_list ts) \<subseteq> abort_flags w \<and> set (joins_list ts) \<subseteq> finished w"
  by (induction t and ts rule: handles_handles_list.induct) auto

lemma abort_finished [simp]:
  fixes t :: "'k task" and ts :: "('k \<times> 'k task) list"
  shows "finished (abort_task t w) = finished w"
    and "finished (abort_all ts w) = finished w"
  by (induction t w and ts w rule: abort_task_abort_all.induct) (auto simp: Let_def)

lemma abort_flags [simp]:
  fixes t :: "'k task" and ts :: "('k \<times> 'k task) list"
  shows "abort_flags (abort_task t w) = abort_flags w \<union> set (handles t)"
    and "abort_flags (abort_all ts w) = abort_flags w \<union> set (handles_list ts)"
  by (induction t w and ts w rule: abort_task_abort_all.induct)
    (auto simp: Let_def was_aborted_iff(1))

lemma abort_requested_all:
  fixes t :: "'k task" and ts :: "('k \<times> 'k task) list"
  shows "requested (abort_task t w) = requested w \<union> (case t of Join i \<Rightarrow> {i} | _ \<Rightarrow> set (joins t) - finished w)"
    and "requested (abort_all ts w) = requested w \<union> (set (joins_list ts) - finished w)"
proof (induction t w and ts w rule: abort_task_abort_all.induct)
  case (5 k t ts w)
  then show ?case
    by (cases t) (auto simp: Let_def was_aborted_iff)
qed auto

lemma drop_sets:
  fixes t :: "'k task" and ts :: "('k \<times> 'k task) list"
  shows "finished (drop_task t w) = finished w \<and> abort_flags (drop_task t w) = abort_flags w \<union> (case t of Group ts \<Rightarrow> set (handles t) | _ \<Rightarrow> {}) \<and>
   requested (drop_task t w) = requested w \<union> (case t of Group ts \<Rightarrow> set (joins t) - finished w | _ \<Rightarrow> {})"
    and "finished (drop_tasks ts w) = finished w \<and> abort_flags (drop_tasks ts w) \<subseteq> abort_flags w \<union> set (handles_list ts) \<and>
   abort_flags w \<subseteq> abort_flags (drop_tasks ts w) \<and>
   requested w \<subseteq> requested (drop_tasks ts w) \<and> requested (drop_tasks ts w) \<subseteq> requested w \<union> (set (joins_list ts) - finished w)"
proof (induction t w and ts w rule: drop_task_drop_tasks.induct)
  case (3 ts w)
  then show ?case by (auto simp: abort_requested_all)
next
  case (5 k t ts w)
  then show ?case by (cases t) auto
qed auto

definition asked_of :: "world \<Rightarrow> (nat + nat) set" where
  "asked_of w = Inl ` abort_flags w \<union> Inr ` requested w"

interpretation task: abortable abort_task was_aborted asked_of
proof
  fix h h' :: "'k task" and w
  show "asked_of w \<subseteq> asked_of (abort_task h w)" by (auto simp: asked_of_def abort_requested_all)
  show "was_aborted w h' \<Longrightarrow> was_aborted (abort_task h w) h'" by (auto simp: was_aborted_iff)
  show "asked_of (abort_task h (abort_task h w)) = asked_of (abort_task h w)"
    by (cases h) (auto simp: asked_of_def abort_requested_all)
qed

text \<open>Abort handles, and lists of them at any depth, satisfy the documented contract.\<close>

interpretation handle: abort_contract abort_task was_aborted asked_of "\<lambda>t. joins t = []"
  by unfold_locales (simp add: was_aborted_iff)

section \<open>Order of aborts\<close>

lemma abort_log:
  fixes t :: "'k task" and ts :: "('k \<times> 'k task) list"
  shows "distinct (handles t) \<Longrightarrow> joins t = [] \<Longrightarrow> set (handles t) \<inter> abort_flags w = {} \<Longrightarrow>
    aborts (abort_task t w) = aborts w @ rev (handles t)"
    and "distinct (handles_list ts) \<Longrightarrow> joins_list ts = [] \<Longrightarrow> set (handles_list ts) \<inter> abort_flags w = {} \<Longrightarrow>
    aborts (abort_all ts w) = aborts w @ rev (handles_list ts)"
proof (induction t w and ts w rule: abort_task_abort_all.induct)
  case (5 k t ts w)
  let ?w = "abort_all ts w"
  have l: "aborts ?w = aborts w @ rev (handles_list ts)" using 5 by auto
  show ?case
  proof (cases "was_aborted ?w t")
    case True
    then have "set (handles t) \<subseteq> abort_flags w \<union> set (handles_list ts)" by (simp add: was_aborted_iff)
    moreover have "set (handles t) \<inter> (abort_flags w \<union> set (handles_list ts)) = {}" using "5.prems" by auto
    ultimately have "set (handles t) = {}" by (simp only: Int_absorb2)
    with True l show ?thesis by (simp add: Let_def)
  next
    case False
    with 5 l show ?thesis by (auto simp: Let_def)
  qed
qed auto

lemma abort_all_skip: "(\<forall>(_, t) \<in> set ts. was_aborted w t) \<Longrightarrow> abort_all ts w = w"
  by (induction ts) (auto simp: Let_def)

lemma drop_skip:
  fixes t :: "'k task" and ts :: "('k \<times> 'k task) list"
  shows "was_aborted w t \<Longrightarrow> drop_task t w = w"
    and "(\<forall>(_, t) \<in> set ts. was_aborted w t) \<Longrightarrow> drop_tasks ts w = w"
  by (induction t w and ts w rule: drop_task_drop_tasks.induct) (auto simp: abort_all_skip)

section \<open>Lemmas: the map\<close>

lemma im_insert_spec:
  "fst (im_insert k v m) = map_of m k \<and>
   map_of (snd (im_insert k v m)) = (map_of m)(k \<mapsto> v) \<and>
   map fst (snd (im_insert k v m)) = (if k \<in> set (map fst m) then map fst m else map fst m @ [k])"
proof (induction k v m rule: im_insert.induct)
  case (2 k v k' v' m)
  then show ?case by (cases "k' = k") (auto simp: fun_eq_iff case_prod_beta Let_def)
qed auto

lemma list_insert_eq:
  "list_insert k t ts w = (snd (im_insert k t ts),
     case map_of ts k of None \<Rightarrow> w | Some old \<Rightarrow> drop_task old (abort_task old w))"
  using im_insert_spec [of k t ts] by (auto simp: list_insert_def split: prod.splits option.splits)

lemma map_of_filter_key: "map_of (filter (\<lambda>(k', _). k' \<noteq> k) m) = (map_of m)(k := None)"
  by (induction m) (auto simp: fun_eq_iff)

section \<open>Properties\<close>

lemma drop_list_sets:
  "abort_flags (drop_list ts w) = abort_flags w \<union> set (handles_list ts) \<and>
   requested (drop_list ts w) = requested w \<union> (set (joins_list ts) - finished w)"
  using drop_sets(2) [of ts "abort_all ts w"] by (auto simp: drop_list_def abort_requested_all)

text \<open>C15. No task outlives its list: dropping an \<open>AbortableList\<close> aborts every abort handle in it, at any
  depth of nesting, and asks exactly the unfinished join handles to abort; nothing else is aborted.\<close>

theorem drop_aborts_everything:
  "abort_flags (drop_task (Group ts) w) = abort_flags w \<union> set (handles_list ts) \<and>
   requested (drop_task (Group ts) w) = requested w \<union> (set (joins_list ts) - finished w)"
  using drop_list_sets [of ts w] by (simp add: drop_list_def)

text \<open>Dropping a list of live abort handles aborts each of them exactly once and in reverse insertion
  order, nested lists included.\<close>

lemma drop_aborts_in_reverse_order:
  assumes "distinct (handles_list ts)" and "joins_list ts = []" and "set (handles_list ts) \<inter> abort_flags w = {}"
  shows "aborts (drop_task (Group ts) w) = aborts w @ rev (handles_list ts)"
proof -
  have "\<forall>(_, t) \<in> set ts. was_aborted (abort_all ts w) t" using assms(2) by (simp add: was_aborted_iff(2))
  then have "drop_tasks ts (abort_all ts w) = abort_all ts w" by (rule drop_skip(2))
  with abort_log(2) [OF assms] show ?thesis by simp
qed

text \<open>\<open>was_aborted\<close> means what the trait documents for every task made of abort handles: it is true once
  \<open>abort_task\<close> was called and stays true whatever is aborted later. A join handle breaks it: after
  \<open>abort_task\<close> its \<open>was_aborted\<close> is still false as long as the task has not finished.\<close>

lemma was_aborted_contract:
  fixes t :: "'k task" and later :: "'k task list"
  shows "(joins t = [] \<longrightarrow> was_aborted (fold abort_task later (abort_task t w)) t) \<and>
   (i \<notin> finished w \<longrightarrow> \<not> was_aborted (abort_task (Join i :: 'k task) w) (Join i :: 'k task))"
  by (auto intro: handle.abort_was task.fold_was)

text \<open>\<open>insert\<close> maps the key to the new task and leaves the others alone, aborting a previous task of the
  key completely; a fresh key is appended, but the key of a replaced task keeps its old position.\<close>

lemma list_insert_behaviour:
  "map_of (fst (list_insert k t ts w)) = (map_of ts)(k \<mapsto> t) \<and>
   map fst (fst (list_insert k t ts w)) = (if list_contains k ts then map fst ts else map fst ts @ [k]) \<and>
   (case map_of ts k of
      None \<Rightarrow> snd (list_insert k t ts w) = w
    | Some old \<Rightarrow> set (handles old) \<subseteq> abort_flags (snd (list_insert k t ts w)) \<and>
        set (joins old) - finished w \<subseteq> requested (snd (list_insert k t ts w)))"
proof -
  have "set (handles old) \<subseteq> abort_flags (drop_task old (abort_task old w))"
    "set (joins old) - finished w \<subseteq> requested (drop_task old (abort_task old w))" for old :: "'a task"
    using drop_sets(1) [of old "abort_task old w"] by (cases old; auto simp: abort_requested_all)+
  moreover have "list_contains k ts \<longleftrightarrow> k \<in> set (map fst ts)"
    using map_of_eq_None_iff [of ts k] by (simp add: list_contains_def)
  ultimately show ?thesis using im_insert_spec [of k t ts]
    by (cases "map_of ts k") (simp_all add: list_insert_eq)
qed

text \<open>\<open>abort_one\<close> always removes the key and nothing else, returns true exactly when the key was present
  and its task not yet aborted, and then leaves that task aborted.\<close>

lemma abort_one_behaviour:
  "fst (abort_one k ts w) = (\<exists>t. map_of ts k = Some t \<and> \<not> was_aborted w t) \<and>
   map_of (fst (snd (abort_one k ts w))) = (map_of ts)(k := None) \<and>
   (\<forall>t. map_of ts k = Some t \<longrightarrow>
      set (handles t) \<subseteq> abort_flags (snd (snd (abort_one k ts w))) \<and>
      set (joins t) - finished w \<subseteq> requested (snd (snd (abort_one k ts w))))"
proof -
  have "set (handles t) \<subseteq> abort_flags (drop_task t (abort_task t w))"
    "set (joins t) - finished w \<subseteq> requested (drop_task t (abort_task t w))" for t :: "'a task"
    using drop_sets(1) [of t "abort_task t w"] by (cases t; auto simp: abort_requested_all)+
  moreover have "set (handles t) \<subseteq> abort_flags (drop_task t w) \<and> set (joins t) - finished w \<subseteq> requested (drop_task t w)"
    if "was_aborted w t" for t :: "'a task"
    using that by (auto simp: drop_skip was_aborted_iff)
  ultimately show ?thesis
    by (auto simp: abort_one_def shift_remove_def map_of_filter_key split: option.splits)
qed

lemma drop_abortable_prefix:
  "drop_abortable_polls poll_next n (Some s) = (rs, inner) \<Longrightarrow>
     (Ready None \<notin> set (stream_polls poll_next n s) \<longrightarrow> rs = stream_polls poll_next n s \<and> inner \<noteq> None) \<and>
     (\<forall>xs ys. stream_polls poll_next n s = xs @ Ready None # ys \<and> Ready None \<notin> set xs \<longrightarrow>
        rs = xs @ replicate (Suc (length ys)) (Ready None) \<and> inner = None)"
proof (induction n arbitrary: s rs inner)
  case (Suc n)
  have dead: "drop_abortable_polls poll_next m None = (replicate m (Ready None), None)" for m
    by (induction m) (simp_all add: drop_abortable_poll_def)
  have len: "length (stream_polls poll_next m u) = m" for m u
    by (induction m arbitrary: u) (simp_all add: case_prod_beta Let_def)
  obtain r s' where r: "poll_next s = (r, s')" by (cases "poll_next s")
  show ?case
  proof (cases "r = Ready None")
    case True
    with Suc.prems r dead [of n] show ?thesis
      using len [of n s'] by (auto simp: drop_abortable_poll_def Cons_eq_append_conv)
  next
    case False
    obtain rs' where rs': "drop_abortable_polls poll_next n (Some s') = (rs', inner)" and rs: "rs = r # rs'"
      using Suc.prems r False by (auto simp: drop_abortable_poll_def split: prod.splits poll.splits option.splits)
    from Suc.IH [OF rs'] show ?thesis using r False rs by (auto simp: Cons_eq_append_conv)
  qed
qed simp

text \<open>\<open>DropAbortable\<close> is transparent until the inner stream ends or is aborted; at that very poll the
  inner stream is dropped, and every later poll returns the end of the stream.\<close>

lemma drop_abortable_fused:
  "(Ready None \<notin> set (stream_polls poll_next n s) \<longrightarrow>
      fst (drop_abortable_polls poll_next n (Some s)) = stream_polls poll_next n s \<and>
      snd (drop_abortable_polls poll_next n (Some s)) \<noteq> None) \<and>
   (stream_polls poll_next n s = xs @ Ready None # ys \<and> Ready None \<notin> set xs \<longrightarrow>
      drop_abortable_polls poll_next n (Some s) = (xs @ replicate (Suc (length ys)) (Ready None), None))"
  using drop_abortable_prefix [of poll_next n s "fst (drop_abortable_polls poll_next n (Some s))"
      "snd (drop_abortable_polls poll_next n (Some s))"]
  by (auto simp: prod_eq_iff)

end
