(* ===== verification/Stream_Copy.thy ===== *)
theory Stream_Copy
  imports Prelude "HOL-Library.Sublist"
begin

text \<open>
  Copying between streams, \<open>src/network_types/utils.rs\<close>: \<open>CopyBuffer\<close>, one direction of a transfer and the
  bidirectional \<open>copy_duplex\<close> with its aborts. The endpoints are code outside the repository: a reader, a
  writer, its flush and its shutdown are scripts, one entry per poll, over which every theorem quantifies;
  an exhausted script is pending forever. A reader never hands over more than the free space and a writer
  never accepts more than it was offered, as their traits demand. The ghost fields \<open>reads\<close> and \<open>sent\<close> record
  what was handed over and what was accepted, flushed and shut down.
\<close>

section \<open>Endpoints\<close>

datatype io_error = IoError nat | BrokenPipe io_error | WriteZero
  | AssertFailed      \<comment> \<open>the panic of the debug assertion in \<open>poll_copy\<close>\<close>

datatype rd = RPending | RErr io_error | RData "byte list"
datatype wr = WPending | WErr io_error | WAccept nat
datatype fl = FPending | FErr io_error | FOk

datatype wevent = Chunk "byte list" | Flushed | Shut

record reader =
  rscript :: "rd list"
  reads :: "byte list list"      \<comment> \<open>what each successful, non-empty read handed over\<close>

record writer =
  wscript :: "wr list"
  fscript :: "fl list"
  sscript :: "fl list"
  sent :: "wevent list"

type_synonym 'a io = "(io_error + 'a) poll"

definition poll_read :: "nat \<Rightarrow> reader \<Rightarrow> byte list io \<times> reader" where
  "poll_read space r =
     (case rscript r of
        [] \<Rightarrow> (Pending, r)
      | RPending # rs \<Rightarrow> (Pending, r\<lparr>rscript := rs\<rparr>)
      | RErr e # rs \<Rightarrow> (Ready (Inl e), r\<lparr>rscript := rs\<rparr>)
      | RData bs # rs \<Rightarrow> (Ready (Inr (take space bs)),
          r\<lparr>rscript := rs, reads := reads r @ (if take space bs = [] then [] else [take space bs])\<rparr>))"

definition poll_write :: "byte list \<Rightarrow> writer \<Rightarrow> nat io \<times> writer" where
  "poll_write data w =
     (case wscript w of
        [] \<Rightarrow> (Pending, w)
      | WPending # ws \<Rightarrow> (Pending, w\<lparr>wscript := ws\<rparr>)
      | WErr e # ws \<Rightarrow> (Ready (Inl e), w\<lparr>wscript := ws\<rparr>)
      | WAccept n # ws \<Rightarrow> (Ready (Inr (min n (length data))),
          w\<lparr>wscript := ws, sent := sent w @ [Chunk (take n data)]\<rparr>))"

definition poll_flush :: "writer \<Rightarrow> unit io \<times> writer" where
  "poll_flush w =
     (case fscript w of
        [] \<Rightarrow> (Pending, w)
      | FPending # fs \<Rightarrow> (Pending, w\<lparr>fscript := fs\<rparr>)
      | FErr e # fs \<Rightarrow> (Ready (Inl e), w\<lparr>fscript := fs\<rparr>)
      | FOk # fs \<Rightarrow> (Ready (Inr ()), w\<lparr>fscript := fs, sent := sent w @ [Flushed]\<rparr>))"

definition poll_shutdown :: "writer \<Rightarrow> unit io \<times> writer" where
  "poll_shutdown w =
     (case sscript w of
        [] \<Rightarrow> (Pending, w)
      | FPending # fs \<Rightarrow> (Pending, w\<lparr>sscript := fs\<rparr>)
      | FErr e # fs \<Rightarrow> (Ready (Inl e), w\<lparr>sscript := fs\<rparr>)
      | FOk # fs \<Rightarrow> (Ready (Inr ()), w\<lparr>sscript := fs, sent := sent w @ [Shut]\<rparr>))"

section \<open>\<open>CopyBuffer\<close>\<close>

record copy_buffer =
  read_done :: bool
  need_flush :: bool
  datagram :: bool
  pos :: nat
  cap :: nat
  amt :: u64
  buf :: "byte list"

definition copy_buffer_new :: "nat \<Rightarrow> bool \<Rightarrow> copy_buffer" where
  "copy_buffer_new buf_size dg = \<lparr>read_done = False, need_flush = False, datagram = dg, pos = 0, cap = 0,
     amt = 0, buf = replicate buf_size 0\<rparr>"

definition poll_fill_buf :: "copy_buffer \<Rightarrow> reader \<Rightarrow> unit io \<times> copy_buffer \<times> reader" where
  "poll_fill_buf cb r =
     (case poll_read (length (buf cb) - cap cb) r of
        (Pending, r') \<Rightarrow> (Pending, cb, r')
      | (Ready (Inl e), r') \<Rightarrow> (Ready (Inl e), cb, r')
      | (Ready (Inr bs), r') \<Rightarrow>
          (let filled = cap cb + length bs in
           (Ready (Inr ()),
            cb\<lparr>buf := take (cap cb) (buf cb) @ bs @ drop filled (buf cb),
               read_done := (cap cb = filled), cap := filled\<rparr>, r')))"

definition poll_write_buf :: "copy_buffer \<Rightarrow> reader \<Rightarrow> writer \<Rightarrow> nat io \<times> copy_buffer \<times> reader \<times> writer" where
  "poll_write_buf cb r w =
     (case poll_write (drop (pos cb) (take (cap cb) (buf cb))) w of
        (Pending, w') \<Rightarrow>
          (if \<not> datagram cb \<and> \<not> read_done cb \<and> cap cb < length (buf cb)
           then (case poll_fill_buf cb r of
                   (Ready (Inl e), cb', r') \<Rightarrow> (Ready (Inl e), cb', r', w')
                 | (_, cb', r') \<Rightarrow> (Pending, cb', r', w'))
           else (Pending, cb, r, w'))
      | (res, w') \<Rightarrow> (res, cb, r, w'))"

text \<open>The parts of \<open>poll_copy\<close> either stop with a poll result or go on.\<close>

datatype 'r go = Stop (stopped: "u64 io") (stop_state: "copy_buffer \<times> reader \<times> writer") | Go 'r

definition after_write :: "nat \<Rightarrow> copy_buffer \<Rightarrow> copy_buffer" where
  "after_write i cb = cb\<lparr>pos := pos cb + i, amt := amt cb + of_nat i, need_flush := True\<rparr>"

lemma poll_write_consumes:
  "poll_write s w = (Ready x, w') \<Longrightarrow> length (wscript w') < length (wscript w)"
  by (auto simp: poll_write_def split: list.splits wr.splits)

lemma poll_write_buf_consumes:
  "poll_write_buf cb r w = (Ready (Inr i), cb', r', w') \<Longrightarrow> length (wscript w') < length (wscript w)"
  by (auto simp: poll_write_buf_def split: prod.splits poll.splits sum.splits if_splits dest: poll_write_consumes)

function write_loop :: "copy_buffer \<Rightarrow> reader \<Rightarrow> writer \<Rightarrow> (copy_buffer \<times> reader \<times> writer) go" where
  "write_loop cb r w =
     (if pos cb < cap cb then
        (case poll_write_buf cb r w of
           (Pending, cb', r', w') \<Rightarrow> Stop Pending (cb', r', w')
         | (Ready (Inl e), cb', r', w') \<Rightarrow> Stop (Ready (Inl e)) (cb', r', w')
         | (Ready (Inr i), cb', r', w') \<Rightarrow>
             if i = 0 then Stop (Ready (Inl WriteZero)) (cb', r', w')
             else write_loop (after_write i cb') r' w')
      else Go (cb, r, w))"
  by pat_completeness auto
termination
  by (relation "measure (\<lambda>(cb, r, w). length (wscript w))") (auto dest: poll_write_buf_consumes [OF sym])

declare write_loop.simps [simp del]

definition datagram_flush :: "copy_buffer \<Rightarrow> reader \<Rightarrow> writer \<Rightarrow> (copy_buffer \<times> reader \<times> writer) go" where
  "datagram_flush cb r w =
     (if datagram cb \<and> need_flush cb
      then (case poll_flush w of
              (Pending, w') \<Rightarrow> Stop Pending (cb, r, w')
            | (Ready (Inl e), w') \<Rightarrow> Stop (Ready (Inl e)) (cb, r, w')
            | (Ready (Inr _), w') \<Rightarrow> Go (cb\<lparr>need_flush := False\<rparr>, r, w'))
      else Go (cb, r, w))"

definition fill_empty :: "copy_buffer \<Rightarrow> reader \<Rightarrow> writer \<Rightarrow> (copy_buffer \<times> reader \<times> writer) go" where
  "fill_empty cb r w =
     (if pos cb = cap cb \<and> \<not> read_done cb
      then (case poll_fill_buf (cb\<lparr>pos := 0, cap := 0\<rparr>) r of
              (Ready (Inr _), cb', r') \<Rightarrow> Go (cb', r', w)
            | (Ready (Inl e), cb', r') \<Rightarrow> Stop (Ready (Inl (BrokenPipe e))) (cb', r', w)
            | (Pending, cb', r') \<Rightarrow>
                if need_flush cb'
                then (case poll_flush w of
                        (Pending, w') \<Rightarrow> Stop Pending (cb', r', w')
                      | (Ready (Inl e), w') \<Rightarrow> Stop (Ready (Inl e)) (cb', r', w')
                      | (Ready (Inr _), w') \<Rightarrow> Stop Pending (cb'\<lparr>need_flush := False\<rparr>, r', w'))
                else Stop Pending (cb', r', w))
      else Go (cb, r, w))"

definition copy_finish :: "copy_buffer \<Rightarrow> reader \<Rightarrow> writer \<Rightarrow> (copy_buffer \<times> reader \<times> writer) go" where
  "copy_finish cb r w =
     (if cap cb < pos cb then Stop (Ready (Inl AssertFailed)) (cb, r, w)
      else if pos cb = cap cb \<and> read_done cb
      then (case poll_flush w of
              (Pending, w') \<Rightarrow> Stop Pending (cb, r, w')
            | (Ready (Inl e), w') \<Rightarrow> Stop (Ready (Inl e)) (cb, r, w')
            | (Ready (Inr _), w') \<Rightarrow> Stop (Ready (Inr (amt cb))) (cb, r, w'))
      else Go (cb, r, w))"

fun go_bind :: "'s go \<Rightarrow> ('s \<Rightarrow> 't go) \<Rightarrow> 't go" where
  "go_bind (Stop res st) f = Stop res st"
| "go_bind (Go s) f = f s"

definition copy_iteration :: "copy_buffer \<times> reader \<times> writer \<Rightarrow> (copy_buffer \<times> reader \<times> writer) go" where
  "copy_iteration = (\<lambda>(cb, r, w).
     go_bind (datagram_flush cb r w) (\<lambda>(cb, r, w).
     go_bind (fill_empty cb r w) (\<lambda>(cb, r, w).
     go_bind (write_loop cb r w) (\<lambda>(cb, r, w).
     copy_finish cb r w))))"

text \<open>Every iteration that goes on has consumed an entry of a script.\<close>

lemma poll_write_buf_Ready:
  "poll_write_buf cb r w = (Ready (Inr i), cb', r', w') \<Longrightarrow>
     cb' = cb \<and> r' = r \<and> poll_write (drop (pos cb) (take (cap cb) (buf cb))) w = (Ready (Inr i), w')"
  by (auto simp: poll_write_buf_def split: prod.splits poll.splits sum.splits if_splits)

lemma write_loop_Go:
  "write_loop cb r w = Go (cb', r', w') \<Longrightarrow>
     r' = r \<and> length (wscript w') \<le> length (wscript w) \<and> cap cb' = cap cb \<and> \<not> pos cb' < cap cb' \<and>
     read_done cb' = read_done cb \<and> (pos cb < cap cb \<longrightarrow> length (wscript w') < length (wscript w)) \<and>
     (\<not> pos cb < cap cb \<longrightarrow> cb' = cb)"
proof (induction cb r w rule: write_loop.induct)
  case (1 cb r w)
  show ?case
  proof (cases "pos cb < cap cb")
    case True
    then obtain i w1 where pw: "poll_write_buf cb r w = (Ready (Inr i), cb, r, w1)" and i: "i \<noteq> 0"
      and rec: "write_loop (after_write i cb) r w1 = Go (cb', r', w')"
      using "1.prems" unfolding write_loop.simps [of cb r w]
      by (auto split: prod.splits poll.splits sum.splits if_splits dest: poll_write_buf_Ready)
    have "length (wscript w1) < length (wscript w)" using pw by (rule poll_write_buf_consumes)
    with True "1.IH" [OF True pw [symmetric] refl refl refl refl i rec] show ?thesis by (auto simp: after_write_def)
  qed (use "1.prems" in \<open>auto simp: write_loop.simps [of cb r w]\<close>)
qed

lemma poll_flush_scripts:
  "poll_flush w = (res, w') \<Longrightarrow> wscript w' = wscript w \<and> sscript w' = sscript w"
  by (auto simp: poll_flush_def split: list.splits fl.splits)

lemma datagram_flush_Go:
  "datagram_flush cb r w = Go (cb', r', w') \<Longrightarrow>
     r' = r \<and> wscript w' = wscript w \<and> pos cb' = pos cb \<and> cap cb' = cap cb \<and> read_done cb' = read_done cb"
  by (auto simp: datagram_flush_def split: if_splits prod.splits poll.splits sum.splits
      dest: poll_flush_scripts)

lemma fill_empty_Go:
  "fill_empty cb r w = Go (cb', r', w') \<Longrightarrow> w' = w \<and>
     (if pos cb = cap cb \<and> \<not> read_done cb then length (rscript r') < length (rscript r) else cb' = cb \<and> r' = r)"
  by (auto simp: fill_empty_def poll_fill_buf_def poll_read_def Let_def
      split: if_splits prod.splits poll.splits sum.splits list.splits rd.splits)

lemma copy_iteration_consumes:
  assumes "copy_iteration (cb, r, w) = Go (cb', r', w')"
  shows "length (rscript r') + length (wscript w') < length (rscript r) + length (wscript w)"
proof -
  obtain cb1 r1 w1 where s1: "datagram_flush cb r w = Go (cb1, r1, w1)"
    and rest1: "go_bind (fill_empty cb1 r1 w1) (\<lambda>(cb, r, w).
     go_bind (write_loop cb r w) (\<lambda>(cb, r, w). copy_finish cb r w)) = Go (cb', r', w')"
    using assms by (cases "datagram_flush cb r w") (auto simp: copy_iteration_def)
  obtain cb2 r2 w2 where s2: "fill_empty cb1 r1 w1 = Go (cb2, r2, w2)"
    and rest2: "go_bind (write_loop cb2 r2 w2) (\<lambda>(cb, r, w). copy_finish cb r w) = Go (cb', r', w')"
    using rest1 by (cases "fill_empty cb1 r1 w1") auto
  obtain cb3 r3 w3 where s3: "write_loop cb2 r2 w2 = Go (cb3, r3, w3)"
    and s4: "copy_finish cb3 r3 w3 = Go (cb', r', w')"
    using rest2 by (cases "write_loop cb2 r2 w2") auto
  have f: "cb' = cb3" "r' = r3" "w' = w3" "\<not> cap cb3 < pos cb3" "\<not> (pos cb3 = cap cb3 \<and> read_done cb3)"
    using s4 by (auto simp: copy_finish_def split: if_splits prod.splits poll.splits sum.splits)
  show ?thesis
    using f datagram_flush_Go [OF s1] fill_empty_Go [OF s2] write_loop_Go [OF s3]
    by (auto split: if_splits)
qed

function poll_copy :: "copy_buffer \<times> reader \<times> writer \<Rightarrow> u64 io \<times> copy_buffer \<times> reader \<times> writer" where
  "poll_copy s =
     (case copy_iteration s of
        Stop res st \<Rightarrow> (res, st)
      | Go s' \<Rightarrow> poll_copy s')"
  by pat_completeness auto
termination
  by (relation "measure (\<lambda>(cb, r, w). length (rscript r) + length (wscript w))")
    (auto dest: copy_iteration_consumes)

declare poll_copy.simps [simp del]

section \<open>Invariants of a copy\<close>

text \<open>
  The interface between the copy loop and its invariants: what every elementary effect keeps, the whole loop
  keeps. In datagram mode the buffer is only filled when it is empty, and only emptied after a flush.
\<close>

abbreviation pending_bytes :: "copy_buffer \<Rightarrow> byte list" where
  "pending_bytes cb \<equiv> drop (pos cb) (take (cap cb) (buf cb))"

locale copy_invariant =
  fixes P :: "copy_buffer \<Rightarrow> reader \<Rightarrow> writer \<Rightarrow> bool"
  assumes fill: "P cb r w \<Longrightarrow> (datagram cb \<Longrightarrow> cap cb = 0) \<Longrightarrow> \<not> read_done cb \<Longrightarrow>
      poll_fill_buf cb r = (res, cb', r') \<Longrightarrow> P cb' r' w"
    and reset: "P cb r w \<Longrightarrow> pos cb = cap cb \<Longrightarrow> \<not> read_done cb \<Longrightarrow> (datagram cb \<Longrightarrow> \<not> need_flush cb) \<Longrightarrow>
      P (cb\<lparr>pos := 0, cap := 0\<rparr>) r w"
    and write_some: "P cb r w \<Longrightarrow> pos cb < cap cb \<Longrightarrow> poll_write (pending_bytes cb) w = (Ready (Inr i), w') \<Longrightarrow>
      P (after_write i cb) r w' \<and> (i = 0 \<longrightarrow> P cb r w')"
    and write_none: "P cb r w \<Longrightarrow> poll_write d w = (Pending, w') \<or> poll_write d w = (Ready (Inl e), w') \<Longrightarrow> P cb r w'"
    and flush: "P cb r w \<Longrightarrow> poll_flush w = (Ready (Inr u), w') \<Longrightarrow> P cb r w' \<and> P (cb\<lparr>need_flush := False\<rparr>) r w'"
    and flush_none: "P cb r w \<Longrightarrow> poll_flush w = (Pending, w') \<or> poll_flush w = (Ready (Inl e), w') \<Longrightarrow> P cb r w'"
begin

fun go_inv :: "(copy_buffer \<times> reader \<times> writer) go \<Rightarrow> bool" where
  "go_inv (Stop res (cb, r, w)) = P cb r w"
| "go_inv (Go (cb, r, w)) = P cb r w"

lemma datagram_flush_inv: "P cb r w \<Longrightarrow> go_inv (datagram_flush cb r w)"
  by (auto simp: datagram_flush_def split: prod.splits poll.splits sum.splits dest: flush flush_none)

lemma copy_finish_inv: "P cb r w \<Longrightarrow> go_inv (copy_finish cb r w)"
  by (auto simp: copy_finish_def split: prod.splits poll.splits sum.splits dest: flush flush_none)

lemma fill_empty_inv:
  assumes "P cb r w" and "datagram cb \<Longrightarrow> \<not> need_flush cb"
  shows "go_inv (fill_empty cb r w)"
proof (cases "pos cb = cap cb \<and> \<not> read_done cb")
  case True
  then have p0: "P (cb\<lparr>pos := 0, cap := 0\<rparr>) r w" using assms by (auto intro: reset)
  obtain res cb' r' where f: "poll_fill_buf (cb\<lparr>pos := 0, cap := 0\<rparr>) r = (res, cb', r')"
    by (cases "poll_fill_buf (cb\<lparr>pos := 0, cap := 0\<rparr>) r")
  have "P cb' r' w" using fill [OF p0 _ _ f] True by simp
  then show ?thesis using True f
    by (auto simp: fill_empty_def split: prod.splits poll.splits sum.splits dest: flush flush_none)
qed (use assms in \<open>auto simp: fill_empty_def\<close>)

lemma poll_write_buf_inv:
  assumes "P cb r w" and "poll_write_buf cb r w = (res, cb', r', w')" and "\<And>i. res \<noteq> Ready (Inr i)"
  shows "P cb' r' w'"
proof -
  obtain wres w1 where pw: "poll_write (pending_bytes cb) w = (wres, w1)"
    by (cases "poll_write (pending_bytes cb) w")
  show ?thesis
  proof (cases wres)
    case Pending
    with pw assms(1) have p1: "P cb r w1" by (blast intro: write_none)
    obtain fres cb1 r1 where f: "poll_fill_buf cb r = (fres, cb1, r1)" by (cases "poll_fill_buf cb r")
    show ?thesis
    proof (cases "\<not> datagram cb \<and> \<not> read_done cb \<and> cap cb < length (buf cb)")
      case True
      then have "P cb1 r1 w1" using fill [OF p1 _ _ f] by simp
      with True Pending pw f assms(2) show ?thesis
        by (auto simp: poll_write_buf_def split: poll.splits sum.splits)
    next
      case False
      with Pending pw p1 assms(2) show ?thesis by (simp add: poll_write_buf_def)
    qed
  next
    case (Ready x)
    with pw assms(2,3) obtain e where "x = Inl e" "cb' = cb" "r' = r" "w' = w1"
      by (cases x) (auto simp: poll_write_buf_def)
    with Ready pw assms(1) show ?thesis by (blast intro: write_none)
  qed
qed

lemma write_loop_inv: "P cb r w \<Longrightarrow> go_inv (write_loop cb r w)"
proof (induction cb r w rule: write_loop.induct)
  case (1 cb r w)
  obtain res cb1 r1 w1 where pw: "poll_write_buf cb r w = (res, cb1, r1, w1)"
    by (cases "poll_write_buf cb r w")
  show ?case
  proof (cases "pos cb < cap cb")
    case True
    show ?thesis
    proof (cases "\<exists>i. res = Ready (Inr i)")
      case ok: True
      then obtain i where i: "res = Ready (Inr i)" by blast
      from poll_write_buf_Ready [OF pw [unfolded i]]
      have e: "cb1 = cb" "r1 = r" and w1: "poll_write (pending_bytes cb) w = (Ready (Inr i), w1)" by auto
      from write_some [OF "1.prems" True w1] have p: "P (after_write i cb) r w1" "i = 0 \<longrightarrow> P cb r w1" by auto
      show ?thesis
      proof (cases "i = 0")
        case True
        with p pw i e \<open>pos cb < cap cb\<close> show ?thesis by (simp add: write_loop.simps [of cb r w])
      next
        case False
        then have "go_inv (write_loop (after_write i cb) r w1)"
          using "1.IH" [OF True pw [unfolded i e, symmetric] refl refl refl refl _ p(1)] by simp
        with False pw i e True show ?thesis by (simp add: write_loop.simps [of cb r w])
      qed
    next
      case False
      with poll_write_buf_inv [OF "1.prems" pw] have "P cb1 r1 w1" by blast
      with False True pw show ?thesis
        by (auto simp: write_loop.simps [of cb r w] split: poll.splits sum.splits)
    qed
  qed (use "1.prems" in \<open>simp add: write_loop.simps [of cb r w]\<close>)
qed

lemma go_inv_bind:
  assumes "go_inv g" and "\<And>cb r w. g = Go (cb, r, w) \<Longrightarrow> P cb r w \<Longrightarrow> go_inv (f (cb, r, w))"
  shows "go_inv (go_bind g f)"
proof (cases g)
  case (Stop res st)
  with assms show ?thesis by (cases st) simp
next
  case (Go s)
  with assms show ?thesis by (cases s) simp
qed

lemma copy_iteration_inv: "P cb r w \<Longrightarrow> go_inv (copy_iteration (cb, r, w))"
proof -
  assume p: "P cb r w"
  have rest: "go_inv (go_bind (fill_empty cb1 r1 w1) (\<lambda>(cb, r, w). go_bind (write_loop cb r w) (\<lambda>(cb, r, w). copy_finish cb r w)))"
    if "datagram_flush cb r w = Go (cb1, r1, w1)" and "P cb1 r1 w1" for cb1 r1 w1
  proof (rule go_inv_bind)
    have "datagram cb1 \<Longrightarrow> \<not> need_flush cb1"
      using that(1) by (auto simp: datagram_flush_def split: if_splits prod.splits poll.splits sum.splits)
    then show "go_inv (fill_empty cb1 r1 w1)" using that(2) by (rule fill_empty_inv [rotated])
  qed (auto intro!: go_inv_bind write_loop_inv copy_finish_inv)
  show ?thesis unfolding copy_iteration_def prod.case
    by (rule go_inv_bind [OF datagram_flush_inv [OF p]]) (simp add: rest)
qed

lemma poll_copy_inv: "poll_copy (cb, r, w) = (res, cb', r', w') \<Longrightarrow> P cb r w \<Longrightarrow> P cb' r' w'"
proof (induction "(cb, r, w)" arbitrary: cb r w rule: poll_copy.induct)
  case 1
  have g: "go_inv (copy_iteration (cb, r, w))" using "1.prems"(2) by (rule copy_iteration_inv)
  show ?case
  proof (cases "copy_iteration (cb, r, w)")
    case (Stop res1 st)
    with g "1.prems"(1) show ?thesis by (simp add: poll_copy.simps [of "(cb, r, w)"])
  next
    case (Go s)
    obtain cb1 r1 w1 where s: "s = (cb1, r1, w1)" by (cases s)
    from g Go s have "P cb1 r1 w1" by simp
    with "1.hyps" [OF Go [unfolded s]] "1.prems"(1) Go s show ?thesis by (simp add: poll_copy.simps [of "(cb, r, w)"])
  qed
qed

end

section \<open>No byte is lost, duplicated or reordered\<close>

fun event_bytes :: "wevent \<Rightarrow> byte list" where
  "event_bytes (Chunk bs) = bs"
| "event_bytes _ = []"

definition delivered :: "writer \<Rightarrow> byte list" where
  "delivered w = concat (map event_bytes (sent w))"

definition byte_inv :: "copy_buffer \<Rightarrow> reader \<Rightarrow> writer \<Rightarrow> bool" where
  "byte_inv cb r w \<longleftrightarrow> pos cb \<le> cap cb \<and> cap cb \<le> length (buf cb) \<and>
     delivered w @ pending_bytes cb = concat (reads r) \<and> amt cb = of_nat (length (delivered w))"

lemma poll_fill_buf_cases:
  assumes "poll_fill_buf cb r = (res, cb', r')" and "cap cb \<le> length (buf cb)"
  obtains (none) "cb' = cb" "reads r' = reads r"
  | (some) bs where "length bs \<le> length (buf cb) - cap cb"
      "cb' = cb\<lparr>buf := take (cap cb) (buf cb) @ bs @ drop (cap cb + length bs) (buf cb),
         read_done := (cap cb = cap cb + length bs), cap := cap cb + length bs\<rparr>"
      "reads r' = reads r @ (if bs = [] then [] else [bs])"
proof (cases "rscript r")
  case Nil
  with assms(1) show ?thesis by (intro none) (simp_all add: poll_fill_buf_def poll_read_def)
next
  case (Cons x xs)
  show ?thesis
  proof (cases x)
    case (RData bs)
    with Cons assms(1) show ?thesis
      by (intro some [of "take (length (buf cb) - cap cb) bs"])
        (auto simp: poll_fill_buf_def poll_read_def Let_def)
  qed (use Cons assms(1) in \<open>auto simp: poll_fill_buf_def poll_read_def intro: none\<close>)
qed

lemma poll_write_delivered:
  "poll_write d w = (res, w') \<Longrightarrow>
     delivered w' = delivered w @ (case res of Ready (Inr i) \<Rightarrow> take i d | _ \<Rightarrow> [])"
  "poll_write d w = (Ready (Inr i), w') \<Longrightarrow> i \<le> length d"
  by (auto simp: poll_write_def delivered_def min_def split: list.splits wr.splits)

lemma poll_flush_delivered: "poll_flush w = (res, w') \<Longrightarrow> delivered w' = delivered w"
  by (auto simp: poll_flush_def delivered_def split: list.splits fl.splits)

lemma byte_inv_fill:
  assumes inv: "byte_inv cb r w" and f: "poll_fill_buf cb r = (res, cb', r')"
  shows "byte_inv cb' r' w"
proof -
  have le: "cap cb \<le> length (buf cb)" using inv by (simp add: byte_inv_def)
  from f le show ?thesis
  proof (cases rule: poll_fill_buf_cases)
    case none
    with inv show ?thesis by (simp add: byte_inv_def)
  next
    case (some bs)
    have "take (cap cb + length bs) (take (cap cb) (buf cb) @ bs @ drop (cap cb + length bs) (buf cb)) =
        take (cap cb) (buf cb) @ bs" using le by (simp add: min_absorb2)
    moreover have "drop (pos cb) (take (cap cb) (buf cb) @ bs) = pending_bytes cb @ bs"
      using inv by (simp add: byte_inv_def min_absorb2)
    ultimately have "pending_bytes cb' = pending_bytes cb @ bs" by (simp add: some(2))
    moreover have "concat (reads r') = concat (reads r) @ bs" by (simp add: some(3))
    moreover have "length (buf cb') = length (buf cb)" using some(1) le by (simp add: some(2))
    ultimately show ?thesis using inv some(1) by (auto simp: byte_inv_def some(2))
  qed
qed

lemma byte_inv_write:
  assumes inv: "byte_inv cb r w" and pw: "poll_write (pending_bytes cb) w = (Ready (Inr i), w')"
  shows "byte_inv (after_write i cb) r w'"
proof -
  have i: "i \<le> length (pending_bytes cb)" using pw by (rule poll_write_delivered(2))
  have d: "delivered w' = delivered w @ take i (pending_bytes cb)" using poll_write_delivered(1) [OF pw] by simp
  have "take i (pending_bytes cb) @ drop (pos cb + i) (take (cap cb) (buf cb)) = pending_bytes cb"
    by (metis add.commute append_take_drop_id drop_drop)
  then have "delivered w' @ pending_bytes (after_write i cb) = concat (reads r)"
    using inv d by (simp add: byte_inv_def after_write_def del: take_drop)
  moreover have "length (delivered w') = length (delivered w) + i" using d i by simp
  ultimately show ?thesis using inv i by (auto simp: byte_inv_def after_write_def)
qed

interpretation bytes: copy_invariant byte_inv
proof
  fix cb r w res cb' r' assume "byte_inv cb r w" "poll_fill_buf cb r = (res, cb', r')"
  then show "byte_inv cb' r' w" by (rule byte_inv_fill)
next
  fix cb r w assume "byte_inv cb r w" "pos cb = cap cb"
  then show "byte_inv (cb\<lparr>pos := 0, cap := 0\<rparr>) r w" by (simp add: byte_inv_def)
next
  fix cb r w i w' assume h: "byte_inv cb r w" "poll_write (pending_bytes cb) w = (Ready (Inr i), w')"
  then have "byte_inv (after_write i cb) r w'" by (rule byte_inv_write)
  moreover have "byte_inv cb r w'" if "i = 0"
    using h poll_write_delivered(1) [OF h(2)] that by (simp add: byte_inv_def)
  ultimately show "byte_inv (after_write i cb) r w' \<and> (i = 0 \<longrightarrow> byte_inv cb r w')" by blast
next
  fix cb r w d w' e
  assume "byte_inv cb r w" "poll_write d w = (Pending, w') \<or> poll_write d w = (Ready (Inl e), w')"
  then show "byte_inv cb r w'" by (auto simp: byte_inv_def dest!: poll_write_delivered(1))
next
  fix cb r w u w' assume "byte_inv cb r w" "poll_flush w = (Ready (Inr u), w')"
  then show "byte_inv cb r w' \<and> byte_inv (cb\<lparr>need_flush := False\<rparr>) r w'"
    by (auto simp: byte_inv_def dest: poll_flush_delivered)
next
  fix cb r w w' e
  assume "byte_inv cb r w" "poll_flush w = (Pending, w') \<or> poll_flush w = (Ready (Inl e), w')"
  then show "byte_inv cb r w'" by (auto simp: byte_inv_def dest: poll_flush_delivered)
qed

text \<open>A copy completes only from its last phase.\<close>

lemma write_loop_stop: "write_loop cb r w = Stop res st \<Longrightarrow> res \<noteq> Ready (Inr n)"
proof (induction cb r w rule: write_loop.induct)
  case (1 cb r w)
  show ?case
  proof (cases "pos cb < cap cb")
    case True
    with 1 show ?thesis unfolding write_loop.simps [of cb r w]
      by (auto split: prod.splits poll.splits sum.splits if_splits)
  qed (use "1.prems" in \<open>simp add: write_loop.simps [of cb r w]\<close>)
qed

lemma copy_iteration_done:
  assumes "copy_iteration (cb, r, w) = Stop (Ready (Inr n)) (cb', r', w')"
  shows "n = amt cb' \<and> pos cb' = cap cb' \<and> read_done cb' \<and> last (sent w') = Flushed"
proof -
  obtain s1 where s1: "datagram_flush cb r w = Go s1"
    using assms by (cases "datagram_flush cb r w")
      (auto simp: copy_iteration_def datagram_flush_def split: if_splits prod.splits poll.splits sum.splits)
  obtain cb1 r1 w1 where e1: "s1 = (cb1, r1, w1)" by (cases s1)
  have rest: "go_bind (fill_empty cb1 r1 w1) (\<lambda>(cb, r, w). go_bind (write_loop cb r w) (\<lambda>(cb, r, w). copy_finish cb r w)) =
      Stop (Ready (Inr n)) (cb', r', w')"
    using assms by (simp add: copy_iteration_def s1 e1)
  obtain s2 where s2: "fill_empty cb1 r1 w1 = Go s2"
    using rest by (cases "fill_empty cb1 r1 w1")
      (auto simp: fill_empty_def split: if_splits prod.splits poll.splits sum.splits)
  obtain cb2 r2 w2 where e2: "s2 = (cb2, r2, w2)" by (cases s2)
  obtain s3 where s3: "write_loop cb2 r2 w2 = Go s3"
    using rest by (cases "write_loop cb2 r2 w2") (auto simp: s2 e2 dest: write_loop_stop)
  obtain cb3 r3 w3 where e3: "s3 = (cb3, r3, w3)" by (cases s3)
  have "copy_finish cb3 r3 w3 = Stop (Ready (Inr n)) (cb', r', w')"
    using rest by (simp add: s2 e2 s3 e3)
  then show ?thesis
    by (auto simp: copy_finish_def poll_flush_def split: if_splits prod.splits poll.splits sum.splits list.splits fl.splits)
qed

lemma poll_copy_done:
  "poll_copy (cb, r, w) = (Ready (Inr n), cb', r', w') \<Longrightarrow>
     n = amt cb' \<and> pos cb' = cap cb' \<and> read_done cb' \<and> last (sent w') = Flushed"
proof (induction "(cb, r, w)" arbitrary: cb r w rule: poll_copy.induct)
  case 1
  show ?case
  proof (cases "copy_iteration (cb, r, w)")
    case (Stop res st)
    with "1.prems" show ?thesis by (auto simp: poll_copy.simps [of "(cb, r, w)"] dest: copy_iteration_done)
  next
    case (Go s)
    obtain cb1 r1 w1 where s: "s = (cb1, r1, w1)" by (cases s)
    with "1.hyps" [OF Go [unfolded s]] "1.prems" Go s show ?thesis by (simp add: poll_copy.simps [of "(cb, r, w)"])
  qed
qed

section \<open>Datagrams are not merged\<close>

text \<open>What the writer's peer sees: the non-empty groups of bytes between flushes, and the open group.\<close>

fun frame_step :: "byte list list \<times> byte list \<Rightarrow> wevent \<Rightarrow> byte list list \<times> byte list" where
  "frame_step (fs, g) (Chunk bs) = (fs, g @ bs)"
| "frame_step (fs, g) Flushed = (if g = [] then (fs, []) else (fs @ [g], []))"
| "frame_step (fs, g) Shut = (fs, g)"

definition framing :: "wevent list \<Rightarrow> byte list list \<times> byte list" where
  "framing evs = foldl frame_step ([], []) evs"

lemma framing_Nil [simp]: "framing [] = ([], [])"
  by (simp add: framing_def)

lemma framing_snoc [simp]: "framing (evs @ [e]) = frame_step (framing evs) e"
  by (simp add: framing_def)

text \<open>\<open>grouped ds fs\<close>: the frames \<open>fs\<close> are the datagrams \<open>ds\<close>, each cut into consecutive frames.\<close>

definition grouped :: "byte list list \<Rightarrow> byte list list \<Rightarrow> bool" where
  "grouped ds fs \<longleftrightarrow> (\<exists>gs. concat gs = fs \<and> map concat gs = ds)"

lemma grouped_Nil [simp]: "grouped [] []"
  by (simp add: grouped_def)

lemma grouped_snoc: "grouped ds fs \<Longrightarrow> grouped (ds @ [concat cur]) (fs @ cur)"
  unfolding grouped_def by (elim exE, rule_tac x = "gs @ [cur]" in exI) auto

text \<open>
  \<open>in_progress d x rs (fs, g)\<close>: all reads but the one in the buffer, \<open>d\<close>, are cut into frames, and \<open>x\<close> of \<open>d\<close> is
  in further frames and in the open group.
\<close>

definition in_progress :: "byte list \<Rightarrow> byte list \<Rightarrow> byte list list \<Rightarrow> byte list list \<times> byte list \<Rightarrow> bool" where
  "in_progress d x rs fr \<longleftrightarrow> (\<exists>ds f cur. grouped ds f \<and> fst fr = f @ cur \<and>
     (if d = [] then rs = ds \<and> cur = [] \<and> snd fr = [] else rs = ds @ [d] \<and> concat cur @ snd fr = x))"

lemma in_progress_Nil: "in_progress [] x rs fr \<longleftrightarrow> grouped rs (fst fr) \<and> snd fr = []"
  by (auto simp: in_progress_def)

lemma in_progress_read: "in_progress [] x rs fr \<Longrightarrow> d \<noteq> [] \<Longrightarrow> in_progress d [] (rs @ [d]) fr"
  unfolding in_progress_Nil in_progress_def
  by (intro exI [of _ rs] exI [of _ "fst fr"] exI [of _ "[]"]) simp

lemma in_progress_done: "in_progress d d rs fr \<Longrightarrow> snd fr = [] \<Longrightarrow> grouped rs (fst fr)"
  by (auto simp: in_progress_def dest: grouped_snoc split: if_splits)

lemma in_progress_write:
  "in_progress d x rs fr \<Longrightarrow> d \<noteq> [] \<Longrightarrow> fst fr' = fst fr \<Longrightarrow> snd fr' = snd fr @ y \<Longrightarrow> in_progress d (x @ y) rs fr'"
  by (auto simp: in_progress_def)

lemma in_progress_flush:
  assumes "in_progress d x rs fr" and "snd fr \<noteq> []" and "fst fr' = fst fr @ [snd fr]" and "snd fr' = []"
  shows "in_progress d x rs fr'"
proof -
  from assms(1,2) obtain ds f cur where "grouped ds f" "fst fr = f @ cur" "d \<noteq> []" "rs = ds @ [d]" "concat cur @ snd fr = x"
    by (auto simp: in_progress_def split: if_splits)
  with assms(3,4) show ?thesis unfolding in_progress_def
    by (intro exI [of _ ds] exI [of _ f] exI [of _ "cur @ [snd fr]"]) simp
qed

definition dg_inv :: "copy_buffer \<Rightarrow> reader \<Rightarrow> writer \<Rightarrow> bool" where
  "dg_inv cb r w \<longleftrightarrow> datagram cb \<and> pos cb \<le> cap cb \<and> cap cb \<le> length (buf cb) \<and> (read_done cb \<longrightarrow> cap cb = 0) \<and>
     (snd (framing (sent w)) \<noteq> [] \<longrightarrow> need_flush cb) \<and>
     in_progress (take (cap cb) (buf cb)) (take (pos cb) (buf cb)) (reads r) (framing (sent w))"

lemma dg_inv_fill:
  assumes inv: "dg_inv cb r w" and c: "cap cb = 0" and f: "poll_fill_buf cb r = (res, cb', r')"
  shows "dg_inv cb' r' w"
proof -
  have "cap cb \<le> length (buf cb)" using c by simp
  with f show ?thesis
  proof (cases rule: poll_fill_buf_cases)
    case none
    with inv show ?thesis by (simp add: dg_inv_def)
  next
    case (some bs)
    with inv c have "in_progress bs [] (reads r') (framing (sent w))"
      by (cases "bs = []") (auto simp: dg_inv_def intro: in_progress_read)
    then show ?thesis using inv c some by (auto simp: dg_inv_def)
  qed
qed

lemma dg_inv_reset:
  assumes inv: "dg_inv cb r w" and p: "pos cb = cap cb" and nf: "\<not> need_flush cb"
  shows "dg_inv (cb\<lparr>pos := 0, cap := 0\<rparr>) r w"
proof -
  from inv nf have o: "snd (framing (sent w)) = []" by (auto simp: dg_inv_def)
  with inv p have "grouped (reads r) (fst (framing (sent w)))" by (auto simp: dg_inv_def intro: in_progress_done)
  with inv o show ?thesis by (simp add: dg_inv_def in_progress_Nil)
qed

lemma poll_write_framing:
  "poll_write d w = (res, w') \<Longrightarrow> fst (framing (sent w')) = fst (framing (sent w)) \<and>
     snd (framing (sent w')) = snd (framing (sent w)) @ (case res of Ready (Inr i) \<Rightarrow> take i d | _ \<Rightarrow> [])"
  by (cases "framing (sent w)") (auto simp: poll_write_def min_def split: list.splits wr.splits)

lemma poll_write_none:
  "poll_write d w = (Pending, w') \<or> poll_write d w = (Ready (Inl e), w') \<Longrightarrow> sent w' = sent w"
  by (auto simp: poll_write_def split: list.splits wr.splits)

lemma poll_flush_framing:
  "poll_flush w = (Ready (Inr u), w') \<Longrightarrow> framing (sent w') =
     (if snd (framing (sent w)) = [] then framing (sent w) else (fst (framing (sent w)) @ [snd (framing (sent w))], []))"
  "poll_flush w = (Pending, w') \<or> poll_flush w = (Ready (Inl e), w') \<Longrightarrow> sent w' = sent w"
  by (cases "framing (sent w)"; auto simp: poll_flush_def split: list.splits fl.splits)+

lemma dg_inv_write:
  assumes inv: "dg_inv cb r w" and lt: "pos cb < cap cb"
    and pw: "poll_write (pending_bytes cb) w = (Ready (Inr i), w')"
  shows "dg_inv (after_write i cb) r w' \<and> (i = 0 \<longrightarrow> dg_inv cb r w')"
proof -
  have i: "i \<le> length (pending_bytes cb)" using pw by (rule poll_write_delivered(2))
  note fr = poll_write_framing [OF pw]
  have le: "pos cb + i \<le> cap cb" using i lt inv by (auto simp: dg_inv_def)
  have tk: "take (pos cb) (buf cb) @ take i (pending_bytes cb) = take (pos cb + i) (buf cb)"
    using le by (simp add: take_add drop_take min_absorb1)
  have ne: "take (cap cb) (buf cb) \<noteq> []" using inv lt by (auto simp: dg_inv_def)
  have "in_progress (take (cap cb) (buf cb)) (take (pos cb) (buf cb) @ take i (pending_bytes cb)) (reads r) (framing (sent w'))"
    using inv fr ne by (intro in_progress_write [where fr = "framing (sent w)"]) (auto simp: dg_inv_def)
  then have "in_progress (take (cap cb) (buf cb)) (take (pos cb + i) (buf cb)) (reads r) (framing (sent w'))"
    by (simp only: tk)
  with inv lt le fr show ?thesis by (auto simp: dg_inv_def after_write_def)
qed

lemma dg_inv_flush:
  assumes inv: "dg_inv cb r w" and fl: "poll_flush w = (Ready (Inr u), w')"
  shows "dg_inv (cb\<lparr>need_flush := b\<rparr>) r w'"
proof (cases "snd (framing (sent w)) = []")
  case True
  with inv poll_flush_framing(1) [OF fl] show ?thesis by (simp add: dg_inv_def)
next
  case False
  then have fr: "framing (sent w') = (fst (framing (sent w)) @ [snd (framing (sent w))], [])"
    using poll_flush_framing(1) [OF fl] by simp
  have "in_progress (take (cap cb) (buf cb)) (take (pos cb) (buf cb)) (reads r) (framing (sent w))"
    using inv by (simp only: dg_inv_def)
  then have "in_progress (take (cap cb) (buf cb)) (take (pos cb) (buf cb)) (reads r) (framing (sent w'))"
    using False by (rule in_progress_flush) (simp_all add: fr)
  with inv fr show ?thesis by (simp add: dg_inv_def)
qed

interpretation datagrams: copy_invariant dg_inv
proof
  fix cb r w res cb' r'
  assume inv: "dg_inv cb r w" and c: "datagram cb \<Longrightarrow> cap cb = 0" and f: "poll_fill_buf cb r = (res, cb', r')"
  from inv c have "cap cb = 0" by (simp add: dg_inv_def)
  with inv show "dg_inv cb' r' w" using f by (rule dg_inv_fill)
next
  fix cb r w assume inv: "dg_inv cb r w" and p: "pos cb = cap cb" and nf: "datagram cb \<Longrightarrow> \<not> need_flush cb"
  from inv nf have "\<not> need_flush cb" by (simp add: dg_inv_def)
  with inv p show "dg_inv (cb\<lparr>pos := 0, cap := 0\<rparr>) r w" by (rule dg_inv_reset)
next
  fix cb r w i w'
  assume "dg_inv cb r w" "pos cb < cap cb" "poll_write (pending_bytes cb) w = (Ready (Inr i), w')"
  then show "dg_inv (after_write i cb) r w' \<and> (i = 0 \<longrightarrow> dg_inv cb r w')" by (rule dg_inv_write)
next
  fix cb r w d w' e
  assume "dg_inv cb r w" "poll_write d w = (Pending, w') \<or> poll_write d w = (Ready (Inl e), w')"
  then show "dg_inv cb r w'" by (simp add: dg_inv_def poll_write_none)
next
  fix cb r w u w' assume "dg_inv cb r w" "poll_flush w = (Ready (Inr u), w')"
  then show "dg_inv cb r w' \<and> dg_inv (cb\<lparr>need_flush := False\<rparr>) r w'"
    using dg_inv_flush [of cb r w u w' "need_flush cb"] dg_inv_flush by auto
next
  fix cb r w w' e
  assume "dg_inv cb r w" "poll_flush w = (Pending, w') \<or> poll_flush w = (Ready (Inl e), w')"
  then show "dg_inv cb r w'" by (simp add: dg_inv_def poll_flush_framing(2))
qed

section \<open>One direction\<close>

datatype transfer_state = Running copy_buffer | ShuttingDown u64 | Done u64

definition shut_direction :: "u64 \<Rightarrow> reader \<Rightarrow> writer \<Rightarrow> u64 io \<times> transfer_state \<times> reader \<times> writer" where
  "shut_direction n r w =
     (case poll_shutdown w of
        (Pending, w') \<Rightarrow> (Pending, ShuttingDown n, r, w')
      | (Ready (Inl e), w') \<Rightarrow> (Ready (Inl e), ShuttingDown n, r, w')
      | (Ready (Inr _), w') \<Rightarrow> (Ready (Inr n), Done n, r, w'))"

fun transfer_one_direction ::
  "transfer_state \<Rightarrow> reader \<Rightarrow> writer \<Rightarrow> u64 io \<times> transfer_state \<times> reader \<times> writer" where
  "transfer_one_direction (Running cb) r w =
     (case poll_copy (cb, r, w) of
        (Pending, cb', r', w') \<Rightarrow> (Pending, Running cb', r', w')
      | (Ready (Inl e), cb', r', w') \<Rightarrow> (Ready (Inl e), Running cb', r', w')
      | (Ready (Inr n), cb', r', w') \<Rightarrow> shut_direction n r' w')"
| "transfer_one_direction (ShuttingDown n) r w = shut_direction n r w"
| "transfer_one_direction (Done n) r w = (Ready (Inr n), Done n, r, w)"

section \<open>Both directions\<close>

record duplex =
  a_to_b :: transfer_state
  b_to_a :: transfer_state
  a_reader :: reader
  a_writer :: writer
  b_reader :: reader
  b_writer :: writer

definition duplex_new :: "nat \<Rightarrow> nat \<Rightarrow> bool \<Rightarrow> reader \<Rightarrow> writer \<Rightarrow> reader \<Rightarrow> writer \<Rightarrow> duplex" where
  "duplex_new a_size b_size dg ar aw br bw =
     \<lparr>a_to_b = Running (copy_buffer_new a_size dg), b_to_a = Running (copy_buffer_new b_size dg),
      a_reader = ar, a_writer = aw, b_reader = br, b_writer = bw\<rparr>"

definition run_a_to_b :: "duplex \<Rightarrow> u64 io \<times> duplex" where
  "run_a_to_b d = (let (res, st, r, w) = transfer_one_direction (a_to_b d) (a_reader d) (b_writer d)
     in (res, d\<lparr>a_to_b := st, a_reader := r, b_writer := w\<rparr>))"

definition run_b_to_a :: "duplex \<Rightarrow> u64 io \<times> duplex" where
  "run_b_to_a d = (let (res, st, r, w) = transfer_one_direction (b_to_a d) (b_reader d) (a_writer d)
     in (res, d\<lparr>b_to_a := st, b_reader := r, a_writer := w\<rparr>))"

fun is_running :: "transfer_state \<Rightarrow> bool" where
  "is_running (Running _) = True" | "is_running _ = False"

fun is_done :: "transfer_state \<Rightarrow> bool" where
  "is_done (Done _) = True" | "is_done _ = False"

fun begin_shutdown :: "transfer_state \<Rightarrow> transfer_state" where
  "begin_shutdown (Running cb) = ShuttingDown (amt cb)"
| "begin_shutdown st = st"

definition abort_sides :: "bool \<Rightarrow> bool \<Rightarrow> duplex \<Rightarrow> duplex" where
  "abort_sides abort_a abort_b d =
     (let d = (if abort_a then d\<lparr>a_to_b := begin_shutdown (a_to_b d)\<rparr> else d)
      in if abort_b then d\<lparr>b_to_a := begin_shutdown (b_to_a d)\<rparr> else d)"

definition finish_a_to_b :: "u64 io \<Rightarrow> duplex \<Rightarrow> u64 io \<times> duplex" where
  "finish_a_to_b ra d =
     (if is_done (b_to_a d) \<and> is_running (a_to_b d)
      then run_a_to_b (d\<lparr>a_to_b := begin_shutdown (a_to_b d)\<rparr>) else (ra, d))"

definition finish_b_to_a :: "u64 io \<Rightarrow> duplex \<Rightarrow> u64 io \<times> duplex" where
  "finish_b_to_a rb d =
     (if is_done (a_to_b d) \<and> is_running (b_to_a d)
      then run_b_to_a (d\<lparr>b_to_a := begin_shutdown (b_to_a d)\<rparr>) else (rb, d))"

fun both_ready :: "u64 io \<Rightarrow> u64 io \<Rightarrow> (u64 \<times> u64) io" where
  "both_ready (Ready (Inr n)) (Ready (Inr m)) = Ready (Inr (n, m))"
| "both_ready _ _ = Pending"

fun io_failed :: "'a io \<Rightarrow> io_error option" where
  "io_failed (Ready (Inl e)) = Some e"
| "io_failed _ = None"

text \<open>
  One poll of the future of \<open>copy_duplex_abortable_with_datagram\<close>; \<open>abort_a\<close> and \<open>abort_b\<close> say whether the
  abort handles have fired by now. An error of a direction ends the poll at once.
\<close>

definition duplex_poll :: "bool \<Rightarrow> bool \<Rightarrow> duplex \<Rightarrow> (u64 \<times> u64) io \<times> duplex" where
  "duplex_poll abort_a abort_b d =
     (case run_a_to_b d of (ra, d1) \<Rightarrow>
      (case io_failed ra of Some e \<Rightarrow> (Ready (Inl e), d1) | None \<Rightarrow>
      (case run_b_to_a d1 of (rb, d2) \<Rightarrow>
      (case io_failed rb of Some e \<Rightarrow> (Ready (Inl e), d2) | None \<Rightarrow>
      (case finish_a_to_b ra (abort_sides abort_a abort_b d2) of (ra', d3) \<Rightarrow>
      (case io_failed ra' of Some e \<Rightarrow> (Ready (Inl e), d3) | None \<Rightarrow>
      (case finish_b_to_a rb d3 of (rb', d4) \<Rightarrow>
      (case io_failed rb' of Some e \<Rightarrow> (Ready (Inl e), d4) | None \<Rightarrow>
        (both_ready ra' rb', d4)))))))))"

text \<open>
  \<open>transfer_session_inner\<close>: equal buffers in both directions, and only the stream side can be aborted, by the
  optional registration whose handle has fired or not.
\<close>

definition transfer_session_new :: "nat \<Rightarrow> bool \<Rightarrow> reader \<Rightarrow> writer \<Rightarrow> reader \<Rightarrow> writer \<Rightarrow> duplex" where
  "transfer_session_new max_buffer dg ar aw br bw = duplex_new max_buffer max_buffer dg ar aw br bw"

definition transfer_session_poll :: "bool option \<Rightarrow> duplex \<Rightarrow> (usize \<times> usize) io \<times> duplex" where
  "transfer_session_poll abort_stream d =
     duplex_poll False (case abort_stream of None \<Rightarrow> False | Some fired \<Rightarrow> fired) d"

section \<open>Adapters\<close>

text \<open>\<open>DuplexIO\<close>: reads go to the reader half, writes, flushes and closes to the writer half.\<close>

definition duplex_io_read :: "nat \<Rightarrow> writer \<times> reader \<Rightarrow> byte list io \<times> writer \<times> reader" where
  "duplex_io_read space = (\<lambda>(w, r). let (res, r') = poll_read space r in (res, w, r'))"

definition duplex_io_write :: "byte list \<Rightarrow> writer \<times> reader \<Rightarrow> nat io \<times> writer \<times> reader" where
  "duplex_io_write data = (\<lambda>(w, r). let (res, w') = poll_write data w in (res, w', r))"

definition duplex_io_flush :: "writer \<times> reader \<Rightarrow> unit io \<times> writer \<times> reader" where
  "duplex_io_flush = (\<lambda>(w, r). let (res, w') = poll_flush w in (res, w', r))"

definition duplex_io_close :: "writer \<times> reader \<Rightarrow> unit io \<times> writer \<times> reader" where
  "duplex_io_close = (\<lambda>(w, r). let (res, w') = poll_shutdown w in (res, w', r))"

text \<open>
  \<open>SocketAddrStr\<close> caches the printed address, cut to its array; equality (and hashing) only look at the
  address. The printer of \<open>std\<close> is a parameter.
\<close>

definition SOCKET_ADDRESS_MAX_LEN :: nat where
  "SOCKET_ADDRESS_MAX_LEN = 52"

definition socket_addr_str :: "('addr \<Rightarrow> string) \<Rightarrow> 'addr \<Rightarrow> 'addr \<times> string" where
  "socket_addr_str to_string value = (value, take SOCKET_ADDRESS_MAX_LEN (to_string value))"

definition socket_addr_str_eq :: "'addr \<times> string \<Rightarrow> 'addr \<times> string \<Rightarrow> bool" where
  "socket_addr_str_eq x y \<longleftrightarrow> fst x = fst y"

lemma socket_addr_str_cache:
  assumes "socket_addr_str_eq (socket_addr_str pr a) (socket_addr_str pr b)"
  shows "snd (socket_addr_str pr a) = snd (socket_addr_str pr b) \<and> length (snd (socket_addr_str pr a)) \<le> 52"
  using assms by (simp add: socket_addr_str_eq_def socket_addr_str_def SOCKET_ADDRESS_MAX_LEN_def)

text \<open>\<open>AsyncReadStreamer\<close>: one read of at most \<open>S\<close> bytes per item, an empty read ends the stream.\<close>

definition read_streamer_next :: "nat \<Rightarrow> reader \<Rightarrow> (io_error + byte list) option poll \<times> reader" where
  "read_streamer_next S r =
     (case poll_read S r of
        (Pending, r') \<Rightarrow> (Pending, r')
      | (Ready (Inr bs), r') \<Rightarrow> (Ready (if length bs = 0 then None else Some (Inr bs)), r')
      | (Ready (Inl e), r') \<Rightarrow> (Ready (Some (Inl e)), r'))"

text \<open>\<open>AsyncWriteSink\<close>: one packet of at most \<open>C\<close> bytes per write; the sink is a parameter.\<close>

definition write_sink_poll_write ::
  "nat \<Rightarrow> ('s \<Rightarrow> unit io \<times> 's) \<Rightarrow> (byte list \<Rightarrow> 's \<Rightarrow> (io_error + unit) \<times> 's) \<Rightarrow> byte list \<Rightarrow> 's \<Rightarrow> nat io \<times> 's" where
  "write_sink_poll_write C poll_ready start_send data s =
     (case poll_ready s of
        (Pending, s') \<Rightarrow> (Pending, s')
      | (Ready (Inl e), s') \<Rightarrow> (Ready (Inl e), s')
      | (Ready (Inr _), s') \<Rightarrow>
          (let len = min (length data) C in
           case start_send (take len data) s' of
             (Inr _, s'') \<Rightarrow> (Ready (Inr len), s'')
           | (Inl e, s'') \<Rightarrow> (Ready (Inl e), s'')))"

section \<open>Lemmas: directions\<close>

fun dir_inv :: "transfer_state \<Rightarrow> reader \<Rightarrow> writer \<Rightarrow> bool" where
  "dir_inv (Running cb) r w = byte_inv cb r w"
| "dir_inv (ShuttingDown n) r w =
     (n = of_nat (length (delivered w)) \<and> prefix (delivered w) (concat (reads r)))"
| "dir_inv (Done n) r w =
     (n = of_nat (length (delivered w)) \<and> prefix (delivered w) (concat (reads r)) \<and> Shut \<in> set (sent w))"

lemma byte_inv_prefix: "byte_inv cb r w \<Longrightarrow> prefix (delivered w) (concat (reads r))"
  unfolding byte_inv_def prefix_def by metis

lemma dir_inv_begin_shutdown: "dir_inv st r w \<Longrightarrow> dir_inv (begin_shutdown st) r w"
  by (cases st) (auto simp: byte_inv_prefix, simp add: byte_inv_def)

lemma shut_direction_inv:
  assumes "shut_direction n r w = (res, st, r', w')" and "dir_inv (ShuttingDown n) r w"
  shows "dir_inv st r' w' \<and> (\<forall>m. res = Ready (Inr m) \<longrightarrow> st = Done m) \<and> \<not> is_running st"
  using assms
  by (auto simp: shut_direction_def poll_shutdown_def delivered_def split: list.splits fl.splits)

lemma transfer_one_direction_inv:
  assumes "transfer_one_direction st r w = (res, st', r', w')" and "dir_inv st r w"
  shows "dir_inv st' r' w' \<and> (\<forall>m. res = Ready (Inr m) \<longrightarrow> st' = Done m) \<and> (\<not> is_running st \<longrightarrow> \<not> is_running st')"
proof (cases st)
  case (Running cb)
  obtain res1 cb1 r1 w1 where c: "poll_copy (cb, r, w) = (res1, cb1, r1, w1)" by (cases "poll_copy (cb, r, w)")
  have inv: "byte_inv cb1 r1 w1" using bytes.poll_copy_inv [OF c] assms(2) Running by simp
  show ?thesis
  proof (cases "\<exists>n. res1 = Ready (Inr n)")
    case True
    then obtain n where n: "res1 = Ready (Inr n)" by blast
    with poll_copy_done c have "n = amt cb1" by blast
    with inv have "dir_inv (ShuttingDown n) r1 w1" by (auto intro: byte_inv_prefix) (simp add: byte_inv_def)
    moreover have "shut_direction n r1 w1 = (res, st', r', w')" using assms(1) Running c n by simp
    ultimately show ?thesis using shut_direction_inv Running by fastforce
  next
    case False
    with assms(1) Running c inv show ?thesis by (auto split: poll.splits sum.splits)
  qed
next
  case (ShuttingDown n)
  with assms shut_direction_inv [of n r w res st' r' w'] show ?thesis by simp
next
  case (Done n)
  with assms show ?thesis by auto
qed

text \<open>Not running is kept without any assumption.\<close>

lemma transfer_one_direction_stays:
  "transfer_one_direction st r w = (res, st', r', w') \<Longrightarrow> \<not> is_running st \<Longrightarrow> \<not> is_running st'"
  by (cases st) (auto simp: shut_direction_def split: prod.splits poll.splits sum.splits)

definition duplex_inv :: "duplex \<Rightarrow> bool" where
  "duplex_inv d \<longleftrightarrow> dir_inv (a_to_b d) (a_reader d) (b_writer d) \<and> dir_inv (b_to_a d) (b_reader d) (a_writer d)"

lemma run_a_to_b_frame:
  "run_a_to_b d = (res, d') \<Longrightarrow> b_to_a d' = b_to_a d \<and> b_reader d' = b_reader d \<and> a_writer d' = a_writer d \<and>
     (\<not> is_running (a_to_b d) \<longrightarrow> \<not> is_running (a_to_b d'))"
  by (auto simp: run_a_to_b_def split: prod.splits dest: transfer_one_direction_stays)

lemma run_b_to_a_frame:
  "run_b_to_a d = (res, d') \<Longrightarrow> a_to_b d' = a_to_b d \<and> a_reader d' = a_reader d \<and> b_writer d' = b_writer d \<and>
     (\<not> is_running (b_to_a d) \<longrightarrow> \<not> is_running (b_to_a d'))"
  by (auto simp: run_b_to_a_def split: prod.splits dest: transfer_one_direction_stays)

lemma run_a_to_b_inv:
  "run_a_to_b d = (res, d') \<Longrightarrow> duplex_inv d \<Longrightarrow> duplex_inv d' \<and> (\<forall>n. res = Ready (Inr n) \<longrightarrow> a_to_b d' = Done n)"
  by (auto simp: run_a_to_b_def duplex_inv_def split: prod.splits dest: transfer_one_direction_inv)

lemma run_b_to_a_inv:
  "run_b_to_a d = (res, d') \<Longrightarrow> duplex_inv d \<Longrightarrow> duplex_inv d' \<and> (\<forall>n. res = Ready (Inr n) \<longrightarrow> b_to_a d' = Done n)"
  by (auto simp: run_b_to_a_def duplex_inv_def split: prod.splits dest: transfer_one_direction_inv)

lemma begin_shutdown_simps [simp]:
  "\<not> is_running (begin_shutdown st)" "begin_shutdown (Done n) = Done n"
  by (cases st) auto

lemma abort_sides_inv: "duplex_inv d \<Longrightarrow> duplex_inv (abort_sides x y d)"
  by (auto simp: duplex_inv_def abort_sides_def Let_def intro: dir_inv_begin_shutdown)

lemma abort_sides_Done:
  "a_to_b d = Done n \<Longrightarrow> a_to_b (abort_sides x y d) = Done n"
  "b_to_a d = Done n \<Longrightarrow> b_to_a (abort_sides x y d) = Done n"
  by (auto simp: abort_sides_def Let_def)

lemma finish_a_to_b_inv:
  assumes "finish_a_to_b ra d = (ra', d')" and "duplex_inv d" and "\<And>n. ra = Ready (Inr n) \<Longrightarrow> a_to_b d = Done n"
  shows "duplex_inv d' \<and> (\<forall>n. ra' = Ready (Inr n) \<longrightarrow> a_to_b d' = Done n) \<and> b_to_a d' = b_to_a d"
proof (cases "is_done (b_to_a d) \<and> is_running (a_to_b d)")
  case True
  let ?d = "d\<lparr>a_to_b := begin_shutdown (a_to_b d)\<rparr>"
  have "duplex_inv ?d" using assms(2) by (simp add: duplex_inv_def dir_inv_begin_shutdown)
  moreover have "run_a_to_b ?d = (ra', d')" using assms(1) True by (simp add: finish_a_to_b_def)
  ultimately show ?thesis using run_a_to_b_inv run_a_to_b_frame by fastforce
qed (use assms in \<open>auto simp: finish_a_to_b_def\<close>)

lemma finish_b_to_a_inv:
  assumes "finish_b_to_a rb d = (rb', d')" and "duplex_inv d" and "\<And>n. rb = Ready (Inr n) \<Longrightarrow> b_to_a d = Done n"
  shows "duplex_inv d' \<and> (\<forall>n. rb' = Ready (Inr n) \<longrightarrow> b_to_a d' = Done n) \<and> a_to_b d' = a_to_b d"
proof (cases "is_done (a_to_b d) \<and> is_running (b_to_a d)")
  case True
  let ?d = "d\<lparr>b_to_a := begin_shutdown (b_to_a d)\<rparr>"
  have "duplex_inv ?d" using assms(2) by (simp add: duplex_inv_def dir_inv_begin_shutdown)
  moreover have "run_b_to_a ?d = (rb', d')" using assms(1) True by (simp add: finish_b_to_a_def)
  ultimately show ?thesis using run_b_to_a_inv run_b_to_a_frame by fastforce
qed (use assms in \<open>auto simp: finish_b_to_a_def\<close>)

lemma both_ready_iff: "both_ready x y = Ready (Inr (n, m)) \<longleftrightarrow> x = Ready (Inr n) \<and> y = Ready (Inr m)"
  "both_ready x y \<noteq> Ready (Inl e)"
  by (cases "(x, y)" rule: both_ready.cases; auto)+

lemma duplex_poll_inv:
  assumes p: "duplex_poll x y d = (res, d')" and inv: "duplex_inv d"
  shows "duplex_inv d' \<and> (\<forall>n m. res = Ready (Inr (n, m)) \<longrightarrow> a_to_b d' = Done n \<and> b_to_a d' = Done m)"
proof -
  obtain ra d1 where s1: "run_a_to_b d = (ra, d1)" by (cases "run_a_to_b d")
  obtain rb d2 where s2: "run_b_to_a d1 = (rb, d2)" by (cases "run_b_to_a d1")
  obtain ra' d3 where s3: "finish_a_to_b ra (abort_sides x y d2) = (ra', d3)"
    by (cases "finish_a_to_b ra (abort_sides x y d2)")
  obtain rb' d4 where s4: "finish_b_to_a rb d3 = (rb', d4)" by (cases "finish_b_to_a rb d3")
  have i1: "duplex_inv d1" "\<And>n. ra = Ready (Inr n) \<Longrightarrow> a_to_b d1 = Done n" using run_a_to_b_inv [OF s1 inv] by auto
  have i2: "duplex_inv d2" "\<And>n. rb = Ready (Inr n) \<Longrightarrow> b_to_a d2 = Done n" "a_to_b d2 = a_to_b d1"
    using run_b_to_a_inv [OF s2 i1(1)] run_b_to_a_frame [OF s2] by auto
  have "\<And>n. ra = Ready (Inr n) \<Longrightarrow> a_to_b (abort_sides x y d2) = Done n"
    using i1(2) i2(3) by (simp add: abort_sides_Done)
  from finish_a_to_b_inv [OF s3 abort_sides_inv [OF i2(1)] this]
  have i3: "duplex_inv d3" "\<And>n. ra' = Ready (Inr n) \<Longrightarrow> a_to_b d3 = Done n"
    "b_to_a d3 = b_to_a (abort_sides x y d2)" by auto
  have "\<And>n. rb = Ready (Inr n) \<Longrightarrow> b_to_a d3 = Done n" using i2(2) i3(3) by (simp add: abort_sides_Done)
  from finish_b_to_a_inv [OF s4 i3(1) this]
  have i4: "duplex_inv d4" "\<And>n. rb' = Ready (Inr n) \<Longrightarrow> b_to_a d4 = Done n" "a_to_b d4 = a_to_b d3" by auto
  show ?thesis using p i1 i2 i3 i4
    by (auto simp: duplex_poll_def s1 s2 s3 s4 both_ready_iff split: option.splits)
qed

section \<open>Properties\<close>

text \<open>The states of a copy between polls, from a fresh buffer and any endpoints.\<close>

inductive copy_reach :: "nat \<Rightarrow> bool \<Rightarrow> copy_buffer \<Rightarrow> reader \<Rightarrow> writer \<Rightarrow> bool" for sz dg where
  copy_start: "reads r = [] \<Longrightarrow> sent w = [] \<Longrightarrow> copy_reach sz dg (copy_buffer_new sz dg) r w"
| copy_again: "copy_reach sz dg cb r w \<Longrightarrow> poll_copy (cb, r, w) = (Pending, cb', r', w') \<Longrightarrow>
    copy_reach sz dg cb' r' w'"

lemma copy_reach_byte_inv: "copy_reach sz dg cb r w \<Longrightarrow> byte_inv cb r w"
proof (induction rule: copy_reach.induct)
  case (copy_start r w)
  then show ?case by (simp add: byte_inv_def copy_buffer_new_def delivered_def)
next
  case (copy_again cb r w cb' r' w')
  then show ?case by (blast intro: bytes.poll_copy_inv)
qed

lemma copy_reach_dg_inv: "copy_reach sz True cb r w \<Longrightarrow> dg_inv cb r w"
proof (induction rule: copy_reach.induct)
  case (copy_start r w)
  then show ?case by (simp add: dg_inv_def copy_buffer_new_def in_progress_Nil)
next
  case (copy_again cb r w cb' r' w')
  then show ?case by (blast intro: datagrams.poll_copy_inv)
qed

text \<open>C17. Copying keeps the byte stream: whatever the reader and the writer do, at every point what the
  writer accepted is a prefix of what the reader handed over, and when the copy completes it is all of it
  and its length is the returned count.\<close>

theorem copy_preserves_bytes:
  assumes "copy_reach sz dg cb r w" and "poll_copy (cb, r, w) = (res, cb', r', w')"
  shows "prefix (delivered w') (concat (reads r')) \<and>
    (\<forall>n. res = Ready (Inr n) \<longrightarrow> delivered w' = concat (reads r') \<and> n = of_nat (length (delivered w')))"
proof -
  have inv: "byte_inv cb' r' w'" using bytes.poll_copy_inv [OF assms(2) copy_reach_byte_inv [OF assms(1)]] .
  then have "delivered w' = concat (reads r') \<and> n = of_nat (length (delivered w'))" if "res = Ready (Inr n)" for n
    using poll_copy_done [OF assms(2) [unfolded that]] by (auto simp: byte_inv_def)
  with byte_inv_prefix [OF inv] show ?thesis by blast
qed

abbreviation idle_writer :: "wr list \<Rightarrow> fl list \<Rightarrow> writer" where
  "idle_writer ws fs \<equiv> \<lparr>wscript = ws, fscript = fs, sscript = [FOk], sent = []\<rparr>"

abbreviation idle_reader :: "rd list \<Rightarrow> reader" where
  "idle_reader rs \<equiv> \<lparr>rscript = rs, reads = []\<rparr>"

lemmas copy_eval = poll_copy.simps copy_iteration_def datagram_flush_def fill_empty_def poll_fill_buf_def
  poll_read_def write_loop.simps poll_write_buf_def poll_write_def after_write_def copy_finish_def
  poll_flush_def poll_shutdown_def copy_buffer_new_def Let_def

lemma copy_example:
  "poll_copy (copy_buffer_new 2 False, idle_reader [RData [1, 2, 3], RData [4], RData []], idle_writer [WAccept 1, WAccept 5, WAccept 5] [FOk]) =
    (Ready (Inr 3), \<lparr>read_done = True, need_flush = True, datagram = False, pos = 0, cap = 0, amt = 3, buf = [4, 2]\<rparr>,
     \<lparr>rscript = [], reads = [[1, 2], [4]]\<rparr>, \<lparr>wscript = [], fscript = [], sscript = [FOk], sent = [Chunk [1], Chunk [2], Chunk [4], Flushed]\<rparr>)"
  by (simp add: copy_eval)

theorem copy_preserves_bytes_witness:
  "\<exists>cb' r' w'. poll_copy (copy_buffer_new 2 False, idle_reader [RData [1, 2, 3], RData [4], RData []], idle_writer [WAccept 1, WAccept 5, WAccept 5] [FOk]) =
      (Ready (Inr 3), cb', r', w') \<and> delivered w' = concat (reads r')"
  using copy_preserves_bytes [OF copy_start [of _ _ 2 False] copy_example] copy_example by simp

text \<open>C18. A datagram copy never merges datagrams: when it completes, the groups of bytes between flushes are
  the datagrams that were read, in order, each possibly cut into several groups, and nothing is left
  unflushed.\<close>

theorem datagrams_not_merged:
  assumes "copy_reach sz True cb r w" and "poll_copy (cb, r, w) = (Ready (Inr n), cb', r', w')"
  shows "grouped (reads r') (fst (framing (sent w'))) \<and> snd (framing (sent w')) = []"
proof -
  have "dg_inv cb' r' w'" using datagrams.poll_copy_inv [OF assms(2) copy_reach_dg_inv [OF assms(1)]] .
  with poll_copy_done [OF assms(2)] show ?thesis by (auto simp: dg_inv_def in_progress_Nil)
qed

lemma split_example1:
  "poll_copy (copy_buffer_new 8 True, idle_reader [RData [1, 2, 3], RData []], idle_writer [WAccept 1, WPending, WAccept 5] [FOk, FOk, FOk]) =
    (Pending, \<lparr>read_done = False, need_flush = True, datagram = True, pos = 1, cap = 3, amt = 1, buf = [1, 2, 3, 0, 0, 0, 0, 0]\<rparr>,
     \<lparr>rscript = [RData []], reads = [[1, 2, 3]]\<rparr>, \<lparr>wscript = [WAccept 5], fscript = [FOk, FOk, FOk], sscript = [FOk], sent = [Chunk [1]]\<rparr>)"
  by (simp add: copy_eval)

lemma split_example2:
  "poll_copy (\<lparr>read_done = False, need_flush = True, datagram = True, pos = 1, cap = 3, amt = 1, buf = [1, 2, 3, 0, 0, 0, 0, 0]\<rparr>,
     \<lparr>rscript = [RData []], reads = [[1, 2, 3]]\<rparr>, \<lparr>wscript = [WAccept 5], fscript = [FOk, FOk, FOk], sscript = [FOk], sent = [Chunk [1]]\<rparr>) =
    (Ready (Inr 3), \<lparr>read_done = True, need_flush = False, datagram = True, pos = 0, cap = 0, amt = 3, buf = [1, 2, 3, 0, 0, 0, 0, 0]\<rparr>,
     \<lparr>rscript = [], reads = [[1, 2, 3]]\<rparr>, \<lparr>wscript = [], fscript = [], sscript = [FOk], sent = [Chunk [1], Flushed, Chunk [2, 3], Flushed, Flushed]\<rparr>)"
  by (simp add: copy_eval)

lemma split_reach:
  "copy_reach 8 True \<lparr>read_done = False, need_flush = True, datagram = True, pos = 1, cap = 3, amt = 1, buf = [1, 2, 3, 0, 0, 0, 0, 0]\<rparr>
     \<lparr>rscript = [RData []], reads = [[1, 2, 3]]\<rparr> \<lparr>wscript = [WAccept 5], fscript = [FOk, FOk, FOk], sscript = [FOk], sent = [Chunk [1]]\<rparr>"
  by (rule copy_again [OF copy_start split_example1]) simp_all

theorem datagrams_not_merged_witness:
  "grouped [[1, 2, 3]] (fst (framing [Chunk [1], Flushed, Chunk [2, 3], Flushed, Flushed])) \<and>
   snd (framing [Chunk [1], Flushed, Chunk [2, 3], Flushed, Flushed]) = []"
  using datagrams_not_merged [OF split_reach split_example2] by simp


text \<open>C19. No poll leaves the bridge half-open: unless it fails, after it neither direction is still running
  while the other is done.\<close>

theorem duplex_never_half_open:
  assumes "duplex_poll x y d = (res, d')" and "io_failed res = None"
  shows "\<not> (is_done (a_to_b d') \<and> is_running (b_to_a d')) \<and> \<not> (is_done (b_to_a d') \<and> is_running (a_to_b d'))"
proof -
  have disj: "\<not> (is_done st \<and> is_running st)" for st by (cases st) auto
  obtain ra d1 where s1: "run_a_to_b d = (ra, d1)" by (cases "run_a_to_b d")
  obtain rb d2 where s2: "run_b_to_a d1 = (rb, d2)" by (cases "run_b_to_a d1")
  obtain ra' d3 where s3: "finish_a_to_b ra (abort_sides x y d2) = (ra', d3)"
    by (cases "finish_a_to_b ra (abort_sides x y d2)")
  obtain rb' d4 where s4: "finish_b_to_a rb d3 = (rb', d4)" by (cases "finish_b_to_a rb d3")
  have d4: "d' = d4" using assms by (auto simp: duplex_poll_def s1 s2 s3 s4 split: option.splits)
  have a: "\<not> (is_done (b_to_a d3) \<and> is_running (a_to_b d3))"
    using s3 run_a_to_b_frame by (auto simp: finish_a_to_b_def split: if_splits)
  show ?thesis
  proof (cases "is_done (a_to_b d3) \<and> is_running (b_to_a d3)")
    case True
    then have "run_b_to_a (d3\<lparr>b_to_a := begin_shutdown (b_to_a d3)\<rparr>) = (rb', d4)"
      using s4 by (simp add: finish_b_to_a_def)
    from run_b_to_a_frame [OF this] show ?thesis using True disj by (auto simp: d4)
  next
    case False
    then have "d4 = d3" using s4 by (auto simp: finish_b_to_a_def split: if_splits)
    with a False show ?thesis by (simp add: d4)
  qed
qed

inductive duplex_reach :: "duplex \<Rightarrow> duplex \<Rightarrow> bool" for d0 where
  duplex_start: "duplex_reach d0 d0"
| duplex_again: "duplex_reach d0 d \<Longrightarrow> duplex_poll x y d = (Pending, d') \<Longrightarrow> duplex_reach d0 d'"

lemma duplex_reach_inv: "duplex_reach d0 d \<Longrightarrow> duplex_inv d0 \<Longrightarrow> duplex_inv d"
  by (induction rule: duplex_reach.induct) (auto dest: duplex_poll_inv)

lemma duplex_new_inv:
  "reads ar = [] \<Longrightarrow> reads br = [] \<Longrightarrow> sent aw = [] \<Longrightarrow> sent bw = [] \<Longrightarrow> duplex_inv (duplex_new i j dg ar aw br bw)"
  by (simp add: duplex_inv_def duplex_new_def byte_inv_def copy_buffer_new_def delivered_def)

text \<open>C20. When the bridge completes, with or without aborts, both writers have been shut down, each received
  a prefix of what the opposite reader handed over, and the two returned counts are the lengths of these
  prefixes.\<close>

theorem duplex_completes_both:
  assumes "reads ar = []" "reads br = []" "sent aw = []" "sent bw = []"
    and "duplex_reach (duplex_new i j dg ar aw br bw) d" and "duplex_poll x y d = (Ready (Inr (n, m)), d')"
  shows "prefix (delivered (b_writer d')) (concat (reads (a_reader d'))) \<and> n = of_nat (length (delivered (b_writer d'))) \<and>
    prefix (delivered (a_writer d')) (concat (reads (b_reader d'))) \<and> m = of_nat (length (delivered (a_writer d'))) \<and>
    Shut \<in> set (sent (a_writer d')) \<and> Shut \<in> set (sent (b_writer d'))"
proof -
  have "duplex_inv d" using duplex_reach_inv [OF assms(5) duplex_new_inv [OF assms(1-4)]] .
  from duplex_poll_inv [OF assms(6) this] show ?thesis by (auto simp: duplex_inv_def)
qed

lemma duplex_example:
  "duplex_poll False False (duplex_new 4 4 False (idle_reader [RData [1, 2], RData []]) (idle_writer [] [FOk])
      (idle_reader []) (idle_writer [WAccept 9] [FOk, FOk])) =
   (Ready (Inr (2, 0)), \<lparr>a_to_b = Done 2, b_to_a = Done 0,
      a_reader = \<lparr>rscript = [], reads = [[1, 2]]\<rparr>, a_writer = \<lparr>wscript = [], fscript = [FOk], sscript = [], sent = [Shut]\<rparr>,
      b_reader = idle_reader [], b_writer = \<lparr>wscript = [], fscript = [FOk], sscript = [], sent = [Chunk [1, 2], Flushed, Shut]\<rparr>\<rparr>)"
  by (simp add: duplex_poll_def duplex_new_def run_a_to_b_def run_b_to_a_def shut_direction_def finish_a_to_b_def
      finish_b_to_a_def abort_sides_def copy_eval)

theorem duplex_completes_both_witness:
  "\<exists>d'. duplex_poll False False (duplex_new 4 4 False (idle_reader [RData [1, 2], RData []]) (idle_writer [] [FOk])
      (idle_reader []) (idle_writer [WAccept 9] [FOk, FOk])) = (Ready (Inr (2, 0)), d') \<and>
    delivered (b_writer d') = [1, 2] \<and> Shut \<in> set (sent (a_writer d')) \<and> Shut \<in> set (sent (b_writer d'))"
  using duplex_completes_both [OF _ _ _ _ duplex_start duplex_example] duplex_example by (simp add: delivered_def)

theorem duplex_never_half_open_witness:
  "\<exists>res d'. duplex_poll False False (duplex_new 4 4 False (idle_reader [RData [1, 2], RData []]) (idle_writer [] [FOk])
      (idle_reader []) (idle_writer [WAccept 9] [FOk, FOk])) = (res, d') \<and> \<not> (is_done (a_to_b d') \<and> is_running (b_to_a d'))"
  using duplex_never_half_open [OF duplex_example] duplex_example by simp

end
