(* ===== verification/Emulator.thy ===== *)
theory Emulator
  imports Prelude
begin

text \<open>
  The chain emulator, \<open>src/testing/blokli/emulator.rs\<close>: the effect of every parsed chain action on the test
  state, the transaction fee and the composition of mutators. An error is returned together with the state
  as the code left it, since the code mutates in place. The state holds its balances as printed token values,
  in insertion-ordered maps, as the code does.

  What comes from other crates is collected in the record \<open>chain_env\<close>: hexadecimal encoding, printing and
  parsing of balances, the clock, the channel identifier, the transaction parser and the accessors of the test
  state, each of which names the key of the entry it finds. \<open>env_ok\<close> states what the properties use of them.
\<close>

section \<open>State\<close>

type_synonym address = "byte list"
type_synonym hash = "byte list"

datatype channel_status = Open | PendingToClose | Closed

record account =
  chain_key :: string
  keyid :: u32
  multi_addresses :: "string list"
  packet_key :: string
  safe_address :: "string option"

record channel =
  ch_balance :: string
  closure_time :: "string option"
  concrete_channel_id :: string
  ch_destination :: u32
  ch_epoch :: u32
  ch_source :: u32
  ch_status :: channel_status
  ticket_index :: string

record deployed_safe =
  safe_addr :: string
  registered_nodes :: "string list"

record redeemed_stats =
  redeemed_amount :: string
  redemption_count :: string
  rejected_amount :: string
  rejection_count :: string

record bstate =
  accounts :: "(u32 \<times> account) list"
  channels :: "(string \<times> channel) list"
  deployed_safes :: "(string \<times> deployed_safe) list"
  native_balances :: "(string \<times> string) list"
  token_balances :: "(string \<times> string) list"
  safe_allowances :: "(string \<times> string) list"
  safe_redeem_stats :: "(string \<times> redeemed_stats) list"
  tx_counts :: "(string \<times> u64) list"
  closure_grace_period :: string
  contract_addresses :: string

datatype payer = Eoa | Safe

datatype multiaddr = Multiaddr (addr_is_empty: bool) (addr_string: string)

datatype chain_action =
    RegisterSafeAddress address
  | Announce (announced_key: "byte list") (announced_addr: "multiaddr option")
  | WithdrawNative address nat payer
  | WithdrawToken address nat payer
  | Approve address nat payer
  | FundChannel address nat
  | InitializeChannelClosure hash
  | FinalizeChannelClosure hash
  | IncomingChannelClosure hash
  | RedeemTicket hash u64 nat

datatype emu_error =
    StaticMustNotUpdate | BadContractAddresses | BadTransaction
  | AlreadyRegistered | SafeNotDeployed | EmptyMultiaddress
  | MissingBalance | BadBalance | InsufficientBalance
  | MissingAllowance | BadAllowance | InsufficientAllowance
  | MissingAccount | ZeroStake | BadChannelBalance | BadGracePeriod
  | MissingChannel | NotPendingToClose | ChannelClosed | BadTicketIndex | StaleTicketIndex
  | InsufficientChannelBalance | BadRedeemedValue | BadRedeemedCount
  | InsufficientNativeFunds | InterceptorClosed

type_synonym effect = "(emu_error + unit) \<times> bstate"

record chain_env =
  hex :: "byte list \<Rightarrow> string"
  parse_native :: "string \<Rightarrow> nat option"
  show_native :: "nat \<Rightarrow> string"
  parse_token :: "string \<Rightarrow> nat option"
  show_token :: "nat \<Rightarrow> string"
  balance_add :: "nat \<Rightarrow> nat \<Rightarrow> nat"
  time_after :: "nat \<Rightarrow> string"                          \<comment> \<open>RFC 3339 of now plus a duration\<close>
  channel_id_of :: "address \<Rightarrow> address \<Rightarrow> hash"
  parse_addresses :: "string \<Rightarrow> address option"           \<comment> \<open>the address of the channels contract\<close>
  parse_tx :: "byte list \<Rightarrow> (chain_action \<times> address) option"
  account_key :: "bstate \<Rightarrow> address \<Rightarrow> u32 option"
  safes_of_owner :: "bstate \<Rightarrow> address \<Rightarrow> deployed_safe list"
  safe_native_key :: "bstate \<Rightarrow> address \<Rightarrow> string option"
  safe_token_key :: "bstate \<Rightarrow> address \<Rightarrow> string option"
  safe_allowance_key :: "bstate \<Rightarrow> address \<Rightarrow> string option"
  channel_key :: "bstate \<Rightarrow> hash \<Rightarrow> string option"

section \<open>Actions\<close>

definition register_safe_address :: "chain_env \<Rightarrow> address \<Rightarrow> address \<Rightarrow> bstate \<Rightarrow> effect" where
  "register_safe_address E sender safe st =
     (case map_of (deployed_safes st) (hex E safe) of
        None \<Rightarrow> (Inl SafeNotDeployed, st)
      | Some s \<Rightarrow>
          if hex E sender \<in> set (registered_nodes s) then (Inl AlreadyRegistered, st)
          else
            let st = st\<lparr>deployed_safes := im_modify (hex E safe)
                  (\<lambda>s. s\<lparr>registered_nodes := registered_nodes s @ [hex E sender]\<rparr>) (deployed_safes st)\<rparr> in
            case account_key E st sender of
              None \<Rightarrow> (Inr (), st)
            | Some k \<Rightarrow> (Inr (), st\<lparr>accounts := im_modify k
                  (\<lambda>a. a\<lparr>safe_address := Some (hex E safe)\<rparr>) (accounts st)\<rparr>))"

definition next_key_id :: "(u32 \<times> account) list \<Rightarrow> u32" where
  "next_key_id as = (if as = [] then 1 else Max (set (map fst as)) + 1)"

definition announce :: "chain_env \<Rightarrow> address \<Rightarrow> byte list \<Rightarrow> multiaddr option \<Rightarrow> bstate \<Rightarrow> effect" where
  "announce E sender pk ma st =
     (case account_key E st sender of
        Some k \<Rightarrow>
          let st = st\<lparr>accounts := im_modify k (\<lambda>a. a\<lparr>packet_key := hex E pk\<rparr>) (accounts st)\<rparr> in
          (case ma of
             None \<Rightarrow> (Inr (), st)
           | Some m \<Rightarrow>
               if \<not> addr_is_empty m
               then (Inr (), st\<lparr>accounts := im_modify k
                      (\<lambda>a. a\<lparr>multi_addresses := multi_addresses a @ [addr_string m]\<rparr>) (accounts st)\<rparr>)
               else (Inl EmptyMultiaddress, st))
      | None \<Rightarrow>
          let nk = next_key_id (accounts st) in
          (Inr (), st\<lparr>accounts := im_put nk
             \<lparr>chain_key = hex E sender, keyid = nk,
              multi_addresses = (case ma of None \<Rightarrow> [] | Some m \<Rightarrow> [addr_string m]),
              packet_key = hex E pk,
              safe_address = (case safes_of_owner E st sender of [] \<Rightarrow> None | s # _ \<Rightarrow> Some (safe_addr s))\<rparr>
             (accounts st)\<rparr>))"

text \<open>The two withdrawals run the same code on the two balance maps.\<close>

definition transfer_balance ::
  "(string \<Rightarrow> nat option) \<Rightarrow> (nat \<Rightarrow> string) \<Rightarrow> (nat \<Rightarrow> nat \<Rightarrow> nat) \<Rightarrow> string option \<Rightarrow> string \<Rightarrow> nat \<Rightarrow>
    (string \<times> string) list \<Rightarrow> (emu_error + unit) \<times> (string \<times> string) list" where
  "transfer_balance parse shw add payer_key dst amount m =
     (case Option.bind payer_key (\<lambda>k. map_option (Pair k) (map_of m k)) of
        None \<Rightarrow> (Inl MissingBalance, m)
      | Some (k, bal) \<Rightarrow>
          (case parse bal of
             None \<Rightarrow> (Inl BadBalance, m)
           | Some n \<Rightarrow>
               if n < amount then (Inl InsufficientBalance, m)
               else
                 let m = im_modify k (\<lambda>_. shw (n - amount)) m in
                 case map_of m dst of
                   Some b \<Rightarrow>
                     (case parse b of
                        None \<Rightarrow> (Inl BadBalance, m)
                      | Some d \<Rightarrow> (Inr (), im_modify dst (\<lambda>_. shw (add d amount)) m))
                 | None \<Rightarrow> (Inr (), im_put dst (shw amount) m)))"

definition withdraw_native :: "chain_env \<Rightarrow> address \<Rightarrow> address \<Rightarrow> nat \<Rightarrow> payer \<Rightarrow> bstate \<Rightarrow> effect" where
  "withdraw_native E sender dst amount p st =
     (let key = (case p of Eoa \<Rightarrow> Some (hex E sender) | Safe \<Rightarrow> safe_native_key E st sender);
          (res, m) = transfer_balance (parse_native E) (show_native E) (balance_add E) key (hex E dst) amount
            (native_balances st)
      in (res, st\<lparr>native_balances := m\<rparr>))"

definition withdraw_token :: "chain_env \<Rightarrow> address \<Rightarrow> address \<Rightarrow> nat \<Rightarrow> payer \<Rightarrow> bstate \<Rightarrow> effect" where
  "withdraw_token E sender dst amount p st =
     (let key = (case p of Eoa \<Rightarrow> Some (hex E sender) | Safe \<Rightarrow> safe_token_key E st sender);
          (res, m) = transfer_balance (parse_token E) (show_token E) (balance_add E) key (hex E dst) amount
            (token_balances st)
      in (res, st\<lparr>token_balances := m\<rparr>))"

definition approve :: "chain_env \<Rightarrow> address \<Rightarrow> address \<Rightarrow> address \<Rightarrow> nat \<Rightarrow> payer \<Rightarrow> bstate \<Rightarrow> effect" where
  "approve E channels_contract sender spender amount p st =
     (if p = Safe \<and> spender = channels_contract
      then (case safe_allowance_key E st sender of
              None \<Rightarrow> (Inl MissingAllowance, st)
            | Some k \<Rightarrow> (Inr (), st\<lparr>safe_allowances :=
                im_modify k (\<lambda>_. show_token E amount) (safe_allowances st)\<rparr>))
      else (Inr (), st))"

text \<open>\<open>FundChannel\<close>: the safe is debited, then its allowance, then the channel is opened or topped up.\<close>

definition debit_safe :: "chain_env \<Rightarrow> address \<Rightarrow> nat \<Rightarrow> bstate \<Rightarrow> effect" where
  "debit_safe E sender stake st =
     (case Option.bind (safe_token_key E st sender) (\<lambda>k. map_option (Pair k) (map_of (token_balances st) k)) of
        None \<Rightarrow> (Inl MissingBalance, st)
      | Some (k, bal) \<Rightarrow>
          (case parse_token E bal of
             None \<Rightarrow> (Inl BadBalance, st)
           | Some n \<Rightarrow>
               if n < stake then (Inl InsufficientBalance, st)
               else (Inr (), st\<lparr>token_balances := im_modify k (\<lambda>_. show_token E (n - stake)) (token_balances st)\<rparr>)))"

definition debit_allowance :: "chain_env \<Rightarrow> address \<Rightarrow> nat \<Rightarrow> bstate \<Rightarrow> effect" where
  "debit_allowance E sender stake st =
     (case Option.bind (safe_allowance_key E st sender) (\<lambda>k. map_option (Pair k) (map_of (safe_allowances st) k)) of
        None \<Rightarrow> (Inl MissingAllowance, st)
      | Some (k, al) \<Rightarrow>
          (case parse_token E al of
             None \<Rightarrow> (Inl BadAllowance, st)
           | Some n \<Rightarrow>
               if n < stake then (Inl InsufficientAllowance, st)
               else (Inr (), st\<lparr>safe_allowances := im_modify k (\<lambda>_. show_token E (n - stake)) (safe_allowances st)\<rparr>)))"

definition reopen :: "channel \<Rightarrow> channel" where
  "reopen c = (if ch_status c = Closed
     then c\<lparr>ch_status := Open, ticket_index := ''0'', closure_time := None, ch_epoch := ch_epoch c + 1\<rparr> else c)"

definition find_channel :: "(channel \<Rightarrow> bool) \<Rightarrow> bstate \<Rightarrow> (string \<times> channel) option" where
  "find_channel P st = find (\<lambda>(_, c). P c) (channels st)"

definition credit_channel :: "chain_env \<Rightarrow> address \<Rightarrow> address \<Rightarrow> account \<Rightarrow> account \<Rightarrow> nat \<Rightarrow> bstate \<Rightarrow> effect" where
  "credit_channel E sender dst source destination stake st =
     (case find_channel (\<lambda>c. ch_source c = keyid source \<and> ch_destination c = keyid destination) st of
        Some (k, _) \<Rightarrow>
          let st = st\<lparr>channels := im_modify k reopen (channels st)\<rparr> in
          (case Option.bind (map_of (channels st) k) (\<lambda>c. parse_token E (ch_balance c)) of
             None \<Rightarrow> (Inl BadChannelBalance, st)
           | Some b \<Rightarrow> (Inr (), st\<lparr>channels :=
               im_modify k (\<lambda>c. c\<lparr>ch_balance := show_token E (balance_add E b stake)\<rparr>) (channels st)\<rparr>))
      | None \<Rightarrow>
          let new_id = hex E (channel_id_of E sender dst) in
          (Inr (), st\<lparr>channels := im_put new_id
             \<lparr>ch_balance = show_token E stake, closure_time = None, concrete_channel_id = new_id,
              ch_destination = keyid destination, ch_epoch = 1, ch_source = keyid source, ch_status = Open,
              ticket_index = ''0''\<rparr> (channels st)\<rparr>))"

fun and_then :: "effect \<Rightarrow> (bstate \<Rightarrow> effect) \<Rightarrow> effect" where
  "and_then (Inl e, st) f = (Inl e, st)"
| "and_then (Inr _, st) f = f st"

definition fund_channel :: "chain_env \<Rightarrow> address \<Rightarrow> address \<Rightarrow> nat \<Rightarrow> bstate \<Rightarrow> effect" where
  "fund_channel E sender dst stake st =
     (case (Option.bind (account_key E st sender) (map_of (accounts st)),
            Option.bind (account_key E st dst) (map_of (accounts st))) of
        (Some source, Some destination) \<Rightarrow>
          if stake = 0 then (Inl ZeroStake, st)
          else and_then (debit_safe E sender stake st) (\<lambda>st.
               and_then (debit_allowance E sender stake st)
                 (credit_channel E sender dst source destination stake))
      | _ \<Rightarrow> (Inl MissingAccount, st))"

definition on_channel :: "chain_env \<Rightarrow> hash \<Rightarrow> bstate \<Rightarrow> (string \<times> channel) option" where
  "on_channel E cid st = Option.bind (channel_key E st cid) (\<lambda>k. map_option (Pair k) (map_of (channels st) k))"

definition initialize_closure :: "chain_env \<Rightarrow> hash \<Rightarrow> bstate \<Rightarrow> effect" where
  "initialize_closure E cid st =
     (case parse_uint 64 (closure_grace_period st) of
        None \<Rightarrow> (Inl BadGracePeriod, st)
      | Some p \<Rightarrow>
          (case on_channel E cid st of
             None \<Rightarrow> (Inl MissingChannel, st)
           | Some (k, _) \<Rightarrow> (Inr (), st\<lparr>channels := im_modify k
               (\<lambda>c. c\<lparr>ch_status := PendingToClose,
                   closure_time := Some (time_after E (max (from_secs p) (from_millis 100)))\<rparr>) (channels st)\<rparr>)))"

definition finalize_closure :: "chain_env \<Rightarrow> hash \<Rightarrow> bstate \<Rightarrow> effect" where
  "finalize_closure E cid st =
     (case on_channel E cid st of
        None \<Rightarrow> (Inl MissingChannel, st)
      | Some (k, c) \<Rightarrow>
          if ch_status c \<noteq> PendingToClose then (Inl NotPendingToClose, st)
          else (Inr (), st\<lparr>channels := im_modify k (\<lambda>c. c\<lparr>ch_status := Closed\<rparr>) (channels st)\<rparr>))"

definition incoming_closure :: "chain_env \<Rightarrow> hash \<Rightarrow> bstate \<Rightarrow> effect" where
  "incoming_closure E cid st =
     (case on_channel E cid st of
        None \<Rightarrow> (Inl MissingChannel, st)
      | Some (k, _) \<Rightarrow> (Inr (), st\<lparr>channels := im_modify k (\<lambda>c. c\<lparr>ch_status := Closed\<rparr>) (channels st)\<rparr>))"

section \<open>Redemption\<close>

definition redeem_from_channel ::
  "chain_env \<Rightarrow> hash \<Rightarrow> u64 \<Rightarrow> nat \<Rightarrow> bstate \<Rightarrow> (emu_error + string) \<times> bstate" where
  "redeem_from_channel E cid idx amount st =
     (case on_channel E cid st of
        None \<Rightarrow> (Inl MissingChannel, st)
      | Some (k, c) \<Rightarrow>
          if ch_status c = Closed then (Inl ChannelClosed, st)
          else (case parse_uint 64 (ticket_index c) of
            None \<Rightarrow> (Inl BadTicketIndex, st)
          | Some ti \<Rightarrow>
              if unat idx < ti then (Inl StaleTicketIndex, st)
              else (case parse_token E (ch_balance c) of
                None \<Rightarrow> (Inl BadChannelBalance, st)
              | Some b \<Rightarrow>
                  if b < amount then (Inl InsufficientChannelBalance, st)
                  else (Inr k, st\<lparr>channels := im_modify k
                    (\<lambda>c. c\<lparr>ticket_index := show_nat (unat (idx + 1)),
                        ch_balance := show_token E (b - amount)\<rparr>) (channels st)\<rparr>))))"

definition update_redeem_stats :: "chain_env \<Rightarrow> string \<Rightarrow> nat \<Rightarrow> bstate \<Rightarrow> effect" where
  "update_redeem_stats E sa amount st =
     (case map_of (safe_redeem_stats st) sa of
        Some s \<Rightarrow>
          (case parse_token E (redeemed_amount s) of
             None \<Rightarrow> (Inl BadRedeemedValue, st)
           | Some a \<Rightarrow>
               (case parse_uint 64 (redemption_count s) of
                  None \<Rightarrow> (Inl BadRedeemedCount, st)
                | Some n \<Rightarrow> (Inr (), st\<lparr>safe_redeem_stats := im_modify sa
                    (\<lambda>s. s\<lparr>redeemed_amount := show_token E (balance_add E a amount),
                        redemption_count := show_nat (unat (of_nat n + 1 :: u64))\<rparr>) (safe_redeem_stats st)\<rparr>)))
      | None \<Rightarrow> (Inr (), st\<lparr>safe_redeem_stats := im_put sa
            \<lparr>redeemed_amount = show_token E amount, redemption_count = ''1'', rejected_amount = ''0'',
             rejection_count = ''0''\<rparr> (safe_redeem_stats st)\<rparr>))"

definition redeem_to_beneficiary :: "chain_env \<Rightarrow> channel \<Rightarrow> nat \<Rightarrow> bstate \<Rightarrow> effect" where
  "redeem_to_beneficiary E c amount st =
     (case find_channel (\<lambda>x. ch_source x = ch_destination c \<and> ch_destination x = ch_source c) st of
        Some (k, oc) \<Rightarrow>
          (case parse_token E (ch_balance oc) of
             None \<Rightarrow> (Inl BadChannelBalance, st)
           | Some b \<Rightarrow> (Inr (), st\<lparr>channels := im_modify k
               (\<lambda>x. x\<lparr>ch_balance := show_token E (balance_add E b amount)\<rparr>) (channels st)\<rparr>))
      | None \<Rightarrow>
          (case Option.bind (Option.bind (map_of (accounts st) (ch_destination c)) safe_address)
                  (\<lambda>sa. map_option (Pair sa) (map_of (token_balances st) sa)) of
             None \<Rightarrow> (Inr (), st)
           | Some (sa, bal) \<Rightarrow>
               (case parse_token E bal of
                  None \<Rightarrow> (Inl BadBalance, st)
                | Some b \<Rightarrow> update_redeem_stats E sa amount
                    (st\<lparr>token_balances := im_modify sa (\<lambda>_. show_token E (balance_add E b amount)) (token_balances st)\<rparr>))))"

definition redeem_ticket :: "chain_env \<Rightarrow> hash \<Rightarrow> u64 \<Rightarrow> nat \<Rightarrow> bstate \<Rightarrow> effect" where
  "redeem_ticket E cid idx amount st =
     (case redeem_from_channel E cid idx amount st of
        (Inl e, st') \<Rightarrow> (Inl e, st')
      | (Inr k, st') \<Rightarrow>
          (case map_of (channels st') k of
             None \<Rightarrow> (Inl MissingChannel, st')
           | Some c \<Rightarrow> redeem_to_beneficiary E c amount st'))"

section \<open>The mutators\<close>

fun perform :: "chain_env \<Rightarrow> address \<Rightarrow> address \<Rightarrow> chain_action \<Rightarrow> bstate \<Rightarrow> effect" where
  "perform E cc sender (RegisterSafeAddress a) st = register_safe_address E sender a st"
| "perform E cc sender (Announce pk ma) st = announce E sender pk ma st"
| "perform E cc sender (WithdrawNative dst n p) st = withdraw_native E sender dst n p st"
| "perform E cc sender (WithdrawToken dst n p) st = withdraw_token E sender dst n p st"
| "perform E cc sender (Approve sp n p) st = approve E cc sender sp n p st"
| "perform E cc sender (FundChannel dst n) st = fund_channel E sender dst n st"
| "perform E cc sender (InitializeChannelClosure c) st = initialize_closure E c st"
| "perform E cc sender (FinalizeChannelClosure c) st = finalize_closure E c st"
| "perform E cc sender (IncomingChannelClosure c) st = incoming_closure E c st"
| "perform E cc sender (RedeemTicket c i n) st = redeem_ticket E c i n st"

definition EMULATED_TX_PRICE :: nat where "EMULATED_TX_PRICE = 1"

definition charge_tx :: "chain_env \<Rightarrow> address \<Rightarrow> bstate \<Rightarrow> effect" where
  "charge_tx E sender st =
     (let n = (case map_of (tx_counts st) (hex E sender) of None \<Rightarrow> 0 | Some n \<Rightarrow> n);
          st = st\<lparr>tx_counts := im_put (hex E sender) (n + 1) (tx_counts st)\<rparr> in
      case map_of (native_balances st) (hex E sender) of
        None \<Rightarrow> (Inl MissingBalance, st)
      | Some bal \<Rightarrow>
          (case parse_native E bal of
             None \<Rightarrow> (Inl BadBalance, st)
           | Some b \<Rightarrow>
               if b < EMULATED_TX_PRICE then (Inl InsufficientNativeFunds, st)
               else (Inr (), st\<lparr>native_balances :=
                 im_modify (hex E sender) (\<lambda>_. show_native E (b - EMULATED_TX_PRICE)) (native_balances st)\<rparr>)))"

text \<open>
  \<open>FullStateEmulator\<close>: the interceptor is \<open>None\<close>, or says whether its receiver is still there; the actions sent
  to it are returned.
\<close>

definition forward_action :: "bool option \<Rightarrow> chain_action \<Rightarrow> bstate \<Rightarrow> (emu_error + unit) \<times> bstate \<times> chain_action list" where
  [simp]: "forward_action interceptor action st =
     (case interceptor of
        None \<Rightarrow> (Inr (), st, [])
      | Some alive \<Rightarrow> if alive then (Inr (), st, [action]) else (Inl InterceptorClosed, st, []))"

definition full_update_state ::
  "chain_env \<Rightarrow> bool option \<Rightarrow> byte list \<Rightarrow> bstate \<Rightarrow> (emu_error + unit) \<times> bstate \<times> chain_action list" where
  "full_update_state E interceptor tx st =
     (case parse_addresses E (contract_addresses st) of
        None \<Rightarrow> (Inl BadContractAddresses, st, [])
      | Some cc \<Rightarrow>
          (case parse_tx E tx of
             None \<Rightarrow> (Inl BadTransaction, st, [])
           | Some (action, sender) \<Rightarrow>
               (case and_then (perform E cc sender action st) (charge_tx E sender) of
                  (Inl e, st') \<Rightarrow> (Inl e, st', [])
                | (Inr _, st') \<Rightarrow> forward_action interceptor action st')))"

definition static_update_state :: "byte list \<Rightarrow> bstate \<Rightarrow> effect" where
  "static_update_state tx st = (Inl StaticMustNotUpdate, st)"

definition chain_update_state ::
  "(byte list \<Rightarrow> bstate \<Rightarrow> effect) \<Rightarrow> (byte list \<Rightarrow> bstate \<Rightarrow> effect) \<Rightarrow> byte list \<Rightarrow> bstate \<Rightarrow> effect" where
  "chain_update_state m1 m2 tx st = and_then (m1 tx st) (m2 tx)"

section \<open>Lemmas: the token supply\<close>

text \<open>What the properties use of the other crates: values print and parse back, and addition is exact below 256 bits.\<close>

definition env_ok :: "chain_env \<Rightarrow> bool" where
  "env_ok E \<longleftrightarrow> (\<forall>n < 2 ^ 256. parse_token E (show_token E n) = Some n \<and> parse_native E (show_native E n) = Some n) \<and>
     (\<forall>a b. a + b < 2 ^ 256 \<longrightarrow> balance_add E a b = a + b)"

definition worth :: "(string \<Rightarrow> nat option) \<Rightarrow> string \<Rightarrow> nat" where
  "worth parse s = (case parse s of None \<Rightarrow> 0 | Some n \<Rightarrow> n)"

definition tokens :: "chain_env \<Rightarrow> bstate \<Rightarrow> nat" where
  "tokens E st = im_sum (worth (parse_token E)) (token_balances st) +
     im_sum (worth (parse_token E) \<circ> ch_balance) (channels st)"

lemma worth_parse [simp]: "parse s = Some n \<Longrightarrow> worth parse s = n"
  by (simp add: worth_def)

lemma worth_token [simp]: "env_ok E \<Longrightarrow> n < 2 ^ 256 \<Longrightarrow> worth (parse_token E) (show_token E n) = n"
  by (simp add: env_ok_def)

lemma worth_native [simp]: "env_ok E \<Longrightarrow> n < 2 ^ 256 \<Longrightarrow> worth (parse_native E) (show_native E n) = n"
  by (simp add: env_ok_def)

lemma env_ok_add: "env_ok E \<Longrightarrow> a + b < 2 ^ 256 \<Longrightarrow> balance_add E a b = a + b"
  by (simp add: env_ok_def)

lemma transfer_balance_sum:
  assumes t: "transfer_balance parse shw add key dst amount m = (Inr (), m')"
    and s: "\<And>n. n < 2 ^ 256 \<Longrightarrow> parse (shw n) = Some n" and a: "\<And>a b. a + b < 2 ^ 256 \<Longrightarrow> add a b = a + b"
    and lim: "im_sum (worth parse) m < 2 ^ 256"
  shows "im_sum (worth parse) m' = im_sum (worth parse) m"
proof -
  let ?w = "worth parse"
  obtain k bal n where k: "key = Some k" "map_of m k = Some bal" "parse bal = Some n" "amount \<le> n"
    using t by (auto simp: transfer_balance_def bind_eq_Some_conv split: option.splits if_splits)
  let ?m1 = "im_modify k (\<lambda>_. shw (n - amount)) m"
  have n: "n \<le> im_sum ?w m" using im_sum_ge [OF k(2), of ?w] k(3) by simp
  then have "?w (shw (n - amount)) = n - amount" using lim by (simp add: worth_def s)
  then have m1: "im_sum ?w ?m1 + amount = im_sum ?w m"
    using im_sum_modify [OF k(2), of ?w "\<lambda>_. shw (n - amount)"] k(3,4) by simp
  show ?thesis
  proof (cases "map_of ?m1 dst")
    case None
    then have "m' = im_put dst (shw amount) ?m1"
      using t k by (simp add: transfer_balance_def)
    moreover have "?w (shw amount) = amount" using k(4) n lim by (simp add: worth_def s)
    ultimately show ?thesis using im_sum_put [of ?w dst "shw amount" ?m1] None m1 by simp
  next
    case (Some b)
    then obtain d where d: "parse b = Some d" "m' = im_modify dst (\<lambda>_. shw (add d amount)) ?m1"
      using t k by (auto simp: transfer_balance_def Let_def split: option.splits)
    have "d \<le> im_sum ?w ?m1" using im_sum_ge [OF Some, of ?w] d(1) by simp
    then have "?w (shw (add d amount)) = d + amount" using m1 lim by (simp add: worth_def s a)
    then show ?thesis using im_sum_modify [OF Some, of ?w "\<lambda>_. shw (add d amount)"] d m1 by simp
  qed
qed

lemma withdraw_token_tokens:
  assumes "withdraw_token E sender dst n p st = (Inr (), st')" and "env_ok E" and "tokens E st < 2 ^ 256"
  shows "tokens E st' = tokens E st"
proof -
  obtain key m where t: "transfer_balance (parse_token E) (show_token E) (balance_add E) key (hex E dst) n (token_balances st) = (Inr (), m)"
    and st': "st' = st\<lparr>token_balances := m\<rparr>"
    using assms(1) by (auto simp: withdraw_token_def Let_def split: prod.splits)
  have "im_sum (worth (parse_token E)) m = im_sum (worth (parse_token E)) (token_balances st)"
    using assms(2,3) by (intro transfer_balance_sum [OF t]) (auto simp: env_ok_def tokens_def)
  then show ?thesis by (simp add: tokens_def st')
qed

lemma withdraw_native_natives:
  assumes "withdraw_native E sender dst n p st = (Inr (), st')" and "env_ok E"
    and "im_sum (worth (parse_native E)) (native_balances st) < 2 ^ 256"
  shows "im_sum (worth (parse_native E)) (native_balances st') = im_sum (worth (parse_native E)) (native_balances st) \<and>
    token_balances st' = token_balances st \<and> channels st' = channels st"
proof -
  obtain key m where t: "transfer_balance (parse_native E) (show_native E) (balance_add E) key (hex E dst) n (native_balances st) = (Inr (), m)"
    and st': "st' = st\<lparr>native_balances := m\<rparr>"
    using assms(1) by (auto simp: withdraw_native_def Let_def split: prod.splits)
  have "im_sum (worth (parse_native E)) m = im_sum (worth (parse_native E)) (native_balances st)"
    using assms(2,3) by (intro transfer_balance_sum [OF t]) (auto simp: env_ok_def)
  then show ?thesis by (simp add: st')
qed

lemma debit_safe_tokens:
  assumes "debit_safe E sender stake st = (Inr (), st')" and "env_ok E" and "tokens E st < 2 ^ 256"
  shows "tokens E st' + stake = tokens E st \<and> channels st' = channels st"
proof -
  obtain k bal n where k: "map_of (token_balances st) k = Some bal" "parse_token E bal = Some n" "stake \<le> n"
    and st': "st' = st\<lparr>token_balances := im_modify k (\<lambda>_. show_token E (n - stake)) (token_balances st)\<rparr>"
    using assms(1) by (auto simp: debit_safe_def bind_eq_Some_conv split: option.splits if_splits)
  have "n \<le> tokens E st" using im_sum_ge [OF k(1), of "worth (parse_token E)"] k(2) by (simp add: tokens_def)
  then have "worth (parse_token E) (show_token E (n - stake)) = n - stake" using assms(2,3) by simp
  then show ?thesis
    using im_sum_modify [OF k(1), of "worth (parse_token E)" "\<lambda>_. show_token E (n - stake)"] k(2,3)
    by (simp add: tokens_def st')
qed

lemma debit_allowance_frame:
  "debit_allowance E sender stake st = (Inr (), st') \<Longrightarrow>
     token_balances st' = token_balances st \<and> channels st' = channels st"
  by (auto simp: debit_allowance_def split: option.splits if_splits)

text \<open>A channel whose balance is rewritten changes the supply by the difference.\<close>

lemma channel_rebalance:
  assumes "map_of (channels st) k = Some c"
    and "worth (parse_token E) (ch_balance (f c)) + x = worth (parse_token E) (ch_balance c) + y"
  shows "tokens E (st\<lparr>channels := im_modify k f (channels st)\<rparr>) + x = tokens E st + y"
  using im_sum_modify [OF assms(1), of "worth (parse_token E) \<circ> ch_balance" f] assms(2)
  by (simp add: tokens_def)

lemma find_channel_map_of:
  assumes "find_channel P st = Some (k, c)" and "distinct (map fst (channels st))"
  shows "map_of (channels st) k = Some c \<and> P c"
proof -
  from assms(1) have "(k, c) \<in> set (channels st)" "P c"
    by (auto simp: find_channel_def find_Some_iff) (metis nth_mem)
  with assms(2) show ?thesis by simp
qed

lemma channel_worth_le:
  "map_of (channels st) k = Some c \<Longrightarrow> worth (parse_token E) (ch_balance c) \<le> tokens E st"
  using im_sum_ge [of "channels st" k c "worth (parse_token E) \<circ> ch_balance"] by (simp add: tokens_def)

lemma reopen_balance [simp]: "ch_balance (reopen c) = ch_balance c"
  by (simp add: reopen_def)

lemma credit_channel_tokens:
  assumes cr: "credit_channel E sender dst source destination stake st = (Inr (), st')" and ok: "env_ok E"
    and lim: "tokens E st + stake < 2 ^ 256" and d: "distinct (map fst (channels st))"
    and fresh: "find_channel (\<lambda>c. ch_source c = keyid source \<and> ch_destination c = keyid destination) st = None \<Longrightarrow>
      map_of (channels st) (hex E (channel_id_of E sender dst)) = None"
  shows "tokens E st' = tokens E st + stake"
proof (cases "find_channel (\<lambda>c. ch_source c = keyid source \<and> ch_destination c = keyid destination) st")
  case None
  let ?k = "hex E (channel_id_of E sender dst)"
  obtain c where st': "st' = st\<lparr>channels := im_put ?k c (channels st)\<rparr>" and c: "ch_balance c = show_token E stake"
    using cr None by (auto simp: credit_channel_def Let_def)
  have "worth (parse_token E) (show_token E stake) = stake" using ok lim by simp
  then show ?thesis
    using im_sum_put [of "worth (parse_token E) \<circ> ch_balance" ?k c "channels st"] fresh [OF None] c
    by (simp add: tokens_def st')
next
  case (Some kc)
  obtain k c where kc: "kc = (k, c)" by (cases kc)
  from find_channel_map_of [OF Some [unfolded kc] d] have k: "map_of (channels st) k = Some c" by simp
  let ?s1 = "st\<lparr>channels := im_modify k reopen (channels st)\<rparr>"
  have k1: "map_of (channels ?s1) k = Some (reopen c)" using k by simp
  obtain b where b: "parse_token E (ch_balance c) = Some b"
    and st': "st' = ?s1\<lparr>channels := im_modify k (\<lambda>c. c\<lparr>ch_balance := show_token E (balance_add E b stake)\<rparr>) (channels ?s1)\<rparr>"
    using cr Some kc k by (auto simp: credit_channel_def Let_def split: option.splits)
  have "tokens E ?s1 = tokens E st" using channel_rebalance [OF k, of E reopen 0 0] by simp
  moreover have "b \<le> tokens E st" using channel_worth_le [OF k, of E] b by simp
  ultimately have "tokens E st' + 0 = tokens E ?s1 + stake"
    unfolding st' using ok lim b by (intro channel_rebalance [OF k1]) (simp add: env_ok_add)
  with \<open>tokens E ?s1 = tokens E st\<close> show ?thesis by simp
qed

text \<open>
  The identifier of a new channel is not in use: as long as no channel between the two accounts exists, none is
  stored under their identifier.
\<close>

definition id_unused :: "chain_env \<Rightarrow> address \<Rightarrow> address \<Rightarrow> bstate \<Rightarrow> bool" where
  "id_unused E sender dst st \<longleftrightarrow> (\<forall>a b.
     Option.bind (account_key E st sender) (map_of (accounts st)) = Some a \<longrightarrow>
     Option.bind (account_key E st dst) (map_of (accounts st)) = Some b \<longrightarrow>
     find_channel (\<lambda>c. ch_source c = keyid a \<and> ch_destination c = keyid b) st = None \<longrightarrow>
     map_of (channels st) (hex E (channel_id_of E sender dst)) = None)"

lemma fund_channel_tokens:
  assumes f: "fund_channel E sender dst stake st = (Inr (), st')" and ok: "env_ok E"
    and lim: "tokens E st < 2 ^ 256" and d: "distinct (map fst (channels st))"
    and fresh: "id_unused E sender dst st"
  shows "tokens E st' = tokens E st"
proof -
  obtain source destination st1 st2 where ab:
      "Option.bind (account_key E st sender) (map_of (accounts st)) = Some source"
      "Option.bind (account_key E st dst) (map_of (accounts st)) = Some destination"
    and s1: "debit_safe E sender stake st = (Inr (), st1)"
    and s2: "debit_allowance E sender stake st1 = (Inr (), st2)"
    and s3: "credit_channel E sender dst source destination stake st2 = (Inr (), st')"
  proof -
    obtain source destination where ab:
        "Option.bind (account_key E st sender) (map_of (accounts st)) = Some source"
        "Option.bind (account_key E st dst) (map_of (accounts st)) = Some destination"
      and fc: "and_then (debit_safe E sender stake st) (\<lambda>st.
        and_then (debit_allowance E sender stake st) (credit_channel E sender dst source destination stake)) = (Inr (), st')"
      using f by (auto simp: fund_channel_def split: option.splits if_splits)
    obtain r1 st1 where d1: "debit_safe E sender stake st = (r1, st1)" by (cases "debit_safe E sender stake st")
    obtain r2 st2 where d2: "debit_allowance E sender stake st1 = (r2, st2)" by (cases "debit_allowance E sender stake st1")
    show thesis using fc d1 d2 that [OF ab, of st1 st2] by (cases r1; cases r2) auto
  qed
  have t1: "tokens E st1 + stake = tokens E st" "channels st1 = channels st"
    using debit_safe_tokens [OF s1 ok lim] by auto
  have t2: "channels st2 = channels st" "tokens E st2 = tokens E st1"
    using debit_allowance_frame [OF s2] t1(2) by (auto simp: tokens_def)
  have "find_channel P st2 = find_channel P st" for P by (simp add: find_channel_def t2)
  then have "tokens E st' = tokens E st2 + stake"
    using t1 t2 lim d fresh ab by (intro credit_channel_tokens [OF s3 ok]) (auto simp: id_unused_def)
  with t1 t2 show ?thesis by simp
qed

lemma redeem_from_channel_tokens:
  assumes "redeem_from_channel E cid idx amount st = (Inr k, st')" and "env_ok E" and "tokens E st < 2 ^ 256"
  shows "tokens E st' + amount = tokens E st \<and> map fst (channels st') = map fst (channels st)"
proof -
  obtain c b where k: "map_of (channels st) k = Some c" "parse_token E (ch_balance c) = Some b" "amount \<le> b"
    and st': "st' = st\<lparr>channels := im_modify k (\<lambda>c. c\<lparr>ticket_index := show_nat (unat (idx + 1)),
                        ch_balance := show_token E (b - amount)\<rparr>) (channels st)\<rparr>"
    using assms(1) by (auto simp: redeem_from_channel_def on_channel_def bind_eq_Some_conv split: option.splits if_splits)
  have "b \<le> tokens E st" using channel_worth_le [OF k(1), of E] k(2) by simp
  then have "tokens E st' + amount = tokens E st + 0"
    unfolding st' using assms(2,3) k by (intro channel_rebalance [OF k(1)]) simp
  then show ?thesis by (simp add: st')
qed

lemma update_redeem_stats_frame:
  "update_redeem_stats E sa amount st = (res, st') \<Longrightarrow> token_balances st' = token_balances st \<and> channels st' = channels st"
  by (auto simp: update_redeem_stats_def split: option.splits)

lemma redeem_to_beneficiary_tokens:
  assumes r: "redeem_to_beneficiary E c amount st = (Inr (), st')" and ok: "env_ok E"
    and lim: "tokens E st + amount < 2 ^ 256" and d: "distinct (map fst (channels st))"
  shows "tokens E st' = tokens E st + amount \<or> st' = st"
proof (cases "find_channel (\<lambda>x. ch_source x = ch_destination c \<and> ch_destination x = ch_source c) st")
  case (Some kc)
  obtain k oc where kc: "kc = (k, oc)" by (cases kc)
  from find_channel_map_of [OF Some [unfolded kc] d] have k: "map_of (channels st) k = Some oc" by simp
  obtain b where b: "parse_token E (ch_balance oc) = Some b"
    and st': "st' = st\<lparr>channels := im_modify k (\<lambda>x. x\<lparr>ch_balance := show_token E (balance_add E b amount)\<rparr>) (channels st)\<rparr>"
    using r Some kc by (auto simp: redeem_to_beneficiary_def split: option.splits)
  have "b \<le> tokens E st" using channel_worth_le [OF k, of E] b by simp
  then have "tokens E st' + 0 = tokens E st + amount"
    unfolding st' using ok lim b by (intro channel_rebalance [OF k]) (simp add: env_ok_add)
  then show ?thesis by simp
next
  case None
  show ?thesis
  proof (cases "st' = st")
    case False
    then obtain sa bal b where sa: "map_of (token_balances st) sa = Some bal" "parse_token E bal = Some b"
      and u: "update_redeem_stats E sa amount
        (st\<lparr>token_balances := im_modify sa (\<lambda>_. show_token E (balance_add E b amount)) (token_balances st)\<rparr>) = (Inr (), st')"
      using r None by (auto simp: redeem_to_beneficiary_def bind_eq_Some_conv split: option.splits)
    have "b \<le> tokens E st" using im_sum_ge [OF sa(1), of "worth (parse_token E)"] sa(2) by (simp add: tokens_def)
    then have "worth (parse_token E) (show_token E (balance_add E b amount)) = b + amount"
      using ok lim by (simp add: env_ok_add)
    then have "tokens E st' = tokens E st + amount"
      using im_sum_modify [OF sa(1), of "worth (parse_token E)" "\<lambda>_. show_token E (balance_add E b amount)"]
        update_redeem_stats_frame [OF u] sa(2) by (simp add: tokens_def)
    then show ?thesis ..
  qed simp
qed

text \<open>The actions that only touch channel metadata or accounts.\<close>

lemma quiet_actions:
  assumes "perform E cc sender a st = (res, st')"
    and "\<forall>d n p. a \<noteq> WithdrawToken d n p" "\<forall>d n. a \<noteq> FundChannel d n" "\<forall>c i n. a \<noteq> RedeemTicket c i n"
  shows "tokens E st' = tokens E st"
proof -
  have q: "tokens E (st\<lparr>channels := im_modify k f (channels st)\<rparr>) = tokens E st"
    if "map_of (channels st) k = Some c" "\<And>c. ch_balance (f c) = ch_balance c" for k c f
    using channel_rebalance [OF that(1), of E f 0 0] that(2) by simp
  show ?thesis
  proof (cases a)
    case (InitializeChannelClosure cid)
    with assms(1) show ?thesis
      by (auto simp: initialize_closure_def on_channel_def bind_eq_Some_conv q split: option.splits)
  next
    case (FinalizeChannelClosure cid)
    with assms(1) show ?thesis
      by (auto simp: finalize_closure_def on_channel_def bind_eq_Some_conv q split: option.splits if_splits)
  next
    case (IncomingChannelClosure cid)
    with assms(1) show ?thesis
      by (auto simp: incoming_closure_def on_channel_def bind_eq_Some_conv q split: option.splits)
  next
    case (RegisterSafeAddress x)
    with assms(1) show ?thesis
      by (auto simp: register_safe_address_def Let_def tokens_def split: option.splits if_splits)
  next
    case (Announce pk ma)
    with assms(1) show ?thesis by (auto simp: announce_def Let_def tokens_def split: option.splits if_splits)
  next
    case (WithdrawNative d n p)
    with assms(1) show ?thesis by (auto simp: withdraw_native_def Let_def tokens_def split: prod.splits)
  next
    case (Approve sp n p)
    with assms(1) show ?thesis by (auto simp: approve_def tokens_def split: option.splits if_splits)
  qed (use assms in auto)
qed

lemma redeem_ticket_tokens:
  assumes r: "redeem_ticket E cid idx amount st = (Inr (), st')" and ok: "env_ok E"
    and lim: "tokens E st < 2 ^ 256" and d: "distinct (map fst (channels st))"
  shows "tokens E st' = tokens E st \<or> tokens E st' + amount = tokens E st"
proof -
  obtain k st1 c where s1: "redeem_from_channel E cid idx amount st = (Inr k, st1)"
    and s2: "redeem_to_beneficiary E c amount st1 = (Inr (), st')"
    using r by (auto simp: redeem_ticket_def split: prod.splits sum.splits option.splits)
  from redeem_from_channel_tokens [OF s1 ok lim]
  have t: "tokens E st1 + amount = tokens E st" "map fst (channels st1) = map fst (channels st)" by auto
  have "tokens E st' = tokens E st1 + amount \<or> st' = st1"
    using t lim d by (intro redeem_to_beneficiary_tokens [OF s2 ok]) auto
  with t show ?thesis by auto
qed

text \<open>No action counts transactions, and only native withdrawals touch native balances.\<close>

lemma perform_frame:
  assumes "perform E cc sender a st = (res, st')"
  shows "tx_counts st' = tx_counts st \<and> ((\<forall>d n p. a \<noteq> WithdrawNative d n p) \<longrightarrow> native_balances st' = native_balances st)"
proof -
  let ?same = "\<lambda>s s'. tx_counts s' = tx_counts s \<and> native_balances s' = native_balances s"
  have fund: "?same s (snd (and_then (debit_safe E x y s) (\<lambda>s. and_then (debit_allowance E x y s) (credit_channel E x u v w y))))"
    for x y s u v w
    by (auto simp: debit_safe_def debit_allowance_def credit_channel_def Let_def split: option.splits if_splits prod.splits)
  have from_ch: "?same s s'" if "redeem_from_channel E c i n s = (r, s')" for c i n s r s'
    using that by (auto simp: redeem_from_channel_def split: option.splits if_splits)
  have to_b: "?same s s'" if "redeem_to_beneficiary E c n s = (r, s')" for c n s r s'
    using that by (auto simp: redeem_to_beneficiary_def update_redeem_stats_def split: option.splits)
  show ?thesis
  proof (cases a)
    case (FundChannel d n)
    with assms fund [of sender n st d] show ?thesis
      by (auto simp: fund_channel_def split: option.splits if_splits) (metis snd_conv)+
  next
    case (RedeemTicket c i n)
    with assms show ?thesis
      by (auto simp: redeem_ticket_def split: prod.splits sum.splits option.splits dest!: from_ch to_b)
  qed (use assms in \<open>auto simp: register_safe_address_def announce_def withdraw_native_def withdraw_token_def approve_def
      initialize_closure_def finalize_closure_def incoming_closure_def Let_def
      split: option.splits if_splits prod.splits\<close>)
qed

definition natives :: "chain_env \<Rightarrow> bstate \<Rightarrow> nat" where
  "natives E st = im_sum (worth (parse_native E)) (native_balances st)"

lemma charge_tx_effect:
  assumes "charge_tx E sender st = (Inr (), st')" and "env_ok E" and "natives E st < 2 ^ 256"
  shows "natives E st' + EMULATED_TX_PRICE = natives E st \<and> tokens E st' = tokens E st \<and>
    map_of (tx_counts st') (hex E sender) = Some ((case map_of (tx_counts st) (hex E sender) of None \<Rightarrow> 0 | Some n \<Rightarrow> n) + 1)"
proof -
  obtain bal b m where k: "map_of (native_balances st) (hex E sender) = Some bal" "parse_native E bal = Some b" "EMULATED_TX_PRICE \<le> b"
    and st': "st' = st\<lparr>tx_counts := m, native_balances :=
      im_modify (hex E sender) (\<lambda>_. show_native E (b - EMULATED_TX_PRICE)) (native_balances st)\<rparr>"
    and m: "m = im_put (hex E sender) ((case map_of (tx_counts st) (hex E sender) of None \<Rightarrow> 0 | Some n \<Rightarrow> n) + 1) (tx_counts st)"
    using assms(1) by (auto simp: charge_tx_def Let_def split: option.splits if_splits)
  have "b \<le> natives E st" using im_sum_ge [OF k(1), of "worth (parse_native E)"] k(2) by (simp add: natives_def)
  then have "worth (parse_native E) (show_native E (b - EMULATED_TX_PRICE)) = b - EMULATED_TX_PRICE"
    using assms(2,3) by simp
  then have "natives E st' + EMULATED_TX_PRICE = natives E st"
    using im_sum_modify [OF k(1), of "worth (parse_native E)" "\<lambda>_. show_native E (b - EMULATED_TX_PRICE)"] k(2,3)
    by (simp add: natives_def st')
  then show ?thesis by (simp add: st' m tokens_def)
qed

lemma perform_tokens:
  assumes "perform E cc sender a st = (Inr (), st')" and "env_ok E" and "tokens E st < 2 ^ 256"
    and "distinct (map fst (channels st))" and "\<And>d n. a = FundChannel d n \<Longrightarrow> id_unused E sender d st"
  shows "tokens E st' = tokens E st \<or> (\<exists>c i n. a = RedeemTicket c i n \<and> tokens E st' + n = tokens E st)"
proof -
  consider d n p where "a = WithdrawToken d n p" | d n where "a = FundChannel d n"
    | c i n where "a = RedeemTicket c i n"
    | "\<forall>d n p. a \<noteq> WithdrawToken d n p" "\<forall>d n. a \<noteq> FundChannel d n" "\<forall>c i n. a \<noteq> RedeemTicket c i n" by blast
  then show ?thesis
  proof cases
    case 1
    with assms withdraw_token_tokens show ?thesis by auto
  next
    case 2
    with assms fund_channel_tokens show ?thesis by auto
  next
    case 3
    with assms redeem_ticket_tokens [of E c i n st st'] show ?thesis by auto
  next
    case 4
    with quiet_actions [OF assms(1)] show ?thesis by blast
  qed
qed

lemma perform_natives:
  assumes "perform E cc sender a st = (Inr (), st')" and "env_ok E" and "natives E st < 2 ^ 256"
  shows "natives E st' = natives E st"
proof (cases "\<exists>d n p. a = WithdrawNative d n p")
  case True
  with assms withdraw_native_natives show ?thesis by (auto simp: natives_def)
next
  case False
  with perform_frame [OF assms(1)] show ?thesis by (simp add: natives_def)
qed

section \<open>Properties\<close>


text \<open>A concrete instance of the other crates: decimal balances, keys that are the addresses themselves.\<close>

definition byte_char :: "byte \<Rightarrow> char" where
  "byte_char b = (if b = 65 then CHR ''A'' else if b = 66 then CHR ''B'' else CHR ''?'')"

definition plain_env :: "chain_action \<Rightarrow> address \<Rightarrow> chain_env" where
  "plain_env a sender =
     \<lparr>hex = map byte_char, parse_native = parse_uint 256, show_native = show_nat,
      parse_token = parse_uint 256, show_token = show_nat, balance_add = (+), time_after = show_nat,
      channel_id_of = (\<lambda>x y. x @ y), parse_addresses = (\<lambda>_. Some [9]), parse_tx = (\<lambda>_. Some (a, sender)),
      account_key = (\<lambda>st x. map_option fst (find (\<lambda>(_, acc). chain_key acc = map byte_char x) (accounts st))),
      safes_of_owner = (\<lambda>_ _. []), safe_native_key = (\<lambda>_ _. Some ''s''), safe_token_key = (\<lambda>_ _. Some ''s''),
      safe_allowance_key = (\<lambda>_ _. Some ''s''), channel_key = (\<lambda>st c. Some (map byte_char c))\<rparr>"

lemma plain_env_ok: "env_ok (plain_env a sender)"
  by (simp add: env_ok_def plain_env_def)

definition two_accounts :: "nat \<Rightarrow> nat \<Rightarrow> bstate" where
  "two_accounts bal allow =
     \<lparr>accounts = [(1, \<lparr>chain_key = ''A'', keyid = 1, multi_addresses = [], packet_key = [], safe_address = Some ''s''\<rparr>),
                  (2, \<lparr>chain_key = ''B'', keyid = 2, multi_addresses = [], packet_key = [], safe_address = None\<rparr>)],
      channels = [], deployed_safes = [], native_balances = [(''A'', show_nat 5)], token_balances = [(''s'', show_nat bal)],
      safe_allowances = [(''s'', show_nat allow)], safe_redeem_stats = [], tx_counts = [],
      closure_grace_period = ''60'', contract_addresses = []\<rparr>"


text \<open>C23. A ticket cannot be redeemed twice: once a ticket with index \<open>i\<close> was redeemed on a channel, every later
  redemption on it with an index up to \<open>i\<close> is rejected and changes nothing.\<close>

theorem no_double_redemption:
  assumes "redeem_ticket E cid idx amount st = (Inr (), st')" and "idx \<noteq> - 1" and "idx' \<le> idx"
    and lookup: "\<And>s s'. map fst (channels s) = map fst (channels s') \<Longrightarrow> channel_key E s cid = channel_key E s' cid"
    and d: "distinct (map fst (channels st))"
  shows "redeem_ticket E cid idx' amount' st' = (Inl StaleTicketIndex, st')"
proof -
  obtain k st1 c1 where s1: "redeem_from_channel E cid idx amount st = (Inr k, st1)"
    and c1: "map_of (channels st1) k = Some c1"
    and s2: "redeem_to_beneficiary E c1 amount st1 = (Inr (), st')"
    using assms(1) by (auto simp: redeem_ticket_def split: prod.splits sum.splits option.splits)
  have key: "channel_key E st cid = Some k"
    using s1 by (auto simp: redeem_from_channel_def on_channel_def bind_eq_Some_conv split: option.splits if_splits)
  have k1: "map fst (channels st1) = map fst (channels st)" "ch_status c1 \<noteq> Closed" "ticket_index c1 = show_nat (unat (idx + 1))"
    using s1 c1 by (auto simp: redeem_from_channel_def on_channel_def bind_eq_Some_conv split: option.splits if_splits)
  have "\<exists>c2. map_of (channels st') k = Some c2 \<and> ch_status c2 = ch_status c1 \<and> ticket_index c2 = ticket_index c1 \<and>
      map fst (channels st') = map fst (channels st1)"
    using s2 c1 by (auto simp: redeem_to_beneficiary_def map_of_im_modify split: option.splits dest!: update_redeem_stats_frame)
  then obtain c2 where c2: "map_of (channels st') k = Some c2" "ch_status c2 \<noteq> Closed" "ticket_index c2 = show_nat (unat (idx + 1))"
    "map fst (channels st') = map fst (channels st)" using k1 by auto
  have "channel_key E st' cid = Some k" using lookup [OF c2(4)] key by simp
  moreover have "unat (idx + 1) < 2 ^ 64" using unat_u64_le [of "idx + 1"] by simp
  moreover have "unat idx' < unat (idx + 1)" using assms(2,3) by (simp add: unat_inc word_le_nat_alt)
  ultimately show ?thesis using c2
    by (simp add: redeem_ticket_def redeem_from_channel_def on_channel_def)
qed

text \<open>A channel with a redeemable balance and no way back, whose destination has no safe.\<close>

definition one_channel :: "nat \<Rightarrow> bstate" where
  "one_channel ti = (two_accounts 100 50)\<lparr>channels :=
     [(''AB'', \<lparr>ch_balance = show_nat 40, closure_time = None, concrete_channel_id = ''AB'', ch_destination = 2, ch_epoch = 1,
        ch_source = 1, ch_status = Open, ticket_index = show_nat ti\<rparr>)]\<rparr>"

theorem no_double_redemption_witness:
  "\<exists>st'. redeem_ticket (plain_env (FundChannel [66] 30) [65]) [65, 66] 7 15 (one_channel 3) = (Inr (), st') \<and>
     redeem_ticket (plain_env (FundChannel [66] 30) [65]) [65, 66] 7 15 st' = (Inl StaleTicketIndex, st')"
proof -
  let ?E = "plain_env (FundChannel [66] 30) [65]" and ?st = "one_channel 3"
  have "\<exists>st'. redeem_ticket ?E [65, 66] 7 15 ?st = (Inr (), st')"
    by (simp add: redeem_ticket_def redeem_from_channel_def on_channel_def redeem_to_beneficiary_def find_channel_def
        plain_env_def byte_char_def one_channel_def two_accounts_def)
  then obtain st' where r: "redeem_ticket ?E [65, 66] 7 15 ?st = (Inr (), st')" ..
  have "redeem_ticket ?E [65, 66] 7 15 st' = (Inl StaleTicketIndex, st')"
    by (rule no_double_redemption [OF r]) (simp_all add: plain_env_def one_channel_def)
  with r show ?thesis by blast
qed


end
