(* ===== verification/Sinks.thy ===== *)
theory Sinks
  imports Prelude "HOL-Library.Sublist"
begin

text \<open>
  The sinks of \<open>src/network_types\<close>: \<open>CrossfireSink\<close> of \<open>crossfire_sink.rs\<close>, the timeout adaptor \<open>TimeoutSink\<close>
  and the forwarding future \<open>ForwardWithTimeout\<close> of \<open>timeout.rs\<close>. The crossfire channel and the source stream
  are code outside the repository: the answers of the channel to successive send attempts and the outcomes of
  polling the stream are scripts, over which every theorem quantifies (an exhausted script is a channel that
  stays full and a stream that stays pending). The \<open>Sink\<close> trait is the record \<open>sink_ops\<close>; its laws are the
  locales \<open>inner_sink\<close> and \<open>timed_sink\<close>, interpreted on the crossfire sink and on the timeout sink around it.
  The field \<open>delivered\<close> of a channel logs what it accepted, \<open>taken\<close> and \<open>dropped\<close> of the forwarding future log
  what it read and what it discarded.
\<close>

record ('s, 'a, 'e) sink_ops =
  sk_ready :: "'s \<Rightarrow> ('e + unit) poll \<times> 's"
  sk_start :: "'a \<Rightarrow> 's \<Rightarrow> ('e + unit) \<times> 's"
  sk_flush :: "'s \<Rightarrow> ('e + unit) poll \<times> 's"
  sk_close :: "'s \<Rightarrow> ('e + unit) poll \<times> 's"

section \<open>The crossfire sink\<close>

datatype CrossfireSinkError = Disconnected

datatype send_answer = Sent | Full | Gone

record 'a crossfire_sink =
  answers :: "send_answer list"
  delivered :: "'a list"
  buffered :: "'a option"
  pending_send :: "'a option"

definition bounded_sink_channel :: "send_answer list \<Rightarrow> 'a crossfire_sink" where
  "bounded_sink_channel as = \<lparr>answers = as, delivered = [], buffered = None, pending_send = None\<rparr>"

text \<open>A clone shares the channel but starts idle.\<close>

definition crossfire_clone :: "'a crossfire_sink \<Rightarrow> 'a crossfire_sink" where
  "crossfire_clone s = s\<lparr>buffered := None, pending_send := None\<rparr>"

text \<open>One attempt to place \<open>x\<close>: \<open>try_send\<close>, and a poll of the future of \<open>send\<close>.\<close>

definition try_send :: "'a \<Rightarrow> 'a crossfire_sink \<Rightarrow> send_answer \<times> 'a crossfire_sink" where
  "try_send x s =
     (case answers s of
        [] \<Rightarrow> (Full, s)
      | a # as \<Rightarrow> (a, s\<lparr>answers := as, delivered := delivered s @ (if a = Sent then [x] else [])\<rparr>))"

function crossfire_ready :: "'a crossfire_sink \<Rightarrow> (CrossfireSinkError + unit) poll \<times> 'a crossfire_sink" where
  "crossfire_ready s =
     (case pending_send s of
        Some x \<Rightarrow>
          (case try_send x (s\<lparr>pending_send := None\<rparr>) of
             (Sent, s') \<Rightarrow> (Ready (Inr ()), s')
           | (Gone, s') \<Rightarrow> (Ready (Inl Disconnected), s')
           | (Full, s') \<Rightarrow> (Pending, s'\<lparr>pending_send := Some x\<rparr>))
      | None \<Rightarrow>
          (case buffered s of
             Some x \<Rightarrow>
               (case try_send x (s\<lparr>buffered := None\<rparr>) of
                  (Sent, s') \<Rightarrow> (Ready (Inr ()), s')
                | (Full, s') \<Rightarrow> crossfire_ready (s'\<lparr>pending_send := Some x\<rparr>)
                | (Gone, s') \<Rightarrow> (Ready (Inl Disconnected), s'))
           | None \<Rightarrow> (Ready (Inr ()), s)))"
  by pat_completeness auto

termination
  by (relation "measure (\<lambda>s. if buffered s = None then 0 else 1)")
    (auto simp: try_send_def split: list.splits)

declare crossfire_ready.simps [simp del]

definition crossfire_start :: "'a \<Rightarrow> 'a crossfire_sink \<Rightarrow> (CrossfireSinkError + unit) \<times> 'a crossfire_sink" where
  "crossfire_start x s = (Inr (), s\<lparr>buffered := Some x\<rparr>)"

definition crossfire_ops :: "('a crossfire_sink, 'a, CrossfireSinkError) sink_ops" where
  "crossfire_ops = \<lparr>sk_ready = crossfire_ready, sk_start = crossfire_start,
     sk_flush = crossfire_ready, sk_close = crossfire_ready\<rparr>"

section \<open>Timeouts\<close>

datatype 'e SinkTimeoutError = Timeout | Inner 'e

text \<open>The clock is part of the state: \<open>ticks\<close> is how much time passes before each reading of it.\<close>

record 's timeout_sink =
  inner :: 's
  timer :: "nat option"
  timeout :: nat
  now :: nat
  ticks :: "nat list"

definition with_timeout :: "nat \<Rightarrow> nat \<Rightarrow> nat list \<Rightarrow> 's \<Rightarrow> 's timeout_sink" where
  "with_timeout t0 d ts s = \<lparr>inner = s, timer = None, timeout = d, now = t0, ticks = ts\<rparr>"

definition timeout_clone :: "('s \<Rightarrow> 's) \<Rightarrow> 's timeout_sink \<Rightarrow> 's timeout_sink" where
  "timeout_clone clone_inner t = t\<lparr>inner := clone_inner (inner t), timer := None\<rparr>"

definition read_clock :: "'s timeout_sink \<Rightarrow> 's timeout_sink" where
  "read_clock t = (case ticks t of [] \<Rightarrow> t | d # ds \<Rightarrow> t\<lparr>now := now t + d, ticks := ds\<rparr>)"

fun map_err :: "('e \<Rightarrow> 'f) \<Rightarrow> 'e + 'a \<Rightarrow> 'f + 'a" where
  "map_err f (Inl e) = Inl (f e)"
| "map_err f (Inr x) = Inr x"

definition arm_timer :: "'s timeout_sink \<Rightarrow> 's timeout_sink" where
  "arm_timer t = (if timer t = None then let t = read_clock t in t\<lparr>timer := Some (now t + timeout t)\<rparr> else t)"

definition timeout_ready ::
  "('s, 'a, 'e) sink_ops \<Rightarrow> 's timeout_sink \<Rightarrow> ('e SinkTimeoutError + unit) poll \<times> 's timeout_sink" where
  "timeout_ready ops t =
     (case sk_ready ops (inner t) of
        (Ready res, i) \<Rightarrow> (Ready (map_err Inner res), t\<lparr>inner := i, timer := None\<rparr>)
      | (Pending, i) \<Rightarrow>
          let t = read_clock (arm_timer (t\<lparr>inner := i\<rparr>)) in
          if now t < the (timer t) then (Pending, t)
          else (Ready (Inl Timeout), t\<lparr>timer := None\<rparr>))"

definition timeout_start ::
  "('s, 'a, 'e) sink_ops \<Rightarrow> 'a \<Rightarrow> 's timeout_sink \<Rightarrow> ('e SinkTimeoutError + unit) \<times> 's timeout_sink" where
  "timeout_start ops x t = (case sk_start ops x (inner t) of (res, i) \<Rightarrow> (map_err Inner res, t\<lparr>inner := i\<rparr>))"

definition timeout_flush ::
  "('s, 'a, 'e) sink_ops \<Rightarrow> 's timeout_sink \<Rightarrow> ('e SinkTimeoutError + unit) poll \<times> 's timeout_sink" where
  "timeout_flush ops t = (case sk_flush ops (inner t) of (p, i) \<Rightarrow> (poll_map (map_err Inner) p, t\<lparr>inner := i\<rparr>))"

definition timeout_close ::
  "('s, 'a, 'e) sink_ops \<Rightarrow> 's timeout_sink \<Rightarrow> ('e SinkTimeoutError + unit) poll \<times> 's timeout_sink" where
  "timeout_close ops t = (case sk_close ops (inner t) of (p, i) \<Rightarrow> (poll_map (map_err Inner) p, t\<lparr>inner := i\<rparr>))"

definition timeout_ops :: "('s, 'a, 'e) sink_ops \<Rightarrow> ('s timeout_sink, 'a, 'e SinkTimeoutError) sink_ops" where
  "timeout_ops ops = \<lparr>sk_ready = timeout_ready ops, sk_start = timeout_start ops,
     sk_flush = timeout_flush ops, sk_close = timeout_close ops\<rparr>"

section \<open>Forwarding\<close>

datatype ('a, 'e) stream_event = Item 'a | Failed 'e | NotYet | EndOfStream

text \<open>\<open>Option<Si>\<close> of the source: \<open>Dropped\<close> is \<open>None\<close> and remembers the sink as it was when it was dropped.\<close>

datatype 's slot = Live 's | Dropped 's

datatype 'e forward_result = FwPending | FwReady "'e + unit" | FwPanic

record ('s, 'a, 'e) forward =
  fw_sink :: "'s slot"
  fw_stream :: "('a, 'e) stream_event list"
  fw_done :: bool
  buffered_item :: "'a option"
  taken :: "'a list"
  dropped :: "'a list"

definition forward_new :: "('a, 'e) stream_event list \<Rightarrow> 's \<Rightarrow> ('s, 'a, 'e) forward" where
  "forward_new st si = \<lparr>fw_sink = Live si, fw_stream = st, fw_done = False, buffered_item = None, taken = [], dropped = []\<rparr>"

definition is_terminated :: "('s, 'a, 'e) forward \<Rightarrow> bool" where
  "is_terminated f = (case fw_sink f of Live _ \<Rightarrow> False | Dropped _ \<Rightarrow> True)"

text \<open>\<open>Fuse\<close>: after the end the inner stream is not polled again.\<close>

definition poll_stream :: "('s, 'a, 'e) forward \<Rightarrow> ('a, 'e) stream_event \<times> ('s, 'a, 'e) forward" where
  "poll_stream f =
     (if fw_done f then (EndOfStream, f)
      else case fw_stream f of
             [] \<Rightarrow> (NotYet, f)
           | ev # evs \<Rightarrow> (ev, f\<lparr>fw_stream := evs, fw_done := (ev = EndOfStream)\<rparr>))"

text \<open>\<open>e.try_as_inner().unwrap()\<close>.\<close>

fun unwrap_inner :: "'e SinkTimeoutError \<Rightarrow> 'e forward_result" where
  "unwrap_inner (Inner e) = FwReady (Inl e)"
| "unwrap_inner Timeout = FwPanic"

datatype ('r, 'f) turn = Return 'r 'f | Continue 'f

definition forward_pull ::
  "('s, 'a, 'e SinkTimeoutError) sink_ops \<Rightarrow> 's \<Rightarrow> ('s, 'a, 'e) forward \<Rightarrow> ('e forward_result, ('s, 'a, 'e) forward) turn" where
  "forward_pull ops si f =
     (case poll_stream f of
        (Failed e, f) \<Rightarrow> Return (FwReady (Inl e)) f
      | (Item x, f) \<Rightarrow> Continue (f\<lparr>buffered_item := Some x, taken := taken f @ [x]\<rparr>)
      | (EndOfStream, f) \<Rightarrow>
          (case sk_close ops si of
             (Pending, si) \<Rightarrow> Return FwPending (f\<lparr>fw_sink := Live si\<rparr>)
           | (Ready (Inl e), si) \<Rightarrow> Return (unwrap_inner e) (f\<lparr>fw_sink := Live si\<rparr>)
           | (Ready (Inr _), si) \<Rightarrow> Return (FwReady (Inr ())) (f\<lparr>fw_sink := Dropped si\<rparr>))
      | (NotYet, f) \<Rightarrow>
          (case sk_flush ops si of
             (Ready (Inl e), si) \<Rightarrow> Return (unwrap_inner e) (f\<lparr>fw_sink := Live si\<rparr>)
           | (_, si) \<Rightarrow> Return FwPending (f\<lparr>fw_sink := Live si\<rparr>)))"

definition forward_turn ::
  "('s, 'a, 'e SinkTimeoutError) sink_ops \<Rightarrow> 's \<Rightarrow> ('s, 'a, 'e) forward \<Rightarrow> ('e forward_result, ('s, 'a, 'e) forward) turn" where
  "forward_turn ops si f =
     (case buffered_item f of
        None \<Rightarrow> forward_pull ops si f
      | Some x \<Rightarrow>
          (case sk_ready ops si of
             (Pending, si) \<Rightarrow> Return FwPending (f\<lparr>fw_sink := Live si\<rparr>)
           | (Ready (Inr _), si) \<Rightarrow>
               (case sk_start ops x si of
                  (Inl e, si) \<Rightarrow> Return (unwrap_inner e) (f\<lparr>fw_sink := Live si, buffered_item := None\<rparr>)
                | (Inr _, si) \<Rightarrow> forward_pull ops si (f\<lparr>fw_sink := Live si, buffered_item := None\<rparr>))
           | (Ready (Inl Timeout), si) \<Rightarrow>
               Continue (f\<lparr>fw_sink := Live si, buffered_item := None, dropped := dropped f @ [x]\<rparr>)
           | (Ready (Inl (Inner e)), si) \<Rightarrow> Return (FwReady (Inl e)) (f\<lparr>fw_sink := Live si\<rparr>)))"

definition forward_size :: "('s, 'a, 'e) forward \<Rightarrow> nat" where
  "forward_size f = 2 * length (fw_stream f) + (if buffered_item f = None then 0 else 1)"

lemma forward_pull_size:
  "forward_pull ops si f = Continue f' \<Longrightarrow> forward_size f' < 2 * length (fw_stream f)"
  by (auto simp: forward_pull_def poll_stream_def forward_size_def
      split: stream_event.splits if_splits list.splits poll.splits sum.splits prod.splits)

lemma forward_turn_size: "forward_turn ops si f = Continue f' \<Longrightarrow> forward_size f' < forward_size f"
  by (auto simp: forward_turn_def forward_size_def
      split: option.splits poll.splits sum.splits prod.splits SinkTimeoutError.splits dest!: forward_pull_size)

function forward_poll ::
  "('s, 'a, 'e SinkTimeoutError) sink_ops \<Rightarrow> ('s, 'a, 'e) forward \<Rightarrow> 'e forward_result \<times> ('s, 'a, 'e) forward" where
  "forward_poll ops f =
     (case fw_sink f of
        Dropped _ \<Rightarrow> (FwPanic, f)
      | Live si \<Rightarrow>
          (case forward_turn ops si f of
             Return r f' \<Rightarrow> (r, f')
           | Continue f' \<Rightarrow> forward_poll ops f'))"
  by pat_completeness auto

termination
  by (relation "measure (\<lambda>(ops, f). forward_size f)") (auto dest: forward_turn_size)

declare forward_poll.simps [simp del]


section \<open>The contract of a sink\<close>

text \<open>
  \<open>out s\<close> are the items that left the sink, \<open>held s\<close> the ones it still holds, \<open>ok\<close> its invariant. Nothing but an
  error may lose an item: a pending poll keeps them all, a successful one has let go of them all, in order.
\<close>

definition keeps :: "('s \<Rightarrow> bool) \<Rightarrow> ('s \<Rightarrow> 'a list) \<Rightarrow> ('s \<Rightarrow> 'a list) \<Rightarrow> 's \<Rightarrow> 's \<Rightarrow> bool" where
  "keeps ok out held s s' \<longleftrightarrow> ok s' \<and> out s' @ held s' = out s @ held s"

definition empties :: "('s \<Rightarrow> bool) \<Rightarrow> ('s \<Rightarrow> 'a list) \<Rightarrow> ('s \<Rightarrow> 'a list) \<Rightarrow> 's \<Rightarrow> 's \<Rightarrow> bool" where
  "empties ok out held s s' \<longleftrightarrow> ok s' \<and> held s' = [] \<and> out s' = out s @ held s"

locale sink_laws =
  fixes ops :: "('s, 'a, 'e) sink_ops" and ok :: "'s \<Rightarrow> bool" and out :: "'s \<Rightarrow> 'a list" and held :: "'s \<Rightarrow> 'a list"
  assumes ready_ok: "ok s \<Longrightarrow> sk_ready ops s = (Ready (Inr u), s') \<Longrightarrow> empties ok out held s s'"
    and ready_pending: "ok s \<Longrightarrow> sk_ready ops s = (Pending, s') \<Longrightarrow> keeps ok out held s s'"
    and start_ok: "ok s \<Longrightarrow> held s = [] \<Longrightarrow> sk_start ops x s = (Inr u, s') \<Longrightarrow> ok s' \<and> out s' = out s \<and> held s' = [x]"
    and flush_ok: "ok s \<Longrightarrow> sk_flush ops s = (Ready (Inr u), s') \<Longrightarrow> empties ok out held s s'"
    and flush_pending: "ok s \<Longrightarrow> sk_flush ops s = (Pending, s') \<Longrightarrow> keeps ok out held s s'"
    and close_ok: "ok s \<Longrightarrow> sk_close ops s = (Ready (Inr u), s') \<Longrightarrow> empties ok out held s s'"
    and close_pending: "ok s \<Longrightarrow> sk_close ops s = (Pending, s') \<Longrightarrow> keeps ok out held s s'"

text \<open>A sink whose readiness may time out, which keeps the items as well; the other operations never time out.\<close>

locale timed_sink = sink_laws ops ok out held
  for ops :: "('s, 'a, 'e SinkTimeoutError) sink_ops" and ok :: "'s \<Rightarrow> bool"
    and out :: "'s \<Rightarrow> 'a list" and held :: "'s \<Rightarrow> 'a list" +
  assumes ready_timeout: "ok s \<Longrightarrow> sk_ready ops s = (Ready (Inl Timeout), s') \<Longrightarrow> keeps ok out held s s'"
    and start_untimed: "sk_start ops x s \<noteq> (Inl Timeout, s')"
    and flush_untimed: "sk_flush ops s \<noteq> (Ready (Inl Timeout), s')"
    and close_untimed: "sk_close ops s \<noteq> (Ready (Inl Timeout), s')"

lemma read_clock_frame [simp]:
  "inner (read_clock t) = inner t" "timer (read_clock t) = timer t" "timeout (read_clock t) = timeout t"
  by (simp_all add: read_clock_def split: list.split)

lemma read_clock_mono: "now t \<le> now (read_clock t)"
  by (simp add: read_clock_def split: list.split)

lemma arm_timer_inner [simp]: "inner (arm_timer t) = inner t"
  by (simp add: arm_timer_def Let_def)

lemma map_err_cases [simp]:
  "map_err f r = Inr u \<longleftrightarrow> r = Inr u" "Inr u = map_err f r \<longleftrightarrow> r = Inr u"
  "map_err f r = Inl d \<longleftrightarrow> (\<exists>e. r = Inl e \<and> d = f e)" "Inl d = map_err f r \<longleftrightarrow> (\<exists>e. r = Inl e \<and> d = f e)"
  by (cases r; auto)+

lemma poll_map_cases [simp]:
  "poll_map f p = Pending \<longleftrightarrow> p = Pending" "poll_map f p = Ready y \<longleftrightarrow> (\<exists>x. p = Ready x \<and> y = f x)"
  by (cases p; auto)+

text \<open>The timeout adaptor turns every sink into one that may time out, and keeps the contract.\<close>

locale inner_sink = sink_laws

sublocale inner_sink \<subseteq> timed: timed_sink "timeout_ops ops" "\<lambda>t. ok (inner t)" "\<lambda>t. out (inner t)" "\<lambda>t. held (inner t)"
proof
  note sp = prod.splits poll.splits if_splits
  show "ok (inner s) \<Longrightarrow> sk_ready (timeout_ops ops) s = (Ready (Inr u), s') \<Longrightarrow>
      empties (\<lambda>t. ok (inner t)) (\<lambda>t. out (inner t)) (\<lambda>t. held (inner t)) s s'" for s s' u
    by (auto simp: timeout_ops_def timeout_ready_def Let_def empties_def split: sp dest: ready_ok)
  show "ok (inner s) \<Longrightarrow> sk_ready (timeout_ops ops) s = (Pending, s') \<Longrightarrow>
      keeps (\<lambda>t. ok (inner t)) (\<lambda>t. out (inner t)) (\<lambda>t. held (inner t)) s s'" for s s'
    by (auto simp: timeout_ops_def timeout_ready_def Let_def keeps_def split: sp dest: ready_pending)
  show "ok (inner s) \<Longrightarrow> sk_ready (timeout_ops ops) s = (Ready (Inl Timeout), s') \<Longrightarrow>
      keeps (\<lambda>t. ok (inner t)) (\<lambda>t. out (inner t)) (\<lambda>t. held (inner t)) s s'" for s s'
    by (auto simp: timeout_ops_def timeout_ready_def Let_def keeps_def split: sp dest: ready_pending)
qed (auto simp: timeout_ops_def timeout_start_def timeout_flush_def timeout_close_def keeps_def empties_def
    split: prod.splits dest: start_ok flush_ok flush_pending close_ok close_pending)

text \<open>The crossfire sink delivers what it holds, in order; it never holds two items.\<close>

definition crossfire_held :: "'a crossfire_sink \<Rightarrow> 'a list" where
  "crossfire_held s = (case pending_send s of None \<Rightarrow> [] | Some x \<Rightarrow> [x]) @ (case buffered s of None \<Rightarrow> [] | Some x \<Rightarrow> [x])"

definition crossfire_ok :: "'a crossfire_sink \<Rightarrow> bool" where
  "crossfire_ok s \<longleftrightarrow> buffered s = None \<or> pending_send s = None"

lemma try_send_effect:
  assumes "try_send x s = (a, s')"
  shows "buffered s' = buffered s \<and> pending_send s' = pending_send s \<and>
    delivered s' = delivered s @ (if a = Sent then [x] else [])"
  using assms by (auto simp: try_send_def split: list.splits)

lemma crossfire_ready_effect:
  "crossfire_ok s \<Longrightarrow> crossfire_ready s = (p, s') \<Longrightarrow>
     (p = Pending \<longrightarrow> keeps crossfire_ok delivered crossfire_held s s') \<and>
     (p = Ready (Inr ()) \<longrightarrow> empties crossfire_ok delivered crossfire_held s s')"
proof (induction s rule: crossfire_ready.induct)
  case (1 s)
  show ?case
  proof (cases "pending_send s")
    case (Some x)
    with 1(2,3) show ?thesis
      by (subst (asm) crossfire_ready.simps)
        (auto simp: keeps_def empties_def crossfire_ok_def crossfire_held_def
          split: prod.splits send_answer.splits dest!: try_send_effect)
  next
    case None
    then show ?thesis
    proof (cases "buffered s")
      case b: (Some x)
      obtain a t where t: "try_send x (s\<lparr>buffered := None\<rparr>) = (a, t)" by fastforce
      show ?thesis
      proof (cases a)
        case Full
        let ?t = "t\<lparr>pending_send := Some x\<rparr>"
        have eq: "crossfire_ready s = crossfire_ready ?t"
          using None b t Full by (subst crossfire_ready.simps) simp
        have "crossfire_ok ?t" using try_send_effect [OF t] by (simp add: crossfire_ok_def)
        with 1(1) [OF None b t [symmetric] Full] 1(3) eq t Full None b try_send_effect [OF t]
        show ?thesis
          by (auto simp: keeps_def empties_def crossfire_held_def)
      qed (use None b t 1(3) try_send_effect [OF t] in \<open>subst (asm) crossfire_ready.simps;
          auto simp: keeps_def empties_def crossfire_ok_def crossfire_held_def\<close>)+
    next
      case b: None
      have "crossfire_ready s = (Ready (Inr ()), s)" using None b by (subst crossfire_ready.simps) simp
      with 1(2,3) None b show ?thesis by (auto simp: empties_def crossfire_held_def)
    qed
  qed
qed

interpretation crossfire: inner_sink crossfire_ops crossfire_ok delivered crossfire_held
proof
  show "crossfire_ok s \<Longrightarrow> crossfire_held s = [] \<Longrightarrow> sk_start crossfire_ops x s = (Inr u, s') \<Longrightarrow>
      crossfire_ok s' \<and> delivered s' = delivered s \<and> crossfire_held s' = [x]" for s s' :: "'a crossfire_sink" and x u
    by (auto simp: crossfire_ops_def crossfire_start_def crossfire_ok_def crossfire_held_def split: option.splits)
qed (auto simp: crossfire_ops_def dest: crossfire_ready_effect)

section \<open>Forwarding keeps every item\<close>

lemma snoc_in_shuffles: "ys @ [x] \<in> shuffles [x] ys" "ys @ [x] \<in> shuffles ys [x]"
  by (induction ys) (auto simp: Cons_in_shuffles_iff)

lemma shuffles_snoc:
  "t \<in> shuffles a b \<Longrightarrow> t @ [x] \<in> shuffles (a @ [x]) b \<and> t @ [x] \<in> shuffles a (b @ [x])"
proof (induction a b arbitrary: t rule: shuffles.induct)
  case (3 y a z b)
  then show ?case by auto
qed (auto simp: snoc_in_shuffles)

text \<open>The items read so far are an interleaving of those in the sink and those dropped, plus the one at hand.\<close>

definition forward_inv ::
  "('s \<Rightarrow> bool) \<Rightarrow> ('s \<Rightarrow> 'a list) \<Rightarrow> ('s \<Rightarrow> 'a list) \<Rightarrow> 's \<Rightarrow> ('s, 'a, 'e) forward \<Rightarrow> bool" where
  "forward_inv ok out held si f \<longleftrightarrow> ok si \<and>
     (case buffered_item f of
        None \<Rightarrow> taken f \<in> shuffles (out si @ held si) (dropped f)
      | Some x \<Rightarrow> \<exists>t. taken f = t @ [x] \<and> t \<in> shuffles (out si @ held si) (dropped f))"

lemma forward_inv_keeps:
  "forward_inv ok out held si f \<Longrightarrow> keeps ok out held si si' \<Longrightarrow> forward_inv ok out held si' (f\<lparr>fw_sink := x\<rparr>)"
  by (auto simp: forward_inv_def keeps_def split: option.splits)

lemma empties_keeps: "empties ok out held s s' \<Longrightarrow> keeps ok out held s s' \<and> held s' = []"
  by (simp add: empties_def keeps_def)

lemma unwrap_inner_bad [simp]:
  "e \<noteq> Timeout \<Longrightarrow> unwrap_inner e \<noteq> FwPanic" "unwrap_inner e \<noteq> FwPending" "unwrap_inner e \<noteq> FwReady (Inr u)"
  by (cases e; simp)+

lemma poll_stream_frame:
  assumes "poll_stream f = (ev, f')"
  shows "fw_sink f' = fw_sink f \<and> buffered_item f' = buffered_item f \<and> taken f' = taken f \<and> dropped f' = dropped f"
  using assms by (auto simp: poll_stream_def split: if_splits list.splits)

text \<open>What the stream still has to offer, and that nothing of it is skipped.\<close>

fun stream_items :: "('a, 'e) stream_event list \<Rightarrow> 'a list" where
  "stream_items [] = []"
| "stream_items (Item x # evs) = x # stream_items evs"
| "stream_items (EndOfStream # evs) = []"
| "stream_items (NotYet # evs) = stream_items evs"
| "stream_items (Failed e # evs) = stream_items evs"

definition stream_inv :: "('a, 'e) stream_event list \<Rightarrow> ('s, 'a, 'e) forward \<Rightarrow> bool" where
  "stream_inv st f \<longleftrightarrow> stream_items st = taken f @ (if fw_done f then [] else stream_items (fw_stream f))"

lemma poll_stream_items:
  assumes "poll_stream f = (ev, f')" and "stream_inv st f"
  shows "(case ev of Item x \<Rightarrow> stream_inv st (f'\<lparr>buffered_item := b, taken := taken f' @ [x]\<rparr>)
    | EndOfStream \<Rightarrow> fw_done f' \<and> stream_inv st f' | _ \<Rightarrow> stream_inv st f')"
  using assms by (auto simp: poll_stream_def stream_inv_def split: if_splits list.splits stream_event.splits)

lemma stream_inv_frame [simp]:
  "stream_inv st (f\<lparr>fw_sink := si\<rparr>) = stream_inv st f" "stream_inv st (f\<lparr>buffered_item := b\<rparr>) = stream_inv st f"
  "stream_inv st (f\<lparr>dropped := d\<rparr>) = stream_inv st f"
  by (simp_all add: stream_inv_def)

context timed_sink
begin

abbreviation live_inv :: "('a, 'e) stream_event list \<Rightarrow> ('s, 'a, 'e) forward \<Rightarrow> bool" where
  "live_inv st f \<equiv> (\<exists>si. fw_sink f = Live si \<and> forward_inv ok out held si f) \<and> stream_inv st f"

abbreviation end_inv :: "('a, 'e) stream_event list \<Rightarrow> 'e forward_result \<Rightarrow> ('s, 'a, 'e) forward \<Rightarrow> bool" where
  "end_inv st r f \<equiv> r \<noteq> FwPanic \<and> (r = FwPending \<longrightarrow> live_inv st f) \<and>
     (r = FwReady (Inr ()) \<longrightarrow> (\<exists>si. fw_sink f = Dropped si \<and> forward_inv ok out held si f \<and> held si = []) \<and>
        buffered_item f = None \<and> taken f = stream_items st)"

abbreviation turn_inv :: "('a, 'e) stream_event list \<Rightarrow> ('e forward_result, ('s, 'a, 'e) forward) turn \<Rightarrow> bool" where
  "turn_inv st tn \<equiv> (case tn of Continue f \<Rightarrow> live_inv st f | Return r f \<Rightarrow> end_inv st r f)"

lemma pull_inv:
  assumes "forward_inv ok out held si f" and "buffered_item f = None" and "fw_sink f = Live si" and "stream_inv st f"
  shows "turn_inv st (forward_pull ops si f)"
proof -
  obtain ev g where g: "poll_stream f = (ev, g)" by fastforce
  have inv: "forward_inv ok out held si g" and fr: "fw_sink g = Live si" "buffered_item g = None"
    using assms poll_stream_frame [OF g] by (auto simp: forward_inv_def)
  then have oks: "ok si" by (simp add: forward_inv_def)
  note items = poll_stream_items [OF g assms(4)]
  show ?thesis
  proof (cases ev)
    case (Item x)
    then show ?thesis using inv fr g items by (auto simp: forward_pull_def forward_inv_def)
  next
    case (Failed e)
    then show ?thesis using g by (simp add: forward_pull_def)
  next
    case EndOfStream
    obtain p si' where c: "sk_close ops si = (p, si')" by fastforce
    have "p \<noteq> Ready (Inl Timeout)" using c close_untimed by auto
    then show ?thesis using EndOfStream g c oks inv fr items close_pending [of si si'] close_ok [of si _ si']
      by (auto simp: forward_pull_def stream_inv_def split: poll.splits sum.splits
          intro: forward_inv_keeps dest!: empties_keeps)
  next
    case NotYet
    obtain p si' where c: "sk_flush ops si = (p, si')" by fastforce
    have "p \<noteq> Ready (Inl Timeout)" using c flush_untimed by auto
    then show ?thesis using NotYet g c oks inv fr items flush_pending [of si si'] flush_ok [of si _ si']
      by (auto simp: forward_pull_def split: poll.splits sum.splits intro: forward_inv_keeps
          dest!: empties_keeps)
  qed
qed

lemma turn_keeps_inv:
  assumes inv: "forward_inv ok out held si f" and live: "fw_sink f = Live si" and st: "stream_inv st f"
  shows "turn_inv st (forward_turn ops si f)"
proof (cases "buffered_item f")
  case None
  then show ?thesis using pull_inv [OF inv None live st] by (simp add: forward_turn_def)
next
  case (Some x)
  then obtain t where t: "taken f = t @ [x]" "t \<in> shuffles (out si @ held si) (dropped f)" and oks: "ok si"
    using inv by (auto simp: forward_inv_def)
  obtain p si1 where r: "sk_ready ops si = (p, si1)" by fastforce
  show ?thesis
  proof (cases "p = Ready (Inr ())")
    case True
    then have e: "empties ok out held si si1" using ready_ok oks r by blast
    obtain q si2 where s: "sk_start ops x si1 = (q, si2)" by fastforce
    show ?thesis
    proof (cases q)
      case (Inl e)
      then show ?thesis using Some r True s start_untimed [of x si1 si2] by (auto simp: forward_turn_def)
    next
      case (Inr u)
      with e s have s2: "ok si2" "out si2 = out si @ held si" "held si2 = [x]"
        using start_ok [of si1 x u si2] by (auto simp: empties_def)
      have "forward_inv ok out held si2 (f\<lparr>fw_sink := Live si2, buffered_item := None\<rparr>)"
        using s2 t shuffles_snoc [OF t(2), of x] by (simp add: forward_inv_def)
      from pull_inv [OF this, of st] show ?thesis using Some r True s Inr st by (simp add: forward_turn_def)
    qed
  next
    case False
    with Some r t oks st inv ready_pending [OF oks, of si1] ready_timeout [OF oks, of si1] shuffles_snoc [OF t(2), of x]
    show ?thesis
      by (auto simp: forward_turn_def forward_inv_def keeps_def
          split: poll.splits sum.splits SinkTimeoutError.splits)
  qed
qed

lemma poll_keeps_inv: "live_inv st f \<Longrightarrow> forward_poll ops f = (r, f') \<Longrightarrow> end_inv st r f'"
proof (induction "forward_size f" arbitrary: f rule: less_induct)
  case less
  then obtain si where si: "fw_sink f = Live si" and inv: "forward_inv ok out held si f" and st: "stream_inv st f" by auto
  have tn: "turn_inv st (forward_turn ops si f)" using turn_keeps_inv [OF inv si st] .
  show ?case
  proof (cases "forward_turn ops si f")
    case (Return q g)
    with less.prems(2) si have "q = r \<and> g = f'" by (subst (asm) forward_poll.simps) simp
    with tn Return show ?thesis by simp
  next
    case (Continue g)
    have "forward_poll ops g = (r, f')" using less.prems(2) si Continue by (subst (asm) forward_poll.simps) simp
    with less.hyps [OF forward_turn_size [OF Continue]] tn Continue show ?thesis by simp
  qed
qed

end

text \<open>The future polled up to \<open>n\<close> times, until it completes.\<close>

fun forward_polls ::
  "nat \<Rightarrow> ('s, 'a, 'e SinkTimeoutError) sink_ops \<Rightarrow> ('s, 'a, 'e) forward \<Rightarrow> 'e forward_result \<times> ('s, 'a, 'e) forward" where
  "forward_polls 0 ops f = (FwPending, f)"
| "forward_polls (Suc n) ops f =
     (case forward_poll ops f of (FwPending, f') \<Rightarrow> forward_polls n ops f' | (r, f') \<Rightarrow> (r, f'))"

context timed_sink
begin

lemma polls_keep_inv: "live_inv st f \<Longrightarrow> forward_polls n ops f = (r, f') \<Longrightarrow> end_inv st r f'"
proof (induction n arbitrary: f)
  case (Suc n)
  obtain q g where q: "forward_poll ops f = (q, g)" by fastforce
  have e: "end_inv st q g" using poll_keeps_inv [OF Suc.prems(1) q] .
  show ?case
  proof (cases "q = FwPending")
    case True
    with Suc.prems(2) q have "forward_polls n ops g = (r, f')" by simp
    with Suc.IH e True show ?thesis by blast
  next
    case False
    with Suc.prems(2) q have "q = r \<and> g = f'" by (cases q) auto
    with e show ?thesis by simp
  qed
qed simp

lemma forward_new_inv: "ok si \<Longrightarrow> out si = [] \<Longrightarrow> held si = [] \<Longrightarrow> live_inv st (forward_new st si)"
  by (simp add: forward_new_def forward_inv_def stream_inv_def)

end

section \<open>The deadline\<close>

fun timeout_run :: "nat \<Rightarrow> ('s, 'a, 'e) sink_ops \<Rightarrow> 's timeout_sink \<Rightarrow> 's timeout_sink" where
  "timeout_run 0 ops t = t"
| "timeout_run (Suc n) ops t = snd (timeout_ready ops (timeout_run n ops t))"

lemma timeout_ready_pending:
  "fst (timeout_ready ops t) = Pending \<Longrightarrow>
    timer (snd (timeout_ready ops t)) = Some (case timer t of Some d \<Rightarrow> d | None \<Rightarrow> now (read_clock t) + timeout t) \<and>
    now (snd (timeout_ready ops t)) < the (timer (snd (timeout_ready ops t))) \<and>
    timeout (snd (timeout_ready ops t)) = timeout t"
  by (auto simp: timeout_ready_def arm_timer_def Let_def read_clock_def split: prod.splits poll.splits if_splits list.splits option.splits)

lemma timeout_run_pending:
  assumes "timer t = None" and "\<And>i. i \<le> n \<Longrightarrow> fst (timeout_ready ops (timeout_run i ops t)) = Pending"
  shows "timer (timeout_run (Suc n) ops t) = Some (now (read_clock t) + timeout t) \<and>
    now (timeout_run (Suc n) ops t) < now (read_clock t) + timeout t"
  using assms
proof (induction n)
  case 0
  then show ?case using timeout_ready_pending [of ops t] by auto
next
  case (Suc n)
  have p: "fst (timeout_ready ops (timeout_run (Suc n) ops t)) = Pending" using Suc.prems(2) [of "Suc n"] by simp
  from Suc show ?case using timeout_ready_pending [OF p] by auto
qed

lemma timeout_ready_timeout:
  "timer t = Some d \<Longrightarrow> fst (timeout_ready ops t) = Ready (Inl Timeout) \<longleftrightarrow>
     fst (sk_ready ops (inner t)) = Pending \<and> d \<le> now (snd (timeout_ready ops t))"
  by (auto simp: timeout_ready_def arm_timer_def Let_def split: prod.splits poll.splits if_splits)

section \<open>Progress\<close>

text \<open>A stream that ends without an error, and how often it is pending before that.\<close>

fun ends :: "('a, 'e) stream_event list \<Rightarrow> bool" where
  "ends [] = False"
| "ends (Item x # evs) = ends evs"
| "ends (NotYet # evs) = ends evs"
| "ends (EndOfStream # evs) = True"
| "ends (Failed e # evs) = False"

fun waits :: "('a, 'e) stream_event list \<Rightarrow> nat" where
  "waits [] = 0"
| "waits (Item x # evs) = waits evs"
| "waits (NotYet # evs) = Suc (waits evs)"
| "waits (EndOfStream # evs) = 0"
| "waits (Failed e # evs) = 0"

text \<open>The channel accepts at least \<open>k\<close> more items besides the one the sink holds.\<close>

definition accepting :: "nat \<Rightarrow> 'a crossfire_sink \<Rightarrow> bool" where
  "accepting k s \<longleftrightarrow> pending_send s = None \<and> list_all (\<lambda>a. a = Sent) (answers s) \<and>
     k + (if buffered s = None then 0 else 1) \<le> length (answers s)"

lemma crossfire_ready_accepting:
  assumes "accepting k s"
  shows "\<exists>s'. crossfire_ready s = (Ready (Inr ()), s') \<and> accepting k s' \<and> buffered s' = None"
proof (cases "buffered s")
  case None
  then have "crossfire_ready s = (Ready (Inr ()), s)"
    using assms by (subst crossfire_ready.simps) (simp add: accepting_def)
  with None assms show ?thesis by simp
next
  case (Some x)
  then obtain as where as: "answers s = Sent # as" using assms by (cases "answers s") (auto simp: accepting_def)
  then have "crossfire_ready s = (Ready (Inr ()), s\<lparr>buffered := None, answers := as, delivered := delivered s @ [x]\<rparr>)"
    using assms Some by (subst crossfire_ready.simps) (simp add: accepting_def try_send_def)
  with as Some assms show ?thesis by (auto simp: accepting_def)
qed

definition smooth :: "('a crossfire_sink timeout_sink, 'a, CrossfireSinkError) forward \<Rightarrow> bool" where
  "smooth f \<longleftrightarrow> \<not> fw_done f \<and> ends (fw_stream f) \<and>
     (\<exists>t. fw_sink f = Live t \<and>
       accepting (length (stream_items (fw_stream f)) + (if buffered_item f = None then 0 else 1)) (inner t))"

definition smooth_end :: "nat \<Rightarrow> 'a list \<Rightarrow> CrossfireSinkError forward_result \<Rightarrow>
    ('a crossfire_sink timeout_sink, 'a, CrossfireSinkError) forward \<Rightarrow> bool" where
  "smooth_end w ds r f \<longleftrightarrow> dropped f = ds \<and>
     (r = FwReady (Inr ()) \<or> r = FwPending \<and> smooth f \<and> Suc (waits (fw_stream f)) = w)"

fun smooth_turn :: "nat \<Rightarrow> 'a list \<Rightarrow> (CrossfireSinkError forward_result,
    ('a crossfire_sink timeout_sink, 'a, CrossfireSinkError) forward) turn \<Rightarrow> bool" where
  "smooth_turn w ds (Return r f) = smooth_end w ds r f"
| "smooth_turn w ds (Continue f) = (smooth f \<and> dropped f = ds \<and> waits (fw_stream f) = w)"

lemma smooth_pull:
  assumes "\<not> fw_done f" and "ends (fw_stream f)" and "fw_sink f = Live t" and "buffered_item f = None"
    and "accepting (length (stream_items (fw_stream f))) (inner t)"
  shows "smooth_turn (waits (fw_stream f)) (dropped f) (forward_pull (timeout_ops crossfire_ops) t f)"
proof -
  obtain ev evs where ev: "fw_stream f = ev # evs" using assms(2) by (cases "fw_stream f") auto
  then show ?thesis
  proof (cases ev)
    case NotYet
    obtain s' where "crossfire_ready (inner t) = (Ready (Inr ()), s')" "accepting (length (stream_items evs)) s'"
      using crossfire_ready_accepting [OF assms(5)] ev NotYet by auto
    then show ?thesis using assms ev NotYet
      by (auto simp: forward_pull_def poll_stream_def timeout_ops_def crossfire_ops_def timeout_flush_def smooth_end_def smooth_def)
  next
    case EndOfStream
    obtain s' where "crossfire_ready (inner t) = (Ready (Inr ()), s')"
      using crossfire_ready_accepting [OF assms(5)] by auto
    then show ?thesis using assms ev EndOfStream
      by (auto simp: forward_pull_def poll_stream_def timeout_ops_def crossfire_ops_def timeout_close_def smooth_end_def)
  qed (use assms ev in \<open>auto simp: forward_pull_def poll_stream_def smooth_def\<close>)
qed

lemma smooth_forward_turn:
  assumes "smooth f" and "fw_sink f = Live t"
  shows "smooth_turn (waits (fw_stream f)) (dropped f) (forward_turn (timeout_ops crossfire_ops) t f)"
proof (cases "buffered_item f")
  case None
  then show ?thesis using assms smooth_pull [of f t] by (auto simp: smooth_def forward_turn_def)
next
  case (Some x)
  let ?k = "length (stream_items (fw_stream f))"
  have "accepting (Suc ?k) (inner t)" using assms Some by (auto simp: smooth_def)
  then obtain s' where s': "crossfire_ready (inner t) = (Ready (Inr ()), s')" "accepting (Suc ?k) s'" "buffered s' = None"
    using crossfire_ready_accepting by blast
  let ?t = "t\<lparr>timer := None, inner := s'\<lparr>buffered := Some x\<rparr>\<rparr>"
  have "accepting ?k (inner ?t)" using s'(2,3) by (simp add: accepting_def)
  then have "smooth_turn (waits (fw_stream f)) (dropped f)
      (forward_pull (timeout_ops crossfire_ops) ?t (f\<lparr>fw_sink := Live ?t, buffered_item := None\<rparr>))"
    using smooth_pull [of "f\<lparr>fw_sink := Live ?t, buffered_item := None\<rparr>" ?t] assms by (simp add: smooth_def)
  moreover have "forward_turn (timeout_ops crossfire_ops) t f =
      forward_pull (timeout_ops crossfire_ops) ?t (f\<lparr>fw_sink := Live ?t, buffered_item := None\<rparr>)"
    using Some s'(1) by (simp add: forward_turn_def timeout_ops_def timeout_ready_def timeout_start_def crossfire_ops_def crossfire_start_def)
  ultimately show ?thesis by simp
qed

lemma smooth_poll:
  "smooth f \<Longrightarrow> forward_poll (timeout_ops crossfire_ops) f = (r, f') \<Longrightarrow> smooth_end (waits (fw_stream f)) (dropped f) r f'"
proof (induction "forward_size f" arbitrary: f rule: less_induct)
  case less
  then obtain t where t: "fw_sink f = Live t" by (auto simp: smooth_def)
  note tn = smooth_forward_turn [OF less.prems(1) t]
  show ?case
  proof (cases "forward_turn (timeout_ops crossfire_ops) t f")
    case (Return q g)
    with less.prems(2) t have "q = r \<and> g = f'" by (subst (asm) forward_poll.simps) simp
    with tn Return show ?thesis by simp
  next
    case (Continue g)
    have "forward_poll (timeout_ops crossfire_ops) g = (r, f')"
      using less.prems(2) t Continue by (subst (asm) forward_poll.simps) simp
    with less.hyps [OF forward_turn_size [OF Continue]] tn Continue show ?thesis by simp
  qed
qed

lemma smooth_polls:
  "smooth f \<Longrightarrow> waits (fw_stream f) < n \<Longrightarrow> forward_polls n (timeout_ops crossfire_ops) f = (r, f') \<Longrightarrow>
     r = FwReady (Inr ()) \<and> dropped f' = dropped f"
proof (induction n arbitrary: f)
  case (Suc n)
  obtain q g where q: "forward_poll (timeout_ops crossfire_ops) f = (q, g)" by fastforce
  from smooth_poll [OF Suc.prems(1) q] Suc q show ?case by (fastforce simp: smooth_end_def)
qed simp

section \<open>Properties\<close>

text \<open>C25. Forwarding through a timed crossfire sink loses nothing silently: while it runs, and whatever the
  channel, the stream and the clock do, the items read are an interleaving of the items delivered, the ones the
  sink holds and the one at hand, with the items dropped by a timeout; on completion every item of the stream was
  delivered, in order, or dropped by a timeout. The future never panics.\<close>

theorem forward_loses_nothing_silently:
  assumes "forward_polls n (timeout_ops crossfire_ops) (forward_new st (with_timeout t0 d ts (bounded_sink_channel as))) = (r, f)"
  shows "r \<noteq> FwPanic \<and>
    (r = FwPending \<longrightarrow> (\<exists>s. fw_sink f = Live s \<and> taken f \<in> shuffles
       (delivered (inner s) @ crossfire_held (inner s) @ (case buffered_item f of None \<Rightarrow> [] | Some x \<Rightarrow> [x])) (dropped f))) \<and>
    (r = FwReady (Inr ()) \<longrightarrow> (\<exists>s. fw_sink f = Dropped s \<and> stream_items st \<in> shuffles (delivered (inner s)) (dropped f)))"
proof -
  let ?si = "with_timeout t0 d ts (bounded_sink_channel as)"
  have "crossfire_ok (inner ?si)" "delivered (inner ?si) = []" "crossfire_held (inner ?si) = []"
    by (simp_all add: with_timeout_def bounded_sink_channel_def crossfire_ok_def crossfire_held_def)
  from crossfire.timed.polls_keep_inv [OF crossfire.timed.forward_new_inv [OF this] assms]
  show ?thesis
    using shuffles_snoc by (fastforce simp: forward_inv_def split: option.splits)
qed

theorem forward_loses_nothing_silently_witness:
  "\<exists>f s. forward_polls 2 (timeout_ops crossfire_ops) (forward_new [Item 1, Item 2, Item 3, EndOfStream]
      (with_timeout 0 5 [0, 6] (bounded_sink_channel [Full, Full, Full, Sent, Sent]))) = (FwReady (Inr ()), f) \<and>
     fw_sink f = Dropped s \<and> delivered (inner s) = [1, 3 :: nat] \<and> dropped f = [2] \<and> [1, 2, 3] \<in> shuffles [1, 3 :: nat] (dropped f)"
proof -
  let ?f = "forward_new [Item 1, Item 2, Item 3, EndOfStream]
    (with_timeout 0 5 [0, 6] (bounded_sink_channel [Full, Full, Full, Sent, Sent])) ::
      (nat crossfire_sink timeout_sink, nat, CrossfireSinkError) forward"
  obtain r f where run: "forward_polls 2 (timeout_ops crossfire_ops) ?f = (r, f)" by fastforce
  have "let (r, f) = forward_polls 2 (timeout_ops crossfire_ops) ?f in r = FwReady (Inr ()) \<and> dropped f = [2] \<and>
      (case fw_sink f of Dropped s \<Rightarrow> delivered (inner s) = [1, 3] | Live s \<Rightarrow> False)"
    by code_simp
  with run have "r = FwReady (Inr ())" "dropped f = [2]" "\<And>s. fw_sink f = Dropped s \<Longrightarrow> delivered (inner s) = [1, 3]"
    by auto
  with forward_loses_nothing_silently [OF run] run show ?thesis by auto
qed

text \<open>C26. The deadline of a timed sink is fixed when it first finds the inner sink not ready, and later polls do not
  extend it: after \<open>n + 1\<close> pending polls the next one reports a timeout exactly if the inner sink is still pending
  and at least the timeout has passed since that first poll.\<close>

theorem timeout_fires_at_deadline:
  assumes "timer t = None" and "\<And>i. i \<le> n \<Longrightarrow> fst (timeout_ready ops (timeout_run i ops t)) = Pending"
    and "timeout_ready ops (timeout_run (Suc n) ops t) = (p, t')"
  shows "p = Ready (Inl Timeout) \<longleftrightarrow>
    fst (sk_ready ops (inner (timeout_run (Suc n) ops t))) = Pending \<and> now (read_clock t) + timeout t \<le> now t'"
  using timeout_ready_timeout [of "timeout_run (Suc n) ops t" _ ops] timeout_run_pending [OF assms(1,2)] assms(3) by auto

theorem timeout_fires_at_deadline_witness:
  "\<exists>p t'. timeout_ready crossfire_ops (timeout_run 1 crossfire_ops
      (with_timeout 0 5 [0, 4, 1] ((bounded_sink_channel []) \<lparr>buffered := Some (7 :: nat)\<rparr>))) = (p, t') \<and>
     p = Ready (Inl Timeout) \<and> now t' = 5"
proof -
  let ?t = "with_timeout 0 5 [0, 4, 1] ((bounded_sink_channel []) \<lparr>buffered := Some (7 :: nat)\<rparr>)"
  obtain p t' where r: "timeout_ready crossfire_ops (timeout_run 1 crossfire_ops ?t) = (p, t')" by fastforce
  have c: "fst (timeout_ready crossfire_ops ?t) = Pending" "timer ?t = None" "now (read_clock ?t) + timeout ?t = 5"
    "fst (sk_ready crossfire_ops (inner (timeout_run 1 crossfire_ops ?t))) = Pending"
    "now (snd (timeout_ready crossfire_ops (timeout_run 1 crossfire_ops ?t))) = 5"
    by code_simp+
  then have "now t' = 5" using r by simp
  with timeout_fires_at_deadline [of ?t 0 crossfire_ops p t'] c r show ?thesis by auto
qed

text \<open>C34. Forwarding terminates: if the stream ends without an error and the channel takes every item, then the future
  completes after one poll more than the stream is pending, having delivered every item in order and dropped none,
  whatever the clock does.\<close>

theorem forward_completes:
  assumes "ends st" and "length (stream_items st) \<le> k" and "waits st < n"
  shows "\<exists>f s. forward_polls n (timeout_ops crossfire_ops)
      (forward_new st (with_timeout t0 d ts (bounded_sink_channel (replicate k Sent)))) = (FwReady (Inr ()), f) \<and>
    fw_sink f = Dropped s \<and> delivered (inner s) = stream_items st \<and> dropped f = []"
proof -
  let ?si = "with_timeout t0 d ts (bounded_sink_channel (replicate k Sent))"
  obtain r f where run: "forward_polls n (timeout_ops crossfire_ops) (forward_new st ?si) = (r, f)" by fastforce
  have sm: "smooth (forward_new st ?si)" and wt: "waits (fw_stream (forward_new st ?si)) < n"
    using assms by (simp_all add: smooth_def forward_new_def accepting_def with_timeout_def bounded_sink_channel_def list_all_iff)
  from smooth_polls [OF sm _ run] wt have r: "r = FwReady (Inr ())" and no: "dropped f = []"
    by (simp_all add: forward_new_def)
  have i: "crossfire_ok (inner ?si)" "delivered (inner ?si) = []" "crossfire_held (inner ?si) = []"
    by (simp_all add: with_timeout_def bounded_sink_channel_def crossfire_ok_def crossfire_held_def)
  from crossfire.timed.polls_keep_inv [OF crossfire.timed.forward_new_inv [OF i] run] r no
  obtain s where "fw_sink f = Dropped s" "delivered (inner s) = stream_items st"
    by (auto simp: forward_inv_def)
  with run r no show ?thesis by auto
qed

theorem forward_completes_witness:
  "\<exists>f s. forward_polls 2 (timeout_ops crossfire_ops) (forward_new [Item 1, NotYet, Item 2, EndOfStream]
      (with_timeout 0 5 [] (bounded_sink_channel (replicate 2 Sent)))) = (FwReady (Inr ()), f) \<and>
    fw_sink f = Dropped s \<and> delivered (inner s) = [1, 2 :: nat] \<and> dropped f = []"
  using forward_completes [of "[Item (1 :: nat), NotYet, Item 2, EndOfStream]" 2 2 0 5 "[]"] by simp

end
