(* ===== verification/Faults.thy ===== *)
theory Faults
  imports Prelude
begin

text \<open>
  Fault injection, \<open>src/testing/blokli/faults.rs\<close>. The concurrent maps are functions, the counters natural numbers
  (they count calls, so they cannot reach the width of \<open>usize\<close>). Entering and leaving the in-flight section
  are several atomic updates, so they are steps of a system in which the threads interleave: \<open>pcs\<close> says
  where each guard is. The two fields \<open>op_order\<close> and \<open>order\<close> are a history: the guards counted by a counter, in the
  order in which they raised it, with the value they saw and whether they have recorded it in the watermark.
\<close>

datatype fault = NoFault | Fail | Hang

datatype chain_op =
    SafeInfo | Balance | TicketPrice | WinProb | ResolutionTime
  | StreamChannels | StreamAccounts | OpenChannelOp | FundChannelOp | CloseChannelOp

datatype event_kind =
    BalanceIncreased | BalanceDecreased | ChannelOpened | ClosureInitiated | ClosedKind | TicketRedeemedKind

datatype chain_event =
    EvBalanceIncreased | EvBalanceDecreased | EvChannelOpened | EvClosureInitiated | EvClosed | EvTicketRedeemed
  | EvOther

fun kind_of :: "chain_event \<Rightarrow> event_kind option" where
  "kind_of EvBalanceIncreased = Some BalanceIncreased"
| "kind_of EvBalanceDecreased = Some BalanceDecreased"
| "kind_of EvChannelOpened = Some ChannelOpened"
| "kind_of EvClosureInitiated = Some ClosureInitiated"
| "kind_of EvClosed = Some ClosedKind"
| "kind_of EvTicketRedeemed = Some TicketRedeemedKind"
| "kind_of EvOther = None"

record chain_faults =
  ops :: "chain_op \<Rightarrow> fault option"
  confirmations :: "chain_op \<Rightarrow> fault option"
  withheld_events :: "event_kind set"
  calls :: "chain_op \<Rightarrow> nat option"
  in_flight :: "chain_op \<Rightarrow> nat option"
  peak_in_flight :: "chain_op \<Rightarrow> nat option"
  in_flight_total :: nat
  peak_in_flight_total :: nat

definition default_faults :: chain_faults where
  "default_faults = \<lparr>ops = \<lambda>_. None, confirmations = \<lambda>_. None, withheld_events = {}, calls = \<lambda>_. None,
     in_flight = \<lambda>_. None, peak_in_flight = \<lambda>_. None, in_flight_total = 0, peak_in_flight_total = 0\<rparr>"

definition unwrap_or :: "'a \<Rightarrow> 'a option \<Rightarrow> 'a" where
  "unwrap_or d x = (case x of None \<Rightarrow> d | Some y \<Rightarrow> y)"

lemma unwrap_or_simps [simp]: "unwrap_or d None = d" "unwrap_or d (Some x) = x"
  by (simp_all add: unwrap_or_def)

section \<open>Configuration\<close>

definition set_fault :: "chain_op \<Rightarrow> fault \<Rightarrow> chain_faults \<Rightarrow> chain_faults" where
  "set_fault op f s = s\<lparr>ops := (ops s)(op \<mapsto> f)\<rparr>"

definition set_confirmation :: "chain_op \<Rightarrow> fault \<Rightarrow> chain_faults \<Rightarrow> chain_faults" where
  "set_confirmation op f s = s\<lparr>confirmations := (confirmations s)(op \<mapsto> f)\<rparr>"

definition clear_fault :: "chain_op \<Rightarrow> chain_faults \<Rightarrow> chain_faults" where
  "clear_fault op s = s\<lparr>ops := (ops s)(op := None), confirmations := (confirmations s)(op := None)\<rparr>"

definition withhold_event :: "event_kind \<Rightarrow> chain_faults \<Rightarrow> chain_faults" where
  "withhold_event k s = s\<lparr>withheld_events := insert k (withheld_events s)\<rparr>"

definition deliver_event :: "event_kind \<Rightarrow> chain_faults \<Rightarrow> chain_faults" where
  "deliver_event k s = s\<lparr>withheld_events := withheld_events s - {k}\<rparr>"

definition calls_of :: "chain_op \<Rightarrow> chain_faults \<Rightarrow> nat" where
  "calls_of op s = unwrap_or 0 (calls s op)"

definition peak_of :: "chain_op \<Rightarrow> chain_faults \<Rightarrow> nat" where
  "peak_of op s = unwrap_or 0 (peak_in_flight s op)"

definition fault_of :: "chain_op \<Rightarrow> chain_faults \<Rightarrow> fault" where
  "fault_of op s = unwrap_or NoFault (ops s op)"

definition confirmation_fault :: "chain_op \<Rightarrow> chain_faults \<Rightarrow> fault" where
  "confirmation_fault op s = unwrap_or NoFault (confirmations s op)"

definition record_call :: "chain_op \<Rightarrow> chain_faults \<Rightarrow> chain_faults" where
  "record_call op s = s\<lparr>calls := (calls s)(op \<mapsto> unwrap_or 0 (calls s op) + 1)\<rparr>"

definition is_withheld :: "chain_event \<Rightarrow> chain_faults \<Rightarrow> bool" where
  "is_withheld ev s = (case kind_of ev of None \<Rightarrow> False | Some k \<Rightarrow> k \<in> withheld_events s)"

section \<open>Gates\<close>

text \<open>The error of an injected fault names the operation; a hanging future is pending at every poll.\<close>

datatype connector_error = InjectedFault chain_op

fun resolve :: "fault \<Rightarrow> chain_op \<Rightarrow> (connector_error + unit) poll" where
  "resolve NoFault op = Ready (Inr ())"
| "resolve Fail op = Ready (Inl (InjectedFault op))"
| "resolve Hang op = Pending"

definition gate :: "chain_op \<Rightarrow> chain_faults \<Rightarrow> (connector_error + unit) poll \<times> chain_faults" where
  "gate op s = (let s = record_call op s in (resolve (fault_of op s) op, s))"

definition gate_stream :: "chain_op \<Rightarrow> chain_faults \<Rightarrow> (connector_error + fault) \<times> chain_faults" where
  "gate_stream op s =
     (let s = record_call op s in
      (case fault_of op s of Fail \<Rightarrow> Inl (InjectedFault op) | other \<Rightarrow> Inr other, s))"

definition confirm :: "chain_op \<Rightarrow> chain_faults \<Rightarrow> (connector_error + unit) poll" where
  "confirm op s = resolve (confirmation_fault op s) op"

section \<open>In-flight guards\<close>

text \<open>
  A guard of operation \<open>op\<close> has raised the per-operation count and saw \<open>n\<close>; recorded it; raised the total and saw
  \<open>n\<close>; is held by the caller; has lowered the per-operation count on drop; is gone.
\<close>

datatype guard_pc =
    Raised chain_op nat | Recorded chain_op | RaisedTotal chain_op nat | Held chain_op | Lowering chain_op | Left chain_op

type_synonym history = "(nat \<times> nat \<times> bool) list"

record flight =
  cf :: chain_faults
  pcs :: "nat \<Rightarrow> guard_pc option"
  op_order :: "chain_op \<Rightarrow> history"
  order :: history

definition flight_init :: flight where
  "flight_init = \<lparr>cf = default_faults, pcs = \<lambda>_. None, op_order = \<lambda>_. [], order = []\<rparr>"

definition note_seen :: "nat \<Rightarrow> history \<Rightarrow> history" where
  "note_seen g h = map (\<lambda>(x, v, d). (x, v, d \<or> x = g)) h"

definition forget :: "nat \<Rightarrow> history \<Rightarrow> history" where
  "forget g h = filter (\<lambda>(x, v, d). x \<noteq> g) h"

datatype fault_change =
    SetFault chain_op fault | SetConfirmation chain_op fault | ClearFault chain_op
  | Withhold event_kind | Deliver event_kind | Called chain_op

text \<open>Changes of the configuration and calls of operations may happen at any time between the updates of the guards.\<close>

fun apply_change :: "fault_change \<Rightarrow> chain_faults \<Rightarrow> chain_faults" where
  "apply_change (SetFault op f) s = set_fault op f s"
| "apply_change (SetConfirmation op f) s = set_confirmation op f s"
| "apply_change (ClearFault op) s = clear_fault op s"
| "apply_change (Withhold k) s = withhold_event k s"
| "apply_change (Deliver k) s = deliver_event k s"
| "apply_change (Called op) s = record_call op s"

lemma apply_change_keeps [simp]:
  "in_flight (apply_change c s) = in_flight s" "peak_in_flight (apply_change c s) = peak_in_flight s"
  "in_flight_total (apply_change c s) = in_flight_total s" "peak_in_flight_total (apply_change c s) = peak_in_flight_total s"
  by (cases c; simp add: set_fault_def set_confirmation_def clear_fault_def withhold_event_def deliver_event_def record_call_def)+

datatype flight_label = Enter nat chain_op | Advance nat | Change fault_change

text \<open>One atomic update of guard \<open>g\<close>; \<open>enter_in_flight\<close> is the first four, \<open>leave_in_flight\<close> the last two.\<close>

definition enter_op :: "nat \<Rightarrow> chain_op \<Rightarrow> flight \<Rightarrow> flight" where
  "enter_op g op s =
     (let n = unwrap_or 0 (in_flight (cf s) op) + 1 in
      s\<lparr>cf := (cf s)\<lparr>in_flight := (in_flight (cf s))(op \<mapsto> n)\<rparr>, pcs := (pcs s)(g \<mapsto> Raised op n),
        op_order := (op_order s)(op := op_order s op @ [(g, n, False)])\<rparr>)"

definition record_op_peak :: "nat \<Rightarrow> chain_op \<Rightarrow> nat \<Rightarrow> flight \<Rightarrow> flight" where
  "record_op_peak g op n s =
     s\<lparr>cf := (cf s)\<lparr>peak_in_flight := (peak_in_flight (cf s))(op \<mapsto>
          (case peak_in_flight (cf s) op of Some p \<Rightarrow> max p n | None \<Rightarrow> n))\<rparr>,
       pcs := (pcs s)(g \<mapsto> Recorded op), op_order := (op_order s)(op := note_seen g (op_order s op))\<rparr>"

definition enter_total :: "nat \<Rightarrow> chain_op \<Rightarrow> flight \<Rightarrow> flight" where
  "enter_total g op s =
     (let n = in_flight_total (cf s) + 1 in
      s\<lparr>cf := (cf s)\<lparr>in_flight_total := n\<rparr>, pcs := (pcs s)(g \<mapsto> RaisedTotal op n), order := order s @ [(g, n, False)]\<rparr>)"

definition record_total_peak :: "nat \<Rightarrow> chain_op \<Rightarrow> nat \<Rightarrow> flight \<Rightarrow> flight" where
  "record_total_peak g op n s =
     s\<lparr>cf := (cf s)\<lparr>peak_in_flight_total := max (peak_in_flight_total (cf s)) n\<rparr>,
       pcs := (pcs s)(g \<mapsto> Held op), order := note_seen g (order s)\<rparr>"

definition leave_op :: "nat \<Rightarrow> chain_op \<Rightarrow> flight \<Rightarrow> flight" where
  "leave_op g op s =
     s\<lparr>cf := (cf s)\<lparr>in_flight := (in_flight (cf s))(op := map_option (\<lambda>n. n - 1) (in_flight (cf s) op))\<rparr>,
       pcs := (pcs s)(g \<mapsto> Lowering op), op_order := (op_order s)(op := forget g (op_order s op))\<rparr>"

definition leave_total :: "nat \<Rightarrow> chain_op \<Rightarrow> flight \<Rightarrow> flight" where
  "leave_total g op s =
     s\<lparr>cf := (cf s)\<lparr>in_flight_total := in_flight_total (cf s) - 1\<rparr>,
       pcs := (pcs s)(g \<mapsto> Left op), order := forget g (order s)\<rparr>"

fun flight_step :: "flight_label \<Rightarrow> flight \<Rightarrow> flight option" where
  "flight_step (Enter g op) s = (if pcs s g = None then Some (enter_op g op s) else None)"
| "flight_step (Advance g) s =
     (case pcs s g of
        Some (Raised op n) \<Rightarrow> Some (record_op_peak g op n s)
      | Some (Recorded op) \<Rightarrow> Some (enter_total g op s)
      | Some (RaisedTotal op n) \<Rightarrow> Some (record_total_peak g op n s)
      | Some (Held op) \<Rightarrow> Some (leave_op g op s)
      | Some (Lowering op) \<Rightarrow> Some (leave_total g op s)
      | _ \<Rightarrow> None)"
| "flight_step (Change c) s = Some (s\<lparr>cf := apply_change c (cf s)\<rparr>)"

text \<open>Both runs of updates without interruption.\<close>

definition enter_in_flight :: "nat \<Rightarrow> chain_op \<Rightarrow> flight \<Rightarrow> flight" where
  "enter_in_flight g op s =
     (let s = enter_op g op s;
          s = record_op_peak g op (unwrap_or 0 (in_flight (cf s) op)) s;
          s = enter_total g op s
      in record_total_peak g op (in_flight_total (cf s)) s)"

definition leave_in_flight :: "nat \<Rightarrow> chain_op \<Rightarrow> flight \<Rightarrow> flight" where
  "leave_in_flight g op s = leave_total g op (leave_op g op s)"

inductive flight_reach :: "flight \<Rightarrow> bool" where
  init: "flight_reach flight_init"
| step: "flight_reach s \<Longrightarrow> flight_step l s = Some s' \<Longrightarrow> flight_reach s'"

fun flight_run :: "flight_label list \<Rightarrow> flight \<Rightarrow> flight option" where
  "flight_run [] s = Some s"
| "flight_run (l # ls) s = Option.bind (flight_step l s) (flight_run ls)"

lemma flight_run_reach: "flight_reach s \<Longrightarrow> flight_run ls s = Some s' \<Longrightarrow> flight_reach s'"
  by (induction ls arbitrary: s) (auto simp: bind_eq_Some_conv intro: flight_reach.step)

lemma flight_reach_enter:
  assumes "flight_reach s" and "pcs s g = None"
  shows "flight_reach (enter_in_flight g op s)"
proof (rule flight_run_reach [OF assms(1)])
  have pc: "pcs (enter_op g op s) g = Some (Raised op (unwrap_or 0 (in_flight (cf (enter_op g op s)) op)))"
    "pcs (record_op_peak g op n t) g = Some (Recorded op)"
    "pcs (enter_total g op t) g = Some (RaisedTotal op (in_flight_total (cf (enter_total g op t))))" for n t
    by (simp_all add: enter_op_def record_op_peak_def enter_total_def Let_def)
  show "flight_run [Enter g op, Advance g, Advance g, Advance g] s = Some (enter_in_flight g op s)"
    using assms(2) by (simp add: enter_in_flight_def pc Let_def)
qed

lemma flight_reach_leave:
  assumes "flight_reach s" and "pcs s g = Some (Held op)"
  shows "flight_reach (leave_in_flight g op s)"
proof (rule flight_run_reach [OF assms(1)])
  show "flight_run [Advance g, Advance g] s = Some (leave_in_flight g op s)"
    using assms(2) by (simp add: leave_in_flight_def leave_op_def)
qed

lemma flight_reach_gate: "flight_reach s \<Longrightarrow> flight_reach (s\<lparr>cf := snd (gate op (cf s))\<rparr>)"
  using flight_reach.step [of s "Change (Called op)"] by (simp add: gate_def Let_def)

lemma pcs_enter [simp]: "pcs (enter_in_flight g op s) = (pcs s)(g \<mapsto> Held op)"
  by (simp add: enter_in_flight_def enter_op_def record_op_peak_def enter_total_def record_total_peak_def Let_def)

lemma pcs_leave [simp]: "pcs (leave_in_flight g op s) = (pcs s)(g \<mapsto> Left op)"
  by (simp add: leave_in_flight_def leave_op_def leave_total_def)

section \<open>Watermarks\<close>

text \<open>The \<open>k\<close>-th guard in the order of raising saw at least \<open>k\<close>: leaving guards only move the others forward.\<close>

fun rising :: "nat \<Rightarrow> history \<Rightarrow> bool" where
  "rising k [] = True"
| "rising k ((g, v, d) # h) = (k + 1 \<le> v \<and> rising (k + 1) h)"

lemma rising_le: "rising k h \<Longrightarrow> j \<le> k \<Longrightarrow> rising j h"
  by (induction k h arbitrary: j rule: rising.induct) auto

lemma rising_filter: "rising k h \<Longrightarrow> rising k (filter P h)"
  by (induction k h rule: rising.induct) (auto intro: rising_le)

lemma rising_snoc: "rising k (h @ [(g, v, d)]) \<longleftrightarrow> rising k h \<and> k + length h + 1 \<le> v"
  by (induction k h rule: rising.induct) auto

lemma rising_note_seen [simp]: "rising k (note_seen g h) = rising k h"
  by (induction k h rule: rising.induct) (auto simp: note_seen_def)

lemma rising_count:
  "rising k h \<Longrightarrow> \<forall>(g, v, d) \<in> set h. d \<longrightarrow> v \<le> p \<Longrightarrow> filter (\<lambda>(g, v, d). d) h \<noteq> [] \<Longrightarrow>
     k + length (filter (\<lambda>(g, v, d). d) h) \<le> p"
proof (induction k h rule: rising.induct)
  case (2 k g v d h)
  show ?case
  proof (cases "filter (\<lambda>(g, v, d). d) h = []")
    case False
    with 2 show ?thesis by auto
  next
    case True
    with 2 show ?thesis by (cases d) simp_all
  qed
qed simp

definition marked :: "nat \<Rightarrow> nat \<Rightarrow> history \<Rightarrow> bool" where
  "marked cur p h \<longleftrightarrow> cur = length h \<and> distinct (map fst h) \<and> rising 0 h \<and> (\<forall>(g, v, d) \<in> set h. d \<longrightarrow> v \<le> p)"

lemma map_fst_note_seen [simp]: "map fst (note_seen g h) = map fst h"
  by (induction h) (auto simp: note_seen_def)

lemma set_note_seen: "set (note_seen g h) = (\<lambda>(x, v, d). (x, v, d \<or> x = g)) ` set h"
  by (simp add: note_seen_def)

lemma set_forget: "set (forget g h) = {e \<in> set h. fst e \<noteq> g}"
  by (auto simp: forget_def)

lemma length_forget: "distinct (map fst h) \<Longrightarrow> g \<in> fst ` set h \<Longrightarrow> length (forget g h) = length h - 1"
proof (induction h)
  case (Cons e h)
  then show ?case
  proof (cases "fst e = g")
    case True
    then have "g \<notin> fst ` set h" using Cons.prems by auto
    then have "forget g h = h" by (auto simp: forget_def filter_id_conv intro: rev_image_eqI)
    with True show ?thesis by (cases e) (simp add: forget_def)
  next
    case False
    then have "length (forget g h) = length h - 1" "h \<noteq> []" using Cons by auto
    then show ?thesis using False by (cases h) (auto simp: forget_def split: prod.splits)
  qed
qed simp

lemma marked_raise: "marked c p h \<Longrightarrow> g \<notin> fst ` set h \<Longrightarrow> marked (Suc c) p (h @ [(g, Suc c, False)])"
  by (auto simp: marked_def rising_snoc)

lemma marked_record: "marked c p h \<Longrightarrow> (g, n, d) \<in> set h \<Longrightarrow> marked c (max p n) (note_seen g h)"
  by (fastforce simp: marked_def set_note_seen distinct_map inj_on_def simp flip: length_map [of fst "note_seen g h"])

lemma marked_forget: "marked c p h \<Longrightarrow> g \<in> fst ` set h \<Longrightarrow> marked (c - 1) p (forget g h)"
  unfolding marked_def by (auto simp: length_forget set_forget) (auto simp: forget_def distinct_map_filter intro: rising_filter)

lemma marked_count: "marked c p h \<Longrightarrow> length (filter (\<lambda>(g, v, d). d) h) \<le> p"
  using rising_count [of 0 h p] by (cases "filter (\<lambda>(g, v, d). d) h = []") (auto simp: marked_def)

section \<open>Guards and histories\<close>

fun raised_op :: "chain_op \<Rightarrow> guard_pc \<Rightarrow> nat option" where
  "raised_op op (Raised o' n) = (if o' = op then Some n else None)"
| "raised_op op _ = None"

fun counted_op :: "chain_op \<Rightarrow> guard_pc \<Rightarrow> bool" where
  "counted_op op (Raised o' n) = (o' = op)"
| "counted_op op (Recorded o') = (o' = op)"
| "counted_op op (RaisedTotal o' n) = (o' = op)"
| "counted_op op (Held o') = (o' = op)"
| "counted_op op _ = False"

fun raised_total :: "guard_pc \<Rightarrow> nat option" where
  "raised_total (RaisedTotal o' n) = Some n"
| "raised_total _ = None"

fun counted_total :: "guard_pc \<Rightarrow> bool" where
  "counted_total (RaisedTotal o' n) = True"
| "counted_total (Held o') = True"
| "counted_total (Lowering o') = True"
| "counted_total _ = False"

definition on :: "(guard_pc \<Rightarrow> bool) \<Rightarrow> guard_pc option \<Rightarrow> bool" where
  "on P x = (case x of None \<Rightarrow> False | Some pc \<Rightarrow> P pc)"

lemma on_simps [simp]: "on P None = False" "on P (Some x) = P x"
  by (simp_all add: on_def)

definition tracked :: "(guard_pc \<Rightarrow> nat option) \<Rightarrow> (guard_pc \<Rightarrow> bool) \<Rightarrow> guard_pc option \<Rightarrow> nat \<Rightarrow> history \<Rightarrow> bool" where
  "tracked raised counted x g h \<longleftrightarrow>
     (if on counted x then \<exists>v. (g, v, raised (the x) = None) \<in> set h \<and> (\<forall>n. raised (the x) = Some n \<longrightarrow> v = n)
      else g \<notin> fst ` set h)"

definition tracks :: "(guard_pc \<Rightarrow> nat option) \<Rightarrow> (guard_pc \<Rightarrow> bool) \<Rightarrow> (nat \<Rightarrow> guard_pc option) \<Rightarrow> history \<Rightarrow> bool" where
  "tracks raised counted ps h \<longleftrightarrow> (\<forall>g. tracked raised counted (ps g) g h)"

lemma tracked_frame [simp]:
  assumes "g' \<noteq> g"
  shows "tracked r c x g' (h @ [(g, n, d)]) = tracked r c x g' h" "tracked r c x g' (note_seen g h) = tracked r c x g' h"
    "tracked r c x g' (forget g h) = tracked r c x g' h"
proof -
  have "(g', v, b) \<in> set (note_seen g h) \<longleftrightarrow> (g', v, b) \<in> set h" for v b using assms by (force simp: set_note_seen)
  moreover have "fst ` set (note_seen g h) = fst ` set h" by (metis list.set_map map_fst_note_seen)
  ultimately show "tracked r c x g' (note_seen g h) = tracked r c x g' h" by (simp add: tracked_def)
  have "g' \<in> fst ` set (forget g h) \<longleftrightarrow> g' \<in> fst ` set h" using assms unfolding set_forget by force
  then show "tracked r c x g' (forget g h) = tracked r c x g' h" using assms by (simp add: tracked_def set_forget)
qed (use assms in \<open>auto simp: tracked_def\<close>)

lemma tracks_upd:
  assumes "tracks r c ps h" and "\<And>g'. g' \<noteq> g \<Longrightarrow> tracked r c (ps g') g' h' = tracked r c (ps g') g' h"
    and "tracked r c (Some pc) g h'"
  shows "tracks r c (ps(g \<mapsto> pc)) h'"
  using assms by (simp add: tracks_def)

lemma tracks_at: "tracks r c ps h \<Longrightarrow> tracked r c (ps g) g h"
  by (simp add: tracks_def)

lemma tracks_other:
  assumes "tracks raised counted ps h" and "on counted (ps g) = counted pc"
    and "counted pc \<Longrightarrow> raised (the (ps g)) = raised pc"
  shows "tracks raised counted (ps(g \<mapsto> pc)) h"
  using tracks_at [OF assms(1), of g] assms(2,3) by (auto simp: tracked_def intro!: tracks_upd [OF assms(1)] split: if_splits)

lemma tracks_raise:
  assumes "tracks raised counted ps h" and "counted pc" "raised pc = Some n"
  shows "tracks raised counted (ps(g \<mapsto> pc)) (h @ [(g, n, False)])"
  by (rule tracks_upd [OF assms(1)]) (simp, simp add: tracked_def assms)

lemma tracks_record:
  assumes "tracks raised counted ps h" and "on counted (ps g)" and "counted pc" "raised pc = None"
  shows "tracks raised counted (ps(g \<mapsto> pc)) (note_seen g h)"
proof (rule tracks_upd [OF assms(1)])
  obtain v d where "(g, v, d) \<in> set h" using tracks_at [OF assms(1), of g] assms(2) by (auto simp: tracked_def)
  then have "(g, v, True) \<in> set (note_seen g h)" by (force simp: set_note_seen)
  then show "tracked raised counted (Some pc) g (note_seen g h)" using assms(3,4) by (auto simp: tracked_def)
qed simp

lemma tracks_forget:
  assumes "tracks raised counted ps h" and "\<not> counted pc"
  shows "tracks raised counted (ps(g \<mapsto> pc)) (forget g h)"
  by (rule tracks_upd [OF assms(1)]) (simp, use assms(2) in \<open>auto simp: tracked_def set_forget\<close>)

lemma tracks_fresh: "tracks raised counted ps h \<Longrightarrow> \<not> on counted (ps g) \<Longrightarrow> g \<notin> fst ` set h"
  using tracks_at [of raised counted ps h g] by (simp add: tracked_def)

lemma tracks_raised:
  "tracks raised counted ps h \<Longrightarrow> ps g = Some pc \<Longrightarrow> counted pc \<Longrightarrow> raised pc = Some n \<Longrightarrow> (g, n, False) \<in> set h"
  using tracks_at [of raised counted ps h g] by (auto simp: tracked_def)

lemma tracks_in:
  "tracks raised counted ps h \<Longrightarrow> ps g = Some pc \<Longrightarrow> counted pc \<Longrightarrow> g \<in> fst ` set h"
  using tracks_at [of raised counted ps h g] by (force simp: tracked_def)

definition op_inv :: "chain_op \<Rightarrow> flight \<Rightarrow> bool" where
  "op_inv op s \<longleftrightarrow> tracks (raised_op op) (counted_op op) (pcs s) (op_order s op) \<and>
     marked (unwrap_or 0 (in_flight (cf s) op)) (peak_of op (cf s)) (op_order s op)"

definition total_inv :: "flight \<Rightarrow> bool" where
  "total_inv s \<longleftrightarrow> tracks raised_total counted_total (pcs s) (order s) \<and>
     marked (in_flight_total (cf s)) (peak_in_flight_total (cf s)) (order s)"

lemmas step_defs = enter_op_def record_op_peak_def enter_total_def record_total_peak_def leave_op_def leave_total_def

lemma op_inv_step:
  assumes "flight_step l s = Some s'" and inv: "op_inv op s"
  shows "op_inv op s'"
proof -
  note tr = inv [unfolded op_inv_def, THEN conjunct1] and mk = inv [unfolded op_inv_def, THEN conjunct2]
  show ?thesis
  proof (cases l)
    case (Enter g o')
    then have s': "s' = enter_op g o' s" and n: "pcs s g = None" using assms(1) by (auto split: if_splits)
    show ?thesis
    proof (cases "o' = op")
      case True
      then show ?thesis using n tr mk tracks_fresh [OF tr, of g]
        by (auto simp: s' op_inv_def enter_op_def Let_def peak_of_def intro!: tracks_raise marked_raise)
    qed (use n tr mk in \<open>auto simp: s' op_inv_def enter_op_def Let_def peak_of_def intro!: tracks_other\<close>)
  next
    case (Advance g)
    then obtain pc where pc: "pcs s g = Some pc" using assms(1) by (auto split: option.splits)
    note facts = Advance pc tr mk assms(1)
    show ?thesis
    proof (cases pc)
      case (Raised o' n)
      then have s': "s' = record_op_peak g o' n s" using facts by simp
      show ?thesis
      proof (cases "o' = op")
        case True
        then have "(g, n, False) \<in> set (op_order s op)" using tracks_raised [OF tr pc, of n] Raised by simp
        then have "marked (unwrap_or 0 (in_flight (cf s) op)) (max (peak_of op (cf s)) n) (note_seen g (op_order s op))"
          using marked_record [OF mk] by blast
        then show ?thesis using True facts Raised
          by (auto simp: s' op_inv_def record_op_peak_def peak_of_def intro!: tracks_record split: option.splits)
      qed (use facts Raised in \<open>auto simp: s' op_inv_def record_op_peak_def peak_of_def intro!: tracks_other\<close>)
    next
      case (Held o')
      then have s': "s' = leave_op g o' s" using facts by simp
      show ?thesis
      proof (cases "o' = op")
        case True
        then have "marked (unwrap_or 0 (in_flight (cf s) op) - 1) (peak_of op (cf s)) (forget g (op_order s op))"
          using marked_forget [OF mk] tracks_in [OF tr pc] Held by simp
        then show ?thesis using True facts Held
          by (cases "in_flight (cf s) op") (auto simp: s' op_inv_def leave_op_def peak_of_def intro!: tracks_forget)
      qed (use facts Held in \<open>auto simp: s' op_inv_def leave_op_def peak_of_def intro!: tracks_other\<close>)
    qed (use facts in \<open>auto simp: op_inv_def step_defs Let_def peak_of_def intro!: tracks_other\<close>)
  qed (use assms in \<open>auto simp: op_inv_def peak_of_def\<close>)
qed

lemma total_inv_step:
  assumes "flight_step l s = Some s'" and inv: "total_inv s"
  shows "total_inv s'"
proof -
  note tr = inv [unfolded total_inv_def, THEN conjunct1] and mk = inv [unfolded total_inv_def, THEN conjunct2]
  show ?thesis
  proof (cases l)
    case (Enter g o')
    then have s': "s' = enter_op g o' s" and n: "pcs s g = None" using assms(1) by (auto split: if_splits)
    show ?thesis using n tr mk by (auto simp: s' total_inv_def enter_op_def Let_def intro!: tracks_other)
  next
    case (Advance g)
    then obtain pc where pc: "pcs s g = Some pc" using assms(1) by (auto split: option.splits)
    note facts = Advance pc tr mk assms(1)
    show ?thesis
    proof (cases pc)
      case (Recorded o')
      then show ?thesis using facts tracks_fresh [OF tr, of g]
        by (auto simp: total_inv_def enter_total_def Let_def intro!: tracks_raise marked_raise)
    next
      case (RaisedTotal o' n)
      then show ?thesis using facts tracks_raised [OF tr pc, of n]
        by (auto simp: total_inv_def record_total_peak_def intro!: tracks_record dest: marked_record)
    next
      case (Lowering o')
      then show ?thesis using facts tracks_in [OF tr pc]
        by (auto simp: total_inv_def leave_total_def intro!: tracks_forget dest: marked_forget)
    qed (use facts in \<open>auto simp: total_inv_def step_defs Let_def intro!: tracks_other\<close>)
  qed (use assms in \<open>auto simp: total_inv_def\<close>)
qed

lemma flight_reach_inv: "flight_reach s \<Longrightarrow> op_inv op s \<and> total_inv s"
proof (induction rule: flight_reach.induct)
  case init
  show ?case
    by (simp add: flight_init_def default_faults_def op_inv_def total_inv_def tracks_def tracked_def marked_def)
next
  case (step s l s')
  then show ?case using op_inv_step total_inv_step by blast
qed

lemma tracked_count:
  assumes "tracks raised counted ps h" and "marked c p h"
    and "\<And>g. g \<in> G \<Longrightarrow> \<exists>pc. ps g = Some pc \<and> counted pc \<and> raised pc = None"
  shows "finite G \<and> card G \<le> p"
proof -
  let ?D = "filter (\<lambda>(g, v, d). d) h"
  have sub: "G \<subseteq> fst ` set ?D"
  proof
    fix g assume "g \<in> G"
    then obtain pc where "ps g = Some pc" "counted pc" "raised pc = None" using assms(3) by blast
    then obtain v where "(g, v, True) \<in> set h" using tracks_at [OF assms(1), of g] by (auto simp: tracked_def)
    then show "g \<in> fst ` set ?D" by force
  qed
  have "card G \<le> card (set (map fst ?D))" using sub by (intro card_mono finite_set) simp
  also have "\<dots> \<le> length (map fst ?D)" by (rule card_length)
  finally have "card G \<le> length ?D" by simp
  with marked_count [OF assms(2)] have "card G \<le> p" by (rule order_trans [rotated])
  moreover have "finite G" using sub by (rule finite_subset) simp
  ultimately show ?thesis by blast
qed

text \<open>The count of an operation is the number of guards that have raised it and not lowered it.\<close>

lemma tracked_exact:
  assumes "tracks raised counted ps h" and "marked c p h"
  shows "card {g. on counted (ps g)} = c"
proof -
  have "{g. on counted (ps g)} = set (map fst h)"
    using tracks_fresh [OF assms(1)] tracks_in [OF assms(1)] by (auto simp: on_def split: option.splits) force+
  moreover have "distinct (map fst h)" "c = length h" using assms(2) by (simp_all add: marked_def)
  ultimately show ?thesis using distinct_card by fastforce
qed

lemma in_flight_exact: "flight_reach s \<Longrightarrow> card {g. on (counted_op op) (pcs s g)} = unwrap_or 0 (in_flight (cf s) op)"
  using flight_reach_inv [of s op] by (auto simp: op_inv_def intro: tracked_exact)

lemma in_flight_total_exact: "flight_reach s \<Longrightarrow> card {g. on counted_total (pcs s g)} = in_flight_total (cf s)"
  using flight_reach_inv [of s SafeInfo] by (auto simp: total_inv_def intro: tracked_exact)

lemma held_covered:
  assumes "flight_reach s"
  shows "card {g. pcs s g = Some (Held op)} \<le> peak_of op (cf s)"
    and "card {g. \<exists>op. pcs s g = Some (Held op)} \<le> peak_in_flight_total (cf s)"
proof -
  have o: "tracks (raised_op op) (counted_op op) (pcs s) (op_order s op)"
      "marked (unwrap_or 0 (in_flight (cf s) op)) (peak_of op (cf s)) (op_order s op)"
    and t: "tracks raised_total counted_total (pcs s) (order s)"
      "marked (in_flight_total (cf s)) (peak_in_flight_total (cf s)) (order s)"
    using flight_reach_inv [OF assms, of op] by (simp_all add: op_inv_def total_inv_def)
  show "card {g. pcs s g = Some (Held op)} \<le> peak_of op (cf s)"
    using tracked_count [OF o, of "{g. pcs s g = Some (Held op)}"] by simp
  have "\<exists>pc. pcs s g = Some pc \<and> counted_total pc \<and> raised_total pc = None" if "\<exists>op. pcs s g = Some (Held op)" for g
    using that by auto
  then show "card {g. \<exists>op. pcs s g = Some (Held op)} \<le> peak_in_flight_total (cf s)"
    using tracked_count [OF t, of "{g. \<exists>op. pcs s g = Some (Held op)}"] by auto
qed

section \<open>Properties\<close>

text \<open>C27. The in-flight watermarks never under-report: however the atomic updates of concurrent guards interleave
  with each other, with calls and with changes of the configuration,
  the peak of an operation is at least the number of its guards that are held, and the total peak at least the number
  of guards held of any operation; when every guard is gone both counts are back at zero.\<close>

theorem watermarks_cover_outstanding:
  assumes "flight_reach s"
  shows "card {g. pcs s g = Some (Held op)} \<le> peak_of op (cf s) \<and>
    card {g. \<exists>op. pcs s g = Some (Held op)} \<le> peak_in_flight_total (cf s) \<and>
    ((\<forall>g pc. pcs s g = Some pc \<longrightarrow> (\<exists>op. pc = Left op)) \<longrightarrow>
       unwrap_or 0 (in_flight (cf s) op) = 0 \<and> in_flight_total (cf s) = 0)"
proof -
  have "\<forall>g. \<not> on (counted_op op) (pcs s g)" "\<forall>g. \<not> on counted_total (pcs s g)"
    if "\<forall>g pc. pcs s g = Some pc \<longrightarrow> (\<exists>op. pc = Left op)"
    using that by (metis on_def counted_op.simps(6) counted_total.simps(6) option.exhaust_sel option.simps(4,5))+
  then show ?thesis
    using held_covered [OF assms] in_flight_exact [OF assms, of op] in_flight_total_exact [OF assms] by auto
qed

theorem watermarks_cover_outstanding_witness:
  "\<exists>s. flight_reach s \<and> card {g. pcs s g = Some (Held FundChannelOp)} = 2 \<and> 2 \<le> peak_of FundChannelOp (cf s) \<and>
     2 \<le> peak_in_flight_total (cf s)"
proof -
  let ?ls = "[Enter 1 FundChannelOp, Enter 2 FundChannelOp, Advance 2, Advance 2, Advance 1, Advance 1, Advance 1, Advance 2]"
  obtain s where run: "flight_run ?ls flight_init = Some s"
    by (simp add: step_defs flight_init_def default_faults_def)
  have r: "flight_reach s" using flight_run_reach [OF flight_reach.init run] .
  have "{g. pcs s g = Some (Held FundChannelOp)} = {1, 2}" "{g. \<exists>op. pcs s g = Some (Held op)} = {1, 2}"
    using run by (auto simp: step_defs flight_init_def default_faults_def Let_def split: if_splits)
  with watermarks_cover_outstanding [OF r, of FundChannelOp] r show ?thesis by auto
qed

end
