(* ===== verification/Udp.thy ===== *)
theory Udp
  imports Stream_Copy Sinks
begin

text \<open>
  The connected UDP stream, \<open>src/network_types/udp.rs\<close>: the sizing of its socket pool, the builder, the receive and
  transmit tasks that share one counterparty, and the write side of the stream itself. The operating system is a
  parameter: what binding a socket answers, what a receive returns and whether a send succeeds. The tasks are a
  system of interleaved steps over the shared counterparty and the two queues. The egress sink (a flume
  sender) is any sink with the laws \<open>sink_laws\<close> of the \<open>Sink\<close> trait; the ingress reader is a parameter.
\<close>

section \<open>Parallelism\<close>

datatype UdpStreamParallelism = Auto | Specific nat   \<comment> \<open>\<open>NonZeroUsize\<close>: the number is positive\<close>

definition parallelism_default :: UdpStreamParallelism where
  "parallelism_default = Specific 1"

definition avail_parallelism :: "bool \<Rightarrow> nat option \<Rightarrow> nat" where
  "avail_parallelism linux available = (case available of Some n \<Rightarrow> if linux then n else 1 | None \<Rightarrow> 1)"

fun split_evenly_with :: "nat \<Rightarrow> UdpStreamParallelism \<Rightarrow> UdpStreamParallelism \<Rightarrow> nat \<times> nat" where
  "split_evenly_with avail Auto Auto = (let h = max (avail div 2) 1 in (h, h))"
| "split_evenly_with avail (Specific a) Auto = (let h = max (avail div 2) 1; a = min h a in (a, h * 2 - a))"
| "split_evenly_with avail Auto (Specific b) = (let h = max (avail div 2) 1; b = min h b in (h * 2 - b, b))"
| "split_evenly_with avail (Specific a) (Specific b) = (let h = max (avail div 2) 1 in (min h a, min h b))"

fun into_num_tasks :: "nat \<Rightarrow> UdpStreamParallelism \<Rightarrow> nat" where
  "into_num_tasks avail Auto = avail"
| "into_num_tasks avail (Specific n) = min n avail"

definition parallelism_from_usize :: "nat \<Rightarrow> UdpStreamParallelism" where
  "parallelism_from_usize v = (if v = 0 then parallelism_default else Specific v)"

definition parallelism_from_option :: "nat option \<Rightarrow> UdpStreamParallelism" where
  "parallelism_from_option v = (case v of None \<Rightarrow> parallelism_default | Some n \<Rightarrow> parallelism_from_usize n)"

section \<open>The builder\<close>

datatype ForeignDataMode = Discard | Accept | RaiseError

record 'a UdpStreamBuilder =
  foreign_data_mode :: ForeignDataMode
  buffer_size :: nat
  queue_size :: "nat option"
  receiver_parallelism :: UdpStreamParallelism
  sender_parallelism :: UdpStreamParallelism
  b_counterparty :: "'a option"

definition builder_default :: "'a UdpStreamBuilder" where
  "builder_default = \<lparr>foreign_data_mode = RaiseError, buffer_size = 2048, queue_size = None,
     receiver_parallelism = parallelism_default, sender_parallelism = parallelism_default, b_counterparty = None\<rparr>"

definition with_foreign_data_mode :: "ForeignDataMode \<Rightarrow> 'a UdpStreamBuilder \<Rightarrow> 'a UdpStreamBuilder" where
  "with_foreign_data_mode m b = b\<lparr>foreign_data_mode := m\<rparr>"

definition with_buffer_size :: "nat \<Rightarrow> 'a UdpStreamBuilder \<Rightarrow> 'a UdpStreamBuilder" where
  "with_buffer_size n b = b\<lparr>buffer_size := n\<rparr>"

definition with_queue_size :: "nat \<Rightarrow> 'a UdpStreamBuilder \<Rightarrow> 'a UdpStreamBuilder" where
  "with_queue_size n b = b\<lparr>queue_size := Some n\<rparr>"

definition with_receiver_parallelism :: "UdpStreamParallelism \<Rightarrow> 'a UdpStreamBuilder \<Rightarrow> 'a UdpStreamBuilder" where
  "with_receiver_parallelism p b = b\<lparr>receiver_parallelism := p\<rparr>"

definition with_sender_parallelism :: "UdpStreamParallelism \<Rightarrow> 'a UdpStreamBuilder \<Rightarrow> 'a UdpStreamBuilder" where
  "with_sender_parallelism p b = b\<lparr>sender_parallelism := p\<rparr>"

definition with_counterparty :: "'a \<Rightarrow> 'a UdpStreamBuilder \<Rightarrow> 'a UdpStreamBuilder" where
  "with_counterparty a b = b\<lparr>b_counterparty := Some a\<rparr>"

datatype 'e udp_error =
    ConnectionRefused | SocketError nat | NotConnected | AddrNotAvailable | ResolveError nat | SinkError 'e

text \<open>
  Creating and binding a socket to an address, with the address reuse options when asked: it fails, or the socket
  got a local address, and then handing it to the runtime succeeds or not.
\<close>

datatype 'a bind_outcome = BindFailed | LocalAddr 'a bool

datatype sock_task = TxTask nat | RxTask nat

type_synonym 'a os_bind = "nat \<Rightarrow> nat \<Rightarrow> bool \<Rightarrow> 'a \<Rightarrow> 'a bind_outcome"   \<comment> \<open>address index, socket id, reuse, address\<close>

definition build_socket ::
  "'a os_bind \<Rightarrow> nat \<Rightarrow> nat \<Rightarrow> nat \<Rightarrow> 'a \<Rightarrow> nat \<Rightarrow> 'a option \<times> sock_task list \<Rightarrow> 'a option \<times> sock_task list" where
  "build_socket os num_rx num_tx i binding_to sock_id acc =
     (case acc of (bound_addr, hs) \<Rightarrow>
       let reuse = max num_rx num_tx > 1;
           target = (case bound_addr of Some a \<Rightarrow> a | None \<Rightarrow> binding_to) in
       case os i sock_id reuse target of
         BindFailed \<Rightarrow> (bound_addr, hs)
       | LocalAddr a from_std_ok \<Rightarrow>
           if (case bound_addr of Some b \<Rightarrow> b \<noteq> a | None \<Rightarrow> False) then (bound_addr, hs)
           else if \<not> from_std_ok then (Some a, hs)
           else (Some a, hs @ (if sock_id < num_tx then [TxTask sock_id] else []) @
                             (if sock_id < num_rx then [RxTask sock_id] else [])))"

definition bind_address ::
  "'a os_bind \<Rightarrow> nat \<Rightarrow> nat \<Rightarrow> nat \<times> 'a \<Rightarrow> 'a option \<times> sock_task list \<Rightarrow> 'a option \<times> sock_task list" where
  "bind_address os num_rx num_tx ia acc =
     fold (build_socket os num_rx num_tx (fst ia) (snd ia)) [0..<max num_rx num_tx] acc"

datatype wstate = Writing | Flushing nat

record ('s, 'a) udp_stream =
  socket_handles :: "sock_task list"
  aborted :: "sock_task list"
  egress_tx :: "'s option"
  counterparty :: "('a \<times> string) option"
  bound_to :: 'a
  wstate :: wstate

definition udp_build ::
  "nat \<Rightarrow> ('a \<Rightarrow> string) \<Rightarrow> 'a os_bind \<Rightarrow> (nat + 'a list) \<Rightarrow> (nat option \<Rightarrow> 's) \<Rightarrow> 'a UdpStreamBuilder \<Rightarrow>
     'e udp_error + ('s, 'a) udp_stream" where
  "udp_build avail to_string os addrs new_queue b =
     (let (num_rx, num_tx) = split_evenly_with avail (receiver_parallelism b) (sender_parallelism b);
          cp = map_option (socket_addr_str to_string) (b_counterparty b) in
      case addrs of
        Inl e \<Rightarrow> Inl (ResolveError e)
      | Inr as \<Rightarrow>
          (case fold (bind_address os num_rx num_tx) (zip [0..<length as] as) (None, []) of
             (None, _) \<Rightarrow> Inl AddrNotAvailable
           | (Some a, hs) \<Rightarrow> Inr \<lparr>socket_handles = hs, aborted = [], egress_tx = Some (new_queue (queue_size b)),
                               counterparty = cp, bound_to = a, wstate = Writing\<rparr>))"

section \<open>Reading, writing and closing\<close>

text \<open>\<open>StreamReader\<close> over the ingress queue is a parameter.\<close>

definition udp_poll_read :: "('r \<Rightarrow> ('e + 'd) poll \<times> 'r) \<Rightarrow> 'r \<Rightarrow> ('e + 'd) poll \<times> 'r" where
  "udp_poll_read ingress_poll r =
     (case ingress_poll r of
        (Pending, r') \<Rightarrow> (Pending, r')
      | (Ready (Inl e), r') \<Rightarrow> (Ready (Inl e), r')
      | (Ready (Inr d), r') \<Rightarrow> (Ready (Inr d), r'))"

function udp_poll_write ::
  "('s, byte list, 'e) sink_ops \<Rightarrow> byte list \<Rightarrow> ('s, 'a) udp_stream \<Rightarrow> ('e udp_error + nat) poll \<times> ('s, 'a) udp_stream" where
  "udp_poll_write ops data u =
     (case egress_tx u of
        None \<Rightarrow> (Ready (Inl NotConnected), u)
      | Some s \<Rightarrow>
          (case wstate u of
             Writing \<Rightarrow>
               (case sk_ready ops s of
                  (Pending, s) \<Rightarrow> (Pending, u\<lparr>egress_tx := Some s\<rparr>)
                | (Ready (Inl e), s) \<Rightarrow> (Ready (Inl (SinkError e)), u\<lparr>egress_tx := Some s\<rparr>)
                | (Ready (Inr _), s) \<Rightarrow>
                    (case sk_start ops data s of
                       (Inl e, s) \<Rightarrow> (Ready (Inl (SinkError e)), u\<lparr>egress_tx := Some s\<rparr>)
                     | (Inr _, s) \<Rightarrow>
                         udp_poll_write ops data (u\<lparr>egress_tx := Some s, wstate := Flushing (length data)\<rparr>)))
           | Flushing len \<Rightarrow>
               (case sk_flush ops s of
                  (Pending, s) \<Rightarrow> (Pending, u\<lparr>egress_tx := Some s\<rparr>)
                | (Ready (Inl e), s) \<Rightarrow> (Ready (Inl (SinkError e)), u\<lparr>egress_tx := Some s, wstate := Writing\<rparr>)
                | (Ready (Inr _), s) \<Rightarrow> (Ready (Inr len), u\<lparr>egress_tx := Some s, wstate := Writing\<rparr>))))"
  by pat_completeness auto

termination
  by (relation "measure (\<lambda>(ops, data, u). case wstate u of Writing \<Rightarrow> 1 | Flushing _ \<Rightarrow> 0)") auto

declare udp_poll_write.simps [simp del]

definition udp_poll_flush ::
  "('s, byte list, 'e) sink_ops \<Rightarrow> ('s, 'a) udp_stream \<Rightarrow> ('e udp_error + unit) poll \<times> ('s, 'a) udp_stream" where
  "udp_poll_flush ops u =
     (case egress_tx u of
        None \<Rightarrow> (Ready (Inl NotConnected), u)
      | Some s \<Rightarrow> (case sk_flush ops s of (p, s) \<Rightarrow> (poll_map (map_err SinkError) p, u\<lparr>egress_tx := Some s\<rparr>)))"

definition udp_poll_shutdown ::
  "('s, byte list, 'e) sink_ops \<Rightarrow> ('s, 'a) udp_stream \<Rightarrow> ('e udp_error + unit) poll \<times> ('s, 'a) udp_stream" where
  "udp_poll_shutdown ops u =
     (case egress_tx u of
        None \<Rightarrow> (Ready (Inl NotConnected), u)
      | Some s \<Rightarrow>
          (case sk_close ops s of
             (Pending, s) \<Rightarrow> (Pending, u\<lparr>egress_tx := Some s\<rparr>)
           | (Ready r, s) \<Rightarrow> (Ready (map_err SinkError r), u\<lparr>egress_tx := Some s, aborted := aborted u @ socket_handles u\<rparr>)))"

definition udp_drop :: "('s, 'a) udp_stream \<Rightarrow> ('s, 'a) udp_stream" where
  "udp_drop u = u\<lparr>aborted := aborted u @ socket_handles u\<rparr>"

section \<open>The socket tasks\<close>

datatype 'a received = Received "byte list" 'a | RecvFailed nat

text \<open>
  One receive of \<open>setup_rx_queue\<close>: what to dispatch, whether the task is then done, and the counterparty. A datagram
  longer than the buffer is cut; one of no bytes counts as the end of the stream.
\<close>

definition rx_receive ::
  "('a \<Rightarrow> string) \<Rightarrow> ForeignDataMode \<Rightarrow> nat \<Rightarrow> 'a received \<Rightarrow> ('a \<times> string) option \<Rightarrow>
     ('e udp_error + byte list) option \<times> bool \<times> ('a \<times> string) option" where
  "rx_receive to_string mode buf_size ev cp =
     (case ev of
        Received d from \<Rightarrow>
          let d = take buf_size d in
          if length d > 0 then
            let addr = (case cp of Some a \<Rightarrow> a | None \<Rightarrow> socket_addr_str to_string from) in
            if from = fst addr \<or> mode = Accept then (Some (Inr d), False, Some addr)
            else if mode = Discard then (None, False, Some addr)
            else (Some (Inl ConnectionRefused), True, Some addr)
          else (None, True, cp)
      | RecvFailed e \<Rightarrow> (Some (Inl (SocketError e)), True, cp))"

text \<open>A receive task waits for data, or for room in the queue with what it received (and from where), or has ended.\<close>

datatype ('e, 'a) rx_pc = Receiving | Dispatching "'e udp_error + byte list" "'a option" bool | RxDone

datatype 'a tx_pc = Taking | Sending "byte list" 'a | TxDone

record ('e, 'a) udp_sys =
  party :: "('a \<times> string) option"
  rx_tasks :: "nat \<Rightarrow> ('e, 'a) rx_pc"
  tx_tasks :: "nat \<Rightarrow> 'a tx_pc"
  ingress :: "('a option \<times> ('e udp_error + byte list)) list"
  egress :: "byte list list"
  wire :: "('a \<times> byte list) list"

datatype 'a udp_label =
    Recv nat "'a received" | Dispatch nat bool     \<comment> \<open>receive task; whether the queue is still there\<close>
  | Take nat | Closed nat | Send nat bool          \<comment> \<open>transmit task; whether the send succeeded\<close>
  | Submit "byte list"                             \<comment> \<open>the stream queues a datagram\<close>

definition from_addr :: "'a received \<Rightarrow> 'a option" where
  "from_addr ev = (case ev of Received d a \<Rightarrow> Some a | RecvFailed e \<Rightarrow> None)"

definition rx_recv_step :: "('a \<Rightarrow> string) \<Rightarrow> ForeignDataMode \<Rightarrow> nat \<Rightarrow> nat \<Rightarrow> 'a received \<Rightarrow> ('e, 'a) udp_sys \<Rightarrow> ('e, 'a) udp_sys" where
  "rx_recv_step to_string mode bs t ev s =
     (case rx_receive to_string mode bs ev (party s) of
        (out, fin, cp) \<Rightarrow>
          s\<lparr>party := cp, rx_tasks := (rx_tasks s)(t :=
              (case out of Some r \<Rightarrow> Dispatching r (from_addr ev) fin | None \<Rightarrow> if fin then RxDone else Receiving))\<rparr>)"

definition rx_dispatch_step :: "nat \<Rightarrow> bool \<Rightarrow> 'e udp_error + byte list \<Rightarrow> 'a option \<Rightarrow> bool \<Rightarrow> ('e, 'a) udp_sys \<Rightarrow> ('e, 'a) udp_sys" where
  "rx_dispatch_step t ok r from fin s =
     s\<lparr>ingress := ingress s @ (if ok then [(from, r)] else []),
       rx_tasks := (rx_tasks s)(t := if fin \<or> \<not> ok then RxDone else Receiving)\<rparr>"

definition tx_take_step :: "nat \<Rightarrow> ('e, 'a) udp_sys \<Rightarrow> ('e, 'a) udp_sys" where
  "tx_take_step t s =
     (case egress s of
        [] \<Rightarrow> s
      | d # ds \<Rightarrow>
          s\<lparr>egress := ds, tx_tasks := (tx_tasks s)(t :=
             (case party s of Some c \<Rightarrow> Sending d (fst c) | None \<Rightarrow> TxDone))\<rparr>)"

definition tx_send_step :: "nat \<Rightarrow> bool \<Rightarrow> byte list \<Rightarrow> 'a \<Rightarrow> ('e, 'a) udp_sys \<Rightarrow> ('e, 'a) udp_sys" where
  "tx_send_step t ok d a s =
     s\<lparr>wire := wire s @ (if ok then [(a, d)] else []), tx_tasks := (tx_tasks s)(t := Taking)\<rparr>"

fun udp_step ::
  "('a \<Rightarrow> string) \<Rightarrow> ForeignDataMode \<Rightarrow> nat \<Rightarrow> 'a udp_label \<Rightarrow> ('e, 'a) udp_sys \<Rightarrow> ('e, 'a) udp_sys option" where
  "udp_step pr mode bs (Recv t ev) s =
     (case rx_tasks s t of Receiving \<Rightarrow> Some (rx_recv_step pr mode bs t ev s) | _ \<Rightarrow> None)"
| "udp_step pr mode bs (Dispatch t ok) s =
     (case rx_tasks s t of Dispatching r from fin \<Rightarrow> Some (rx_dispatch_step t ok r from fin s) | _ \<Rightarrow> None)"
| "udp_step pr mode bs (Take t) s =
     (if tx_tasks s t = Taking \<and> egress s \<noteq> [] then Some (tx_take_step t s) else None)"
| "udp_step pr mode bs (Closed t) s =
     (if tx_tasks s t = Taking \<and> egress s = [] then Some (s\<lparr>tx_tasks := (tx_tasks s)(t := TxDone)\<rparr>) else None)"
| "udp_step pr mode bs (Send t ok) s =
     (case tx_tasks s t of Sending d a \<Rightarrow> Some (tx_send_step t ok d a s) | _ \<Rightarrow> None)"
| "udp_step pr mode bs (Submit d) s = Some (s\<lparr>egress := egress s @ [d]\<rparr>)"

definition udp_init :: "nat \<Rightarrow> nat \<Rightarrow> ('a \<times> string) option \<Rightarrow> ('e, 'a) udp_sys" where
  "udp_init num_rx num_tx cp =
     \<lparr>party = cp, rx_tasks = (\<lambda>t. if t < num_rx then Receiving else RxDone),
      tx_tasks = (\<lambda>t. if t < num_tx then Taking else TxDone), ingress = [], egress = [], wire = []\<rparr>"

inductive udp_reach :: "('a \<Rightarrow> string) \<Rightarrow> ForeignDataMode \<Rightarrow> nat \<Rightarrow> ('e, 'a) udp_sys \<Rightarrow> ('e, 'a) udp_sys \<Rightarrow> bool"
  for pr mode bs where
  refl: "udp_reach pr mode bs s s"
| step: "udp_reach pr mode bs s s' \<Longrightarrow> udp_step pr mode bs l s' = Some s'' \<Longrightarrow> udp_reach pr mode bs s s''"

section \<open>One counterparty\<close>

lemma rx_receive_party: "rx_receive pr mode bs ev (Some c) = (out, fin, cp) \<Longrightarrow> cp = Some c"
  by (auto simp: rx_receive_def Let_def split: received.splits if_splits)

lemma fst_socket_addr_str [simp]: "fst (socket_addr_str pr a) = a"
  by (simp add: socket_addr_str_def)

definition peer :: "('a \<times> string) option \<Rightarrow> 'a option" where
  "peer cp = map_option fst cp"

lemma peer_simps [simp]: "peer (Some c) = Some (fst c)" "peer None = None"
  by (simp_all add: peer_def)

lemma rx_receive_data:
  assumes "rx_receive pr mode bs ev cp = (Some (Inr d), fin, cp')"
  shows "\<exists>a. from_addr ev = Some a \<and> d \<noteq> [] \<and> length d \<le> bs \<and> \<not> fin \<and> (mode = Accept \<or> peer cp' = Some a)"
  using assms by (auto simp: rx_receive_def from_addr_def Let_def split: received.splits if_splits option.splits)

lemma udp_step_party:
  assumes "udp_step pr mode bs l s = Some s'" and "party s = Some c"
  shows "party s' = Some c"
  using assms
  by (cases l) (auto simp: rx_recv_step_def rx_dispatch_step_def tx_take_step_def tx_send_step_def
      split: rx_pc.splits tx_pc.splits prod.splits list.splits if_splits dest: rx_receive_party)

definition accepted_from :: "ForeignDataMode \<Rightarrow> nat \<Rightarrow> 'a option \<Rightarrow> 'a option \<Rightarrow> 'e udp_error + byte list \<Rightarrow> bool" where
  "accepted_from mode bs p from r \<longleftrightarrow>
     (\<forall>d. r = Inr d \<longrightarrow> d \<noteq> [] \<and> length d \<le> bs \<and> from \<noteq> None \<and> (mode = Accept \<or> p = from))"

fun rx_ok :: "ForeignDataMode \<Rightarrow> nat \<Rightarrow> 'a option \<Rightarrow> ('e, 'a) rx_pc \<Rightarrow> bool" where
  "rx_ok mode bs p (Dispatching r from fin) = accepted_from mode bs p from r"
| "rx_ok mode bs p pc = True"

fun tx_ok :: "'a option \<Rightarrow> 'a tx_pc \<Rightarrow> bool" where
  "tx_ok p (Sending d a) = (p = Some a)"
| "tx_ok p pc = True"

definition udp_inv :: "ForeignDataMode \<Rightarrow> nat \<Rightarrow> ('e, 'a) udp_sys \<Rightarrow> bool" where
  "udp_inv mode bs s \<longleftrightarrow> (let p = peer (party s) in
     (\<forall>(from, r) \<in> set (ingress s). accepted_from mode bs p from r) \<and> (\<forall>t. rx_ok mode bs p (rx_tasks s t)) \<and>
     (\<forall>(a, d) \<in> set (wire s). p = Some a) \<and> (\<forall>t. tx_ok p (tx_tasks s t)))"

lemma accepted_from_mono:
  "accepted_from mode bs p from r \<Longrightarrow> (\<And>a. p = Some a \<Longrightarrow> p' = Some a) \<Longrightarrow> accepted_from mode bs p' from r"
  by (auto simp: accepted_from_def)

lemma udp_inv_recv:
  fixes s :: "('e, 'a) udp_sys"
  assumes inv: "udp_inv mode bs s" and st: "rx_tasks s t = Receiving"
  shows "udp_inv mode bs (rx_recv_step pr mode bs t ev s)"
proof -
  obtain out :: "('e udp_error + byte list) option" and fin cp where r: "rx_receive pr mode bs ev (party s) = (out, fin, cp)" by (metis prod_cases3)
  let ?s = "rx_recv_step pr mode bs t ev s" and ?p = "peer (party s)" and ?q = "peer cp"
  have s': "party ?s = cp" by (simp add: rx_recv_step_def r)
  have mono: "?p = Some a \<Longrightarrow> ?q = Some a" for a
    using udp_step_party [of pr mode bs "Recv t ev" s ?s] st s' by (cases "party s") auto
  have acc: "accepted_from mode bs ?p from q \<Longrightarrow> accepted_from mode bs ?q from q" for "from" and q :: "'e udp_error + byte list"
    using accepted_from_mono mono by blast
  have new: "accepted_from mode bs ?q (from_addr ev) q" if "out = Some q" for q
    using rx_receive_data [of pr mode bs ev "party s" _ fin cp] r that by (auto simp: accepted_from_def)
  have "rx_ok mode bs ?p pc \<Longrightarrow> rx_ok mode bs ?q pc" for pc :: "('e, 'a) rx_pc" using acc by (cases pc) auto
  moreover have "tx_ok ?p pc \<Longrightarrow> tx_ok ?q pc" for pc using mono by (cases pc) auto
  ultimately show ?thesis using inv acc mono new
    by (auto simp: udp_inv_def Let_def rx_recv_step_def r split: option.splits)
qed

lemma udp_inv_step:
  assumes inv: "udp_inv mode bs s" and "udp_step pr mode bs l s = Some s'"
  shows "udp_inv mode bs s'"
proof (cases l)
  case (Recv t ev)
  then show ?thesis using assms udp_inv_recv by (auto split: rx_pc.splits)
next
  case (Dispatch t ok)
  then obtain r f fin where t: "rx_tasks s t = Dispatching r f fin" and s': "s' = rx_dispatch_step t ok r f fin s"
    using assms(2) by (auto split: rx_pc.splits)
  have "rx_ok mode bs (peer (party s)) (rx_tasks s t)" using inv by (simp add: udp_inv_def Let_def)
  then show ?thesis using inv t by (auto simp: s' udp_inv_def Let_def rx_dispatch_step_def)
next
  case (Take t)
  then show ?thesis using assms
    by (auto simp: udp_inv_def Let_def tx_take_step_def split: if_splits list.splits option.splits)
next
  case (Send t ok)
  then obtain d a where t: "tx_tasks s t = Sending d a" and s': "s' = tx_send_step t ok d a s"
    using assms(2) by (auto split: tx_pc.splits)
  have "tx_ok (peer (party s)) (tx_tasks s t)" using inv by (simp add: udp_inv_def Let_def)
  then show ?thesis using inv t by (auto simp: s' udp_inv_def Let_def tx_send_step_def)
qed (use assms in \<open>auto simp: udp_inv_def Let_def split: if_splits\<close>)

lemma udp_reach_inv: "udp_reach pr mode bs s s' \<Longrightarrow> udp_inv mode bs s \<Longrightarrow> udp_inv mode bs s'"
  by (induction rule: udp_reach.induct) (auto intro: udp_inv_step)

lemma udp_reach_party: "udp_reach pr mode bs s s' \<Longrightarrow> party s = Some c \<Longrightarrow> party s' = Some c"
  by (induction rule: udp_reach.induct) (auto intro: udp_step_party)

lemma udp_init_inv: "udp_inv mode bs (udp_init nrx ntx cp)"
  by (auto simp: udp_inv_def udp_init_def accepted_from_def)

section \<open>Writing\<close>

fun udp_write ::
  "nat \<Rightarrow> ('s, byte list, 'e) sink_ops \<Rightarrow> byte list \<Rightarrow> ('s, 'a) udp_stream \<Rightarrow> ('e udp_error + nat) poll \<times> ('s, 'a) udp_stream" where
  "udp_write 0 ops data u = (Pending, u)"
| "udp_write (Suc n) ops data u =
     (case udp_poll_write ops data u of (Pending, u') \<Rightarrow> udp_write n ops data u' | (Ready r, u') \<Rightarrow> (Ready r, u'))"

lemma udp_poll_write_flushing:
  assumes "egress_tx u = Some s" and "wstate u = Flushing len"
  shows "udp_poll_write ops data u =
    (case sk_flush ops s of
       (Pending, s) \<Rightarrow> (Pending, u\<lparr>egress_tx := Some s\<rparr>)
     | (Ready (Inl e), s) \<Rightarrow> (Ready (Inl (SinkError e)), u\<lparr>egress_tx := Some s, wstate := Writing\<rparr>)
     | (Ready (Inr _), s) \<Rightarrow> (Ready (Inr len), u\<lparr>egress_tx := Some s, wstate := Writing\<rparr>))"
  using assms by (subst udp_poll_write.simps) simp

lemma udp_poll_write_writing:
  assumes "egress_tx u = Some s" and "wstate u = Writing"
  shows "udp_poll_write ops data u =
    (case sk_ready ops s of
       (Pending, s) \<Rightarrow> (Pending, u\<lparr>egress_tx := Some s\<rparr>)
     | (Ready (Inl e), s) \<Rightarrow> (Ready (Inl (SinkError e)), u\<lparr>egress_tx := Some s\<rparr>)
     | (Ready (Inr _), s) \<Rightarrow>
         (case sk_start ops data s of
            (Inl e, s) \<Rightarrow> (Ready (Inl (SinkError e)), u\<lparr>egress_tx := Some s\<rparr>)
          | (Inr _, s) \<Rightarrow> udp_poll_write ops data (u\<lparr>egress_tx := Some s, wstate := Flushing (length data)\<rparr>)))"
  using assms by (subst udp_poll_write.simps) simp

text \<open>What has entered the sink between two polls of a write of \<open>data\<close> that began after the items \<open>q\<close>.\<close>

definition write_inv ::
  "('s \<Rightarrow> bool) \<Rightarrow> ('s \<Rightarrow> byte list list) \<Rightarrow> ('s \<Rightarrow> byte list list) \<Rightarrow> byte list list \<Rightarrow> byte list \<Rightarrow> ('s, 'a) udp_stream \<Rightarrow> bool" where
  "write_inv ok out held q data u \<longleftrightarrow> (\<exists>s. egress_tx u = Some s \<and> ok s \<and>
     (case wstate u of Writing \<Rightarrow> out s @ held s = q | Flushing n \<Rightarrow> n = length data \<and> out s @ held s = q @ [data]))"

definition write_done ::
  "('s \<Rightarrow> bool) \<Rightarrow> ('s \<Rightarrow> byte list list) \<Rightarrow> ('s \<Rightarrow> byte list list) \<Rightarrow> byte list list \<Rightarrow> byte list \<Rightarrow> nat \<Rightarrow> ('s, 'a) udp_stream \<Rightarrow> bool" where
  "write_done ok out held q data n u \<longleftrightarrow> n = length data \<and> wstate u = Writing \<and>
     (\<exists>s. egress_tx u = Some s \<and> ok s \<and> held s = [] \<and> out s = q @ [data])"

lemma write_flushing:
  assumes laws: "sink_laws ops ok out held" and inv: "write_inv ok out held q data u" and f: "wstate u = Flushing len"
    and p: "udp_poll_write ops data u = (p, u')"
  shows "(p = Pending \<longrightarrow> write_inv ok out held q data u') \<and> (\<forall>n. p = Ready (Inr n) \<longrightarrow> write_done ok out held q data n u')"
proof -
  obtain s where s: "egress_tx u = Some s" "ok s" "out s @ held s = q @ [data]" "len = length data"
    using inv f by (auto simp: write_inv_def)
  obtain r s' where r: "sk_flush ops s = (r, s')" by fastforce
  show ?thesis using p s f r sink_laws.flush_pending [OF laws s(2), of s'] sink_laws.flush_ok [OF laws s(2), of _ s']
    by (auto simp: udp_poll_write_flushing [OF s(1) f] write_inv_def write_done_def keeps_def empties_def
        split: poll.splits sum.splits)
qed

lemma write_poll:
  assumes laws: "sink_laws ops ok out held" and inv: "write_inv ok out held q data u"
    and p: "udp_poll_write ops data u = (p, u')"
  shows "(p = Pending \<longrightarrow> write_inv ok out held q data u') \<and> (\<forall>n. p = Ready (Inr n) \<longrightarrow> write_done ok out held q data n u')"
proof (cases "wstate u")
  case (Flushing len)
  then show ?thesis by (rule write_flushing [OF laws inv _ p])
next
  case Writing
  then obtain s where s: "egress_tx u = Some s" "ok s" "out s @ held s = q" using inv by (auto simp: write_inv_def)
  obtain r s1 where r: "sk_ready ops s = (r, s1)" by fastforce
  show ?thesis
  proof (cases "r = Ready (Inr ())")
    case False
    then show ?thesis using p s Writing r sink_laws.ready_pending [OF laws s(2), of s1]
      by (auto simp: udp_poll_write_writing [OF s(1) Writing] write_inv_def keeps_def split: poll.splits sum.splits)
  next
    case True
    then have e: "ok s1" "held s1 = []" "out s1 = q"
      using sink_laws.ready_ok [OF laws s(2)] r s(3) by (auto simp: empties_def)
    obtain r2 s2 where r2: "sk_start ops data s1 = (r2, s2)" by fastforce
    show ?thesis
    proof (cases r2)
      case (Inl x)
      then show ?thesis using p s Writing r True r2 by (auto simp: udp_poll_write_writing [OF s(1) Writing])
    next
      case (Inr x)
      let ?u = "u\<lparr>egress_tx := Some s2, wstate := Flushing (length data)\<rparr>"
      have "udp_poll_write ops data ?u = (p, u')"
        using p r True r2 Inr by (simp add: udp_poll_write_writing [OF s(1) Writing])
      moreover have "write_inv ok out held q data ?u"
        using sink_laws.start_ok [OF laws e(1,2)] r2 Inr e(3) by (auto simp: write_inv_def)
      ultimately show ?thesis by (intro write_flushing [OF laws]) auto
    qed
  qed
qed

lemma write_polls:
  assumes laws: "sink_laws ops ok out held"
  shows "write_inv ok out held q data u \<Longrightarrow> udp_write n ops data u = (p, u') \<Longrightarrow>
    (p = Pending \<longrightarrow> write_inv ok out held q data u') \<and> (\<forall>n. p = Ready (Inr n) \<longrightarrow> write_done ok out held q data n u')"
proof (induction n arbitrary: u)
  case (Suc n)
  obtain p1 u1 where p1: "udp_poll_write ops data u = (p1, u1)" by fastforce
  with write_poll [OF laws Suc.prems(1) p1] Suc show ?case by (cases p1) auto
qed simp

section \<open>The socket pool\<close>

text \<open>The tasks of sockets \<open>0..<k\<close>, when the operating system binds every socket: \<open>loc\<close> is the address it assigns.\<close>

definition pool_tasks :: "nat \<Rightarrow> nat \<Rightarrow> nat \<Rightarrow> sock_task list" where
  "pool_tasks nrx ntx k = concat (map (\<lambda>j. (if j < ntx then [TxTask j] else []) @ (if j < nrx then [RxTask j] else [])) [0..<k])"

definition binds_all :: "'a os_bind \<Rightarrow> ('a \<Rightarrow> 'a) \<Rightarrow> bool" where
  "binds_all os loc \<longleftrightarrow> (\<forall>i k r t. os i k r t = LocalAddr (loc t) True) \<and> (\<forall>t. loc (loc t) = loc t)"

lemma pool_tasks_Suc:
  "pool_tasks nrx ntx (Suc k) = pool_tasks nrx ntx k @ (if k < ntx then [TxTask k] else []) @ (if k < nrx then [RxTask k] else [])"
  by (simp add: pool_tasks_def)

lemma build_sockets:
  assumes "binds_all os loc" and "b = None \<or> b = Some (loc a')"
  shows "0 < k \<Longrightarrow> fold (build_socket os nrx ntx i a) [0..<k] (b, hs) =
    (Some (loc (case b of None \<Rightarrow> a | Some x \<Rightarrow> x)), hs @ pool_tasks nrx ntx k)"
proof (induction k)
  case (Suc k)
  then show ?case using assms
    by (cases "k = 0") (auto simp: build_socket_def binds_all_def pool_tasks_Suc pool_tasks_def [of _ _ 0] Let_def)
qed simp

lemma bind_addresses:
  assumes "binds_all os loc" and "0 < max nrx ntx"
  shows "b = Some (loc a') \<Longrightarrow> fold (bind_address os nrx ntx) ias (b, hs) =
    (b, hs @ concat (replicate (length ias) (pool_tasks nrx ntx (max nrx ntx))))"
proof (induction ias arbitrary: hs)
  case (Cons e es)
  have "loc (loc a') = loc a'" using assms(1) by (simp add: binds_all_def)
  then show ?case using Cons build_sockets [OF assms(1), of b a' "max nrx ntx" nrx ntx "fst e" "snd e" hs] assms(2)
    by (simp add: bind_address_def)
qed simp

lemma split_positive:
  "(\<forall>a. p = Specific a \<longrightarrow> 0 < a) \<Longrightarrow> (\<forall>b. q = Specific b \<longrightarrow> 0 < b) \<Longrightarrow> split_evenly_with avail p q = (r, t) \<Longrightarrow> 0 < r \<and> 0 < t"
  by (cases p; cases q) (auto simp: Let_def max_def min_def split: if_splits)

lemma count_pool_tasks:
  "count_list (pool_tasks nrx ntx k) (TxTask j) = (if j < min ntx k then 1 else 0)"
  "count_list (pool_tasks nrx ntx k) (RxTask j) = (if j < min nrx k then 1 else 0)"
  by (induction k) (auto simp: pool_tasks_Suc pool_tasks_def [of _ _ 0])

lemma count_list_replicate: "count_list (concat (replicate n xs)) x = n * count_list xs x"
  by (induction n) auto

section \<open>A stopped receiver\<close>

lemma rx_done_step: "udp_step pr mode bs l s = Some s' \<Longrightarrow> rx_tasks s t = RxDone \<Longrightarrow> rx_tasks s' t = RxDone"
  by (cases l) (auto simp: rx_recv_step_def rx_dispatch_step_def tx_take_step_def tx_send_step_def
      split: rx_pc.splits tx_pc.splits prod.splits list.splits if_splits)

lemma rx_done_reach: "udp_reach pr mode bs s s' \<Longrightarrow> rx_tasks s t = RxDone \<Longrightarrow> rx_tasks s' t = RxDone"
  by (induction rule: udp_reach.induct) (auto intro: rx_done_step)

text \<open>What each mode does with a datagram of another address.\<close>

lemma foreign_datagram:
  assumes "a \<noteq> fst c" and "d \<noteq> []" and "0 < bs"
  shows "rx_receive pr Discard bs (Received d a) (Some c) = (None, False, Some c)"
    "rx_receive pr Accept bs (Received d a) (Some c) = (Some (Inr (take bs d)), False, Some c)"
    "rx_receive pr RaiseError bs (Received d a) (Some c) = (Some (Inl ConnectionRefused), True, Some c)"
  using assms by (simp_all add: rx_receive_def Let_def)

section \<open>Properties\<close>

text \<open>C28. The stream talks to one counterparty: however the receive and transmit tasks interleave, the counterparty
  given to the builder stays, every datagram sent goes to the counterparty, and every non-empty datagram passed on,
  of at most the buffer size, came from it unless foreign data are accepted.\<close>

theorem udp_single_counterparty:
  assumes "udp_reach pr mode bs (udp_init nrx ntx cp) s"
  shows "(\<forall>c. cp = Some c \<longrightarrow> party s = Some c) \<and> (\<forall>(a, d) \<in> set (wire s). peer (party s) = Some a) \<and>
    (\<forall>(from, r) \<in> set (ingress s). \<forall>d. r = Inr d \<longrightarrow>
       d \<noteq> [] \<and> length d \<le> bs \<and> from \<noteq> None \<and> (mode = Accept \<or> peer (party s) = from))"
proof -
  have "party s = Some c" if "cp = Some c" for c
    using udp_reach_party [OF assms] that by (simp add: udp_init_def)
  moreover have "udp_inv mode bs s" using udp_reach_inv [OF assms udp_init_inv] .
  ultimately show ?thesis by (auto simp: udp_inv_def Let_def accepted_from_def)
qed

fun udp_run :: "('a \<Rightarrow> string) \<Rightarrow> ForeignDataMode \<Rightarrow> nat \<Rightarrow> 'a udp_label list \<Rightarrow> ('e, 'a) udp_sys \<Rightarrow> ('e, 'a) udp_sys option" where
  "udp_run pr mode bs [] s = Some s"
| "udp_run pr mode bs (l # ls) s = Option.bind (udp_step pr mode bs l s) (udp_run pr mode bs ls)"

lemma udp_reach_trans: "udp_reach pr mode bs s' s'' \<Longrightarrow> udp_reach pr mode bs s s' \<Longrightarrow> udp_reach pr mode bs s s''"
  by (induction rule: udp_reach.induct) (auto intro: udp_reach.step)

lemma udp_run_reach: "udp_run pr mode bs ls s = Some s' \<Longrightarrow> udp_reach pr mode bs s s'"
  by (induction ls arbitrary: s)
    (auto simp: bind_eq_Some_conv intro: udp_reach.refl udp_reach_trans udp_reach.step [OF udp_reach.refl])

theorem udp_single_counterparty_witness:
  "\<exists>s :: (unit, nat) udp_sys. udp_reach (\<lambda>_. []) Discard 10 (udp_init 1 1 None) s \<and>
     ingress s = [(Some 7, Inr [1])] \<and> wire s = [(7, [9])] \<and> peer (party s) = Some 7"
proof -
  let ?ls = "[Recv 0 (Received [1] 7), Dispatch 0 True, Recv 0 (Received [2] 8), Submit [9], Take 0, Send 0 True] :: nat udp_label list"
  obtain s :: "(unit, nat) udp_sys" where run: "udp_run (\<lambda>_. []) Discard 10 ?ls (udp_init 1 1 None) = Some s"
    and s: "ingress s = [(Some 7, Inr [1])]" "wire s = [(7, [9])]"
    by (simp add: udp_init_def rx_recv_step_def rx_receive_def rx_dispatch_step_def tx_take_step_def tx_send_step_def
        from_addr_def Let_def)
  from udp_single_counterparty [OF udp_run_reach [OF run]] s udp_run_reach [OF run] show ?thesis by auto
qed


definition idle_stream :: "send_answer list \<Rightarrow> (byte list crossfire_sink, nat) udp_stream" where
  "idle_stream as = \<lparr>socket_handles = [], aborted = [], egress_tx = Some (bounded_sink_channel as), counterparty = None,
     bound_to = 0, wstate = Writing\<rparr>"



text \<open>The socket pool is sized sanely: with positive requests each side gets at least one socket, never more than
  it asked for, both together at most the available parallelism (or two), and \<open>into_num_tasks\<close> stays within it.\<close>

lemma parallelism_split_bounds:
  assumes "\<forall>a. p = Specific a \<longrightarrow> 0 < a" and "\<forall>b. q = Specific b \<longrightarrow> 0 < b" and "split_evenly_with avail p q = (r, t)"
  shows "0 < r \<and> 0 < t \<and> r + t \<le> max avail 2 \<and> (\<forall>a. p = Specific a \<longrightarrow> r \<le> a) \<and> (\<forall>b. q = Specific b \<longrightarrow> t \<le> b) \<and>
    into_num_tasks avail p \<le> avail"
  using split_positive [OF assms] assms(3)
  by (cases p; cases q) (auto simp: Let_def max_def min_def split: if_splits)

text \<open>Building on addresses that can all be bound starts one transmit and one receive task per socket of the pool
  for every one of the addresses, not only for the first that succeeds, all bound to the address the first one got.\<close>

lemma build_task_pool:
  assumes "binds_all os loc" and "as \<noteq> []"
    and "\<forall>a. receiver_parallelism b = Specific a \<longrightarrow> 0 < a" and "\<forall>a. sender_parallelism b = Specific a \<longrightarrow> 0 < a"
    and "split_evenly_with avail (receiver_parallelism b) (sender_parallelism b) = (nrx, ntx)"
  shows "\<exists>u. udp_build avail pr os (Inr as) new_queue b = (Inr u :: unit udp_error + _) \<and> bound_to u = loc (hd as) \<and>
    counterparty u = map_option (socket_addr_str pr) (b_counterparty b) \<and> wstate u = Writing \<and>
    count_list (socket_handles u) (TxTask j) = (if j < ntx then length as else 0) \<and>
    count_list (socket_handles u) (RxTask j) = (if j < nrx then length as else 0)"
proof -
  let ?k = "max nrx ntx" and ?P = "pool_tasks nrx ntx (max nrx ntx)"
  obtain a rest where as: "as = a # rest" using assms(2) by (cases as) auto
  have k: "0 < ?k" using split_positive [OF assms(3,4,5)] by (simp add: max_def)
  have "fold (bind_address os nrx ntx) (zip [0..<length as] as) (None, []) =
      (Some (loc a), concat (replicate (length as) ?P))"
    using build_sockets [OF assms(1), of None a ?k nrx ntx 0 a "[]"] k
      bind_addresses [OF assms(1) k, of "Some (loc a)" a "zip [Suc 0..<Suc (length rest)] rest" ?P]
    by (simp add: as bind_address_def upt_conv_Cons del: upt_Suc)
  then show ?thesis using assms(5) by (auto simp: udp_build_def as count_list_replicate count_pool_tasks)
qed

text \<open>C30. An empty datagram, of anybody and whatever the mode for foreign data, ends the receive task for good.\<close>

theorem empty_datagram_ends_receiver:
  assumes "rx_tasks s t = Receiving"
  shows "\<exists>s'. udp_step pr mode bs (Recv t (Received [] a)) s = Some s' \<and>
    (\<forall>s''. udp_reach pr mode bs s' s'' \<longrightarrow> rx_tasks s'' t = RxDone)"
proof -
  let ?s = "rx_recv_step pr mode bs t (Received [] a) s"
  have "rx_tasks ?s t = RxDone" by (simp add: rx_recv_step_def rx_receive_def)
  with rx_done_reach have "rx_tasks s'' t = RxDone" if "udp_reach pr mode bs ?s s''" for s'' using that by blast
  with assms show ?thesis by simp
qed

theorem empty_datagram_ends_receiver_witness:
  "\<exists>s' :: (unit, nat) udp_sys. udp_step (\<lambda>_. []) Discard 10 (Recv 0 (Received [] 8)) (udp_init 1 1 (Some (7, []))) = Some s' \<and>
     rx_tasks s' 0 = RxDone"
proof -
  let ?s = "udp_init 1 1 (Some (7, [])) :: (unit, nat) udp_sys"
  have "rx_tasks ?s 0 = Receiving" by (simp add: udp_init_def)
  from empty_datagram_ends_receiver [OF this, of "\<lambda>_. []" Discard 10 8] obtain s' where
    "udp_step (\<lambda>_. []) Discard 10 (Recv 0 (Received [] 8)) ?s = Some s'"
    "\<And>s''. udp_reach (\<lambda>_. []) Discard 10 s' s'' \<Longrightarrow> rx_tasks s'' 0 = RxDone" by auto
  with udp_reach.refl show ?thesis by blast
qed

end
