(* ===== verification/Capture.thy ===== *)
theory Capture
  imports Stream_Copy
begin

text \<open>
  Packet capture, \<open>src/network_types/capture.rs\<close>: \<open>PcapIO\<close> passes reads and writes on to the wrapped object and
  copies the data into a bounded channel, from which a task writes a pcapng file. The wrapped object is the reader
  and the writer of \<open>Stream_Copy\<close>; whether the channel has room at an attempt is a script (exhausted: no room), the
  time of an operation is an argument, and so is the outcome of writing a block.
\<close>

section \<open>Packets\<close>

datatype captured_packet = Incoming nat "byte list" | Outgoing nat "byte list"

fun packet_data :: "captured_packet \<Rightarrow> byte list" where
  "packet_data (Incoming t d) = d"
| "packet_data (Outgoing t d) = d"

fun packet_timestamp :: "captured_packet \<Rightarrow> nat" where
  "packet_timestamp (Incoming t d) = t"
| "packet_timestamp (Outgoing t d) = t"

fun packet_display :: "captured_packet \<Rightarrow> string" where
  "packet_display (Incoming t d) = ''Incoming''"
| "packet_display (Outgoing t d) = ''Outgoing''"

section \<open>The adapter\<close>

record capture_channel =
  room :: "bool list"
  ch_closed :: bool
  captured :: "captured_packet list"

definition capture_send :: "captured_packet \<Rightarrow> capture_channel \<Rightarrow> capture_channel" where
  "capture_send p c =
     (if ch_closed c then c
      else case room c of
             [] \<Rightarrow> c
           | ok # rs \<Rightarrow> c\<lparr>room := rs, captured := captured c @ (if ok then [p] else [])\<rparr>)"

record pcap_io =
  p_reader :: reader
  p_writer :: writer
  write_closed :: bool
  read_closed :: bool
  p_sender :: capture_channel

definition pcap_new :: "reader \<Rightarrow> writer \<Rightarrow> bool list \<Rightarrow> pcap_io" where
  "pcap_new r w rm = \<lparr>p_reader = r, p_writer = w, write_closed = False, read_closed = False,
     p_sender = \<lparr>room = rm, ch_closed = False, captured = []\<rparr>\<rparr>"

definition pcap_poll_write :: "nat \<Rightarrow> byte list \<Rightarrow> pcap_io \<Rightarrow> nat io \<times> pcap_io" where
  "pcap_poll_write now data io =
     (let io = io\<lparr>p_sender := capture_send (Outgoing now data) (p_sender io)\<rparr>;
          (res, w) = poll_write data (p_writer io)
      in (res, io\<lparr>p_writer := w\<rparr>))"

definition pcap_poll_flush :: "pcap_io \<Rightarrow> unit io \<times> pcap_io" where
  "pcap_poll_flush io = (let (res, w) = poll_flush (p_writer io) in (res, io\<lparr>p_writer := w\<rparr>))"

definition pcap_poll_close :: "pcap_io \<Rightarrow> unit io \<times> pcap_io" where
  "pcap_poll_close io =
     (let io = io\<lparr>write_closed := True\<rparr>;
          io = (if read_closed io then io\<lparr>p_sender := (p_sender io)\<lparr>ch_closed := True\<rparr>\<rparr> else io);
          (res, w) = poll_shutdown (p_writer io)
      in (res, io\<lparr>p_writer := w\<rparr>))"

definition pcap_poll_read :: "nat \<Rightarrow> nat \<Rightarrow> pcap_io \<Rightarrow> byte list io \<times> pcap_io" where
  "pcap_poll_read now space io =
     (case poll_read space (p_reader io) of
        (Pending, r) \<Rightarrow> (Pending, io\<lparr>p_reader := r\<rparr>)
      | (Ready (Inl e), r) \<Rightarrow> (Ready (Inl e), io\<lparr>p_reader := r\<rparr>)
      | (Ready (Inr d), r) \<Rightarrow>
          if length d > 0
          then (Ready (Inr d), io\<lparr>p_reader := r, p_sender := capture_send (Incoming now d) (p_sender io)\<rparr>)
          else (Ready (Inr []),
            let io = io\<lparr>p_reader := r, read_closed := True\<rparr> in
            if write_closed io then io\<lparr>p_sender := (p_sender io)\<lparr>ch_closed := True\<rparr>\<rparr> else io))"

section \<open>The file\<close>

datatype pcap_block =
    InterfaceDescription nat nat                    \<comment> \<open>snap length, timestamp resolution\<close>
  | EnhancedPacket nat u32 "byte list" string       \<comment> \<open>timestamp, original length, data, comment\<close>

text \<open>
  What \<open>spawn_blocking\<close> returns for a block: the block is written, writing it is an error (which is the value of the
  finished task), or the task itself failed. Only the last one is an \<open>Err\<close> of the awaited handle.
\<close>

datatype block_outcome = BlockWritten | BlockError | TaskFailed

definition packet_block :: "captured_packet \<Rightarrow> pcap_block" where
  "packet_block p = EnhancedPacket (packet_timestamp p) (of_nat (length (packet_data p))) (packet_data p) (packet_display p)"

fun pcap_loop :: "block_outcome list \<Rightarrow> captured_packet list \<Rightarrow> pcap_block list" where
  "pcap_loop (BlockWritten # os) (p # ps) = packet_block p # pcap_loop os ps"
| "pcap_loop (BlockError # os) (p # ps) = pcap_loop os ps"
| "pcap_loop (TaskFailed # os) (p # ps) = []"
| "pcap_loop [] ps = []"
| "pcap_loop os [] = []"

definition pcap_file :: "bool \<Rightarrow> block_outcome \<Rightarrow> block_outcome list \<Rightarrow> captured_packet list \<Rightarrow> pcap_block list" where
  "pcap_file created header_outcome os ps =
     (if created
      then (if header_outcome = BlockWritten then [InterfaceDescription 0 9] else []) @ pcap_loop os ps
      else [])"

section \<open>What is captured\<close>

datatype cap_op = CapWrite nat "byte list" | CapRead nat nat | CapFlush

text \<open>A life of the adapter, and the same operations on the wrapped object itself.\<close>

fun cap_step :: "cap_op \<Rightarrow> pcap_io \<Rightarrow> pcap_io" where
  "cap_step (CapWrite t d) io = snd (pcap_poll_write t d io)"
| "cap_step (CapRead t n) io = snd (pcap_poll_read t n io)"
| "cap_step CapFlush io = snd (pcap_poll_flush io)"

fun plain_step :: "cap_op \<Rightarrow> reader \<times> writer \<Rightarrow> reader \<times> writer" where
  "plain_step (CapWrite t d) (r, w) = (r, snd (poll_write d w))"
| "plain_step (CapRead t n) (r, w) = (snd (poll_read n r), w)"
| "plain_step CapFlush (r, w) = (r, snd (poll_flush w))"

fun offered :: "cap_op list \<Rightarrow> byte list list" where
  "offered [] = []"
| "offered (CapWrite t d # os) = d # offered os"
| "offered (_ # os) = offered os"

fun is_incoming :: "captured_packet \<Rightarrow> bool" where
  "is_incoming (Incoming t d) = True"
| "is_incoming (Outgoing t d) = False"

abbreviation ins :: "captured_packet list \<Rightarrow> byte list list" where
  "ins ps \<equiv> map packet_data (filter is_incoming ps)"

abbreviation outs :: "captured_packet list \<Rightarrow> byte list list" where
  "outs ps \<equiv> map packet_data (filter (\<lambda>p. \<not> is_incoming p) ps)"

lemma cap_step_plain:
  "(p_reader (cap_step op io), p_writer (cap_step op io)) = plain_step op (p_reader io, p_writer io)"
  by (cases op) (auto simp: pcap_poll_write_def pcap_poll_read_def pcap_poll_flush_def Let_def
      split: prod.splits poll.splits sum.splits)

lemma cap_steps_plain:
  "(p_reader (fold cap_step ops io), p_writer (fold cap_step ops io)) = fold plain_step ops (p_reader io, p_writer io)"
  by (induction ops arbitrary: io) (simp_all add: cap_step_plain)

lemma poll_read_reads:
  assumes "poll_read n r = (res, r')"
  shows "reads r' = reads r @ (case res of Ready (Inr d) \<Rightarrow> if d = [] then [] else [d] | _ \<Rightarrow> [])"
  using assms by (auto simp: poll_read_def split: list.splits rd.splits)

text \<open>The channel is open and has room for \<open>k\<close> more packets; the write side is open.\<close>

definition roomy :: "nat \<Rightarrow> pcap_io \<Rightarrow> bool" where
  "roomy k io \<longleftrightarrow> \<not> ch_closed (p_sender io) \<and> \<not> write_closed io \<and> list_all id (room (p_sender io)) \<and> k \<le> length (room (p_sender io))"

definition logs :: "cap_op list \<Rightarrow> pcap_io \<Rightarrow> pcap_io \<Rightarrow> bool" where
  "logs os io io' \<longleftrightarrow> (\<exists>ps. captured (p_sender io') = captured (p_sender io) @ ps \<and>
     reads (p_reader io') = reads (p_reader io) @ ins ps \<and> offered os = outs ps)"

lemma offered_append: "offered (xs @ ys) = offered xs @ offered ys"
  by (induction xs rule: offered.induct) auto

lemma logs_trans: "logs os io io' \<Longrightarrow> logs os' io' io'' \<Longrightarrow> logs (os @ os') io io''"
  by (auto simp: logs_def offered_append)

lemma cap_step_captured:
  assumes "roomy (Suc k) io"
  shows "roomy k (cap_step op io) \<and> logs [op] io (cap_step op io)"
proof -
  obtain rs where rs: "room (p_sender io) = True # rs" "list_all id rs" "k \<le> length rs"
    and c: "\<not> ch_closed (p_sender io)" "\<not> write_closed io"
    using assms by (cases "room (p_sender io)") (auto simp: roomy_def)
  show ?thesis
  proof (cases op)
    case (CapRead t n)
    obtain res r where r: "poll_read n (p_reader io) = (res, r)" by fastforce
    show ?thesis using rs c poll_read_reads [OF r]
      by (auto simp: CapRead pcap_poll_read_def r capture_send_def Let_def roomy_def logs_def split: poll.splits sum.splits)
  qed (use rs c in \<open>auto simp: pcap_poll_write_def pcap_poll_flush_def capture_send_def Let_def roomy_def logs_def split: prod.splits\<close>)
qed

lemma cap_steps_captured: "roomy (length ops) io \<Longrightarrow> logs ops io (fold cap_step ops io)"
proof (induction ops arbitrary: io)
  case (Cons op ops)
  then have "roomy (length ops) (cap_step op io)" "logs [op] io (cap_step op io)"
    using cap_step_captured [of "length ops" io op] by simp_all
  with Cons.IH logs_trans [of "[op]" io "cap_step op io" ops] show ?case by simp
qed (simp add: logs_def)

section \<open>What the file holds\<close>

text \<open>A reader of the file: the comment names the direction.\<close>

fun block_packet :: "pcap_block \<Rightarrow> captured_packet option" where
  "block_packet (EnhancedPacket t n d c) =
     (if unat n = length d then Some (if c = ''Incoming'' then Incoming t d else Outgoing t d) else None)"
| "block_packet (InterfaceDescription _ _) = None"

fun written :: "block_outcome list \<Rightarrow> captured_packet list \<Rightarrow> captured_packet list" where
  "written (BlockWritten # os) (p # ps) = p # written os ps"
| "written (BlockError # os) (p # ps) = written os ps"
| "written _ _ = []"

lemma block_packet_block: "length (packet_data p) < 2 ^ 32 \<Longrightarrow> block_packet (packet_block p) = Some p"
  by (cases p) (simp_all add: packet_block_def unat_of_nat)

lemma pcap_loop_written: "pcap_loop os ps = map packet_block (written os ps)"
  by (induction os ps rule: pcap_loop.induct) auto

lemma set_written: "set (written os ps) \<subseteq> set ps"
  by (induction os ps rule: written.induct) auto

section \<open>Properties\<close>





end
