(* ===== verification/Platform.thy ===== *)
theory Platform
  imports Prelude
begin

text \<open>
  File helpers, \<open>src/platform/file.rs\<close> and the errors of \<open>src/platform/error.rs\<close>. Paths are strings; pushing a
  component is \<open>PathBuf::push\<close> of the standard library on Unix. The file system behind \<open>std::fs\<close> is a record of
  operations on a state, with errors as the text they display; the parent of a path is a parameter as well.
\<close>

datatype PlatformError = TimeError string | GeneralError string

record 's fs =
  fs_read :: "string \<Rightarrow> 's \<Rightarrow> string + byte list"
  fs_read_string :: "string \<Rightarrow> 's \<Rightarrow> string + string"
  fs_metadata :: "string \<Rightarrow> 's \<Rightarrow> string + unit"
  fs_is_dir :: "string \<Rightarrow> 's \<Rightarrow> bool"
  fs_create_dir_all :: "string \<Rightarrow> 's \<Rightarrow> (string + unit) \<times> 's"
  fs_write :: "string \<Rightarrow> byte list \<Rightarrow> 's \<Rightarrow> (string + unit) \<times> 's"
  fs_remove_dir_all :: "string \<Rightarrow> 's \<Rightarrow> (string + unit) \<times> 's"
  path_parent :: "string \<Rightarrow> string option"

definition quoted :: "string \<Rightarrow> string" where
  "quoted s = CHR 0x27 # s @ [CHR 0x27]"

definition map_general :: "(string \<Rightarrow> string) \<Rightarrow> string + 'a \<Rightarrow> PlatformError + 'a" where
  "map_general f r = (case r of Inl e \<Rightarrow> Inl (GeneralError (f e)) | Inr x \<Rightarrow> Inr x)"

definition read_to_string :: "'s fs \<Rightarrow> string \<Rightarrow> 's \<Rightarrow> PlatformError + string" where
  "read_to_string F path s =
     map_general (\<lambda>e. ''Failed to read the file '' @ quoted path @ '' with error: '' @ e) (fs_read_string F path s)"

definition read_file :: "'s fs \<Rightarrow> string \<Rightarrow> 's \<Rightarrow> PlatformError + byte list" where
  "read_file F path s =
     map_general (\<lambda>e. ''Failed to read the file '' @ quoted path @ '' with error: '' @ e) (fs_read F path s)"

definition path_push :: "string \<Rightarrow> string \<Rightarrow> string" where
  "path_push p c =
     (if c \<noteq> [] \<and> hd c = CHR ''/'' then c
      else if p \<noteq> [] \<and> last p \<noteq> CHR ''/'' then p @ CHR ''/'' # c
      else p @ c)"

definition join :: "string list \<Rightarrow> PlatformError + string" where
  "join components = Inr (fold (\<lambda>c p. path_push p c) components [])"

definition remove_dir_all :: "'s fs \<Rightarrow> string \<Rightarrow> 's \<Rightarrow> (PlatformError + unit) \<times> 's" where
  "remove_dir_all F path s = (case fs_remove_dir_all F path s of (r, s') \<Rightarrow> (map_general id r, s'))"

definition write_contents :: "'s fs \<Rightarrow> string \<Rightarrow> byte list \<Rightarrow> 's \<Rightarrow> (PlatformError + unit) \<times> 's" where
  "write_contents F path contents s =
     (case fs_write F path contents s of
        (r, s') \<Rightarrow> (map_general (\<lambda>e. ''Failed to write to file '' @ quoted path @ '': '' @ e) r, s'))"

definition write_file :: "'s fs \<Rightarrow> string \<Rightarrow> byte list \<Rightarrow> 's \<Rightarrow> (PlatformError + unit) \<times> 's" where
  "write_file F path contents s =
     (case path_parent F path of
        None \<Rightarrow> write_contents F path contents s
      | Some d \<Rightarrow>
          if fs_is_dir F d s then write_contents F path contents s
          else (case fs_create_dir_all F d s of
                  (Inl e, s') \<Rightarrow> (Inl (GeneralError (''Failed to create dir '' @ quoted path @ '': '' @ e)), s')
                | (Inr _, s') \<Rightarrow> write_contents F path contents s'))"

definition metadata :: "'s fs \<Rightarrow> string \<Rightarrow> 's \<Rightarrow> PlatformError + unit" where
  "metadata F path s = map_general id (fs_metadata F path s)"

section \<open>Paths\<close>

text \<open>An absolute component discards what was joined before it.\<close>

lemma join_absolute: "join (xs @ (CHR ''/'' # c) # ys) = join ((CHR ''/'' # c) # ys)"
  by (simp add: join_def path_push_def)

definition plain_component :: "string \<Rightarrow> bool" where
  "plain_component c \<longleftrightarrow> c \<noteq> [] \<and> hd c \<noteq> CHR ''/'' \<and> last c \<noteq> CHR ''/''"

fun slashed :: "string list \<Rightarrow> string" where
  "slashed [] = []"
| "slashed [c] = c"
| "slashed (c # d # cs) = c @ CHR ''/'' # slashed (d # cs)"

lemma fold_push_plain:
  "list_all plain_component cs \<Longrightarrow> p \<noteq> [] \<Longrightarrow> last p \<noteq> CHR ''/'' \<Longrightarrow>
     fold (\<lambda>c p. path_push p c) cs p = slashed (p # cs)"
proof (induction cs arbitrary: p)
  case (Cons c cs)
  have "path_push p c = p @ CHR ''/'' # c" "last (p @ CHR ''/'' # c) \<noteq> CHR ''/''"
    using Cons.prems by (auto simp: path_push_def plain_component_def)
  with Cons.IH [of "p @ CHR ''/'' # c"] Cons.prems show ?case by (cases cs) auto
qed simp

text \<open>Plain components are joined by single slashes.\<close>

lemma join_plain: "list_all plain_component cs \<Longrightarrow> join cs = Inr (slashed cs)"
proof (cases cs)
  case (Cons c rest)
  assume a: "list_all plain_component cs"
  then have "path_push [] c = c" by (auto simp: Cons path_push_def plain_component_def)
  then show ?thesis using a fold_push_plain [of rest c] by (simp add: Cons join_def plain_component_def)
qed (simp add: join_def)

section \<open>Writing and reading\<close>

text \<open>What was written can be read back, whether or not the directory had to be created.\<close>

lemma write_read_roundtrip:
  assumes "\<And>p c s s'. fs_write F p c s = (Inr (), s') \<Longrightarrow> fs_read F p s' = Inr c"
    and "write_file F path contents s = (Inr (), s')"
  shows "read_file F path s' = Inr contents"
proof -
  have "\<exists>s1. fs_write F path contents s1 = (Inr (), s')"
    using assms(2) by (auto simp: write_file_def write_contents_def map_general_def split: option.splits if_splits prod.splits sum.splits)
  with assms(1) show ?thesis by (auto simp: read_file_def map_general_def)
qed

text \<open>The directory is created exactly when the parent is not one yet; if that fails nothing is written.\<close>

lemma write_fails_without_parent:
  assumes "path_parent F path = Some d" and "\<not> fs_is_dir F d s" and "fs_create_dir_all F d s = (Inl e, s')"
  shows "write_file F path contents s = (Inl (GeneralError (''Failed to create dir '' @ quoted path @ '': '' @ e)), s')"
  using assms by (simp add: write_file_def)


section \<open>Time\<close>

text \<open>
  \<open>src/platform/time.rs\<close>. The clock is a function of the state. \<open>trace_timed!\<close> is compiled with or without the
  feature \<open>platform-trace-timing\<close>; its lines carry the label, the further fields and the elapsed milliseconds.
\<close>

definition current_time :: "('s \<Rightarrow> nat) \<Rightarrow> 's \<Rightarrow> nat" where
  "current_time system_clock s = system_clock s"

definition trace_timed ::
  "bool \<Rightarrow> bool \<Rightarrow> ('s \<Rightarrow> nat) \<Rightarrow> string \<Rightarrow> 'f list \<Rightarrow> ('s \<Rightarrow> 'a \<times> 's) \<Rightarrow> 's \<Rightarrow>
     'a \<times> 's \<times> (string \<times> 'f list \<times> u64) list" where
  "trace_timed feature trace_enabled instant label extra body s =
     (if feature
      then (let start = (if trace_enabled then Some (instant s) else None);
                (result, s') = body s
            in (result, s',
                case start of
                  None \<Rightarrow> []
                | Some t \<Rightarrow> [(label, extra, of_nat ((instant s' - t) div 10 ^ 6))]))
      else (let (result, s') = body s in (result, s', [])))"

lemma trace_timed_transparent:
  "(\<lambda>(r, s', log). (r, s')) (trace_timed feature trace_enabled instant label extra body s) = body s"
  "snd (snd (trace_timed feature trace_enabled instant label extra body s)) \<noteq> [] \<longleftrightarrow> feature \<and> trace_enabled"
  by (auto simp: trace_timed_def Let_def split: prod.splits option.splits)

end
