(* ===== verification/Connector.thy ===== *)
theory Connector
  imports Emulator Faults
begin

text \<open>
  The view of the test connector, \<open>src/testing/blokli/connector.rs\<close>: the caches it keeps of accounts and channels, how
  they are loaded, the chain events it derives from updates of the channel graph, and what a subscriber gets. Parsing
  and building of entries are code outside the repository: the record \<open>parsers\<close>. Models of accounts and channels are
  those of \<open>Emulator\<close>, faults those of \<open>Faults\<close>; \<open>Submission\<close> has the operations that send transactions.
\<close>

section \<open>Entries\<close>

datatype entry_status = StOpen | StPending nat | StClosed

record chan_entry =
  ce_src :: address
  ce_dst :: address
  ce_balance :: nat
  ce_ticket_index :: nat
  ce_status :: entry_status
  ce_epoch :: u32

datatype 'm entry_type = Announced "'m list" | NotAnnounced

record ('k, 'm) acc_entry =
  ae_key :: 'k
  ae_addr :: address
  ae_key_id :: u32
  ae_type :: "'m entry_type"
  ae_safe :: "address option"

record ('k, 'm) parsers =
  ps_key :: "string \<Rightarrow> 'k option"
  ps_addr :: "string \<Rightarrow> address option"
  ps_multiaddr :: "string \<Rightarrow> 'm option"
  ps_time :: "string \<Rightarrow> nat option"
  ps_balance :: "string \<Rightarrow> nat option"
  ps_build :: "chan_entry \<Rightarrow> chan_entry option"      \<comment> \<open>\<open>ChannelBuilder::build\<close>\<close>
  ps_id :: "chan_entry \<Rightarrow> hash"                      \<comment> \<open>\<open>get_id\<close>\<close>

definition convert_account_model :: "('k, 'm) parsers \<Rightarrow> account \<Rightarrow> ('k, 'm) acc_entry option" where
  "convert_account_model P m =
     (let et = (if multi_addresses m \<noteq> [] then Announced (List.map_filter (ps_multiaddr P) (multi_addresses m)) else NotAnnounced) in
      case ps_key P (packet_key m) of
        None \<Rightarrow> None
      | Some k \<Rightarrow>
          (case ps_addr P (chain_key m) of
             None \<Rightarrow> None
           | Some a \<Rightarrow>
               (case safe_address m of
                  None \<Rightarrow> Some \<lparr>ae_key = k, ae_addr = a, ae_key_id = keyid m, ae_type = et, ae_safe = None\<rparr>
                | Some s \<Rightarrow>
                    (case ps_addr P s of
                       None \<Rightarrow> None
                     | Some sa \<Rightarrow> Some \<lparr>ae_key = k, ae_addr = a, ae_key_id = keyid m, ae_type = et, ae_safe = Some sa\<rparr>))))"

definition convert_status :: "('k, 'm) parsers \<Rightarrow> channel \<Rightarrow> entry_status option" where
  "convert_status P m =
     (case ch_status m of
        Open \<Rightarrow> Some StOpen
      | PendingToClose \<Rightarrow> map_option StPending (Option.bind (closure_time m) (ps_time P))
      | Closed \<Rightarrow> Some StClosed)"

definition convert_channel_model :: "('k, 'm) parsers \<Rightarrow> channel \<Rightarrow> address \<Rightarrow> address \<Rightarrow> chan_entry option" where
  "convert_channel_model P m src dst =
     (case convert_status P m of
        None \<Rightarrow> None
      | Some st \<Rightarrow>
          (case ps_balance P (ch_balance m) of
             None \<Rightarrow> None
           | Some b \<Rightarrow>
               (case parse_uint 64 (ticket_index m) of
                  None \<Rightarrow> None
                | Some ti \<Rightarrow> ps_build P \<lparr>ce_src = src, ce_dst = dst, ce_balance = b, ce_ticket_index = ti,
                                         ce_status = st, ce_epoch = ch_epoch m\<rparr>)))"

section \<open>Caches and events\<close>

record ('k, 'm) caches =
  acc_cache :: "address \<Rightarrow> ('k, 'm) acc_entry option"
  ch_cache :: "hash \<Rightarrow> chan_entry option"

datatype con_event =
    ChannelOpenedEv chan_entry | ClosureInitiatedEv chan_entry | ClosedEv chan_entry
  | BalanceIncreasedEv chan_entry nat | BalanceDecreasedEv chan_entry nat | TicketRedeemedEv chan_entry

fun event_class :: "con_event \<Rightarrow> chain_event" where
  "event_class (ChannelOpenedEv c) = EvChannelOpened"
| "event_class (ClosureInitiatedEv c) = EvClosureInitiated"
| "event_class (ClosedEv c) = EvClosed"
| "event_class (BalanceIncreasedEv c d) = EvBalanceIncreased"
| "event_class (BalanceDecreasedEv c d) = EvBalanceDecreased"
| "event_class (TicketRedeemedEv c) = EvTicketRedeemed"

fun event_channel :: "con_event \<Rightarrow> chan_entry" where
  "event_channel (ChannelOpenedEv c) = c"
| "event_channel (ClosureInitiatedEv c) = c"
| "event_channel (ClosedEv c) = c"
| "event_channel (BalanceIncreasedEv c d) = c"
| "event_channel (BalanceDecreasedEv c d) = c"
| "event_channel (TicketRedeemedEv c) = c"

definition event_of :: "chan_entry option \<Rightarrow> chan_entry \<Rightarrow> con_event option" where
  "event_of old new =
     (case old of
        None \<Rightarrow> if ce_status new = StOpen then Some (ChannelOpenedEv new) else None
      | Some o' \<Rightarrow>
          if ce_status o' = ce_status new \<and> ce_balance o' = ce_balance new then None
          else if ce_status o' \<noteq> ce_status new then
            (case ce_status new of
               StOpen \<Rightarrow> Some (ChannelOpenedEv new)
             | StPending _ \<Rightarrow> Some (ClosureInitiatedEv new)
             | StClosed \<Rightarrow> Some (ClosedEv new))
          else if ce_balance new > ce_balance o' then Some (BalanceIncreasedEv new (ce_balance new - ce_balance o'))
          else if ce_ticket_index new > ce_ticket_index o' then Some (TicketRedeemedEv new)
          else Some (BalanceDecreasedEv new (ce_balance o' - ce_balance new)))"

text \<open>One entry of the graph subscription: a conversion that fails skips it.\<close>

definition graph_entry ::
  "('k, 'm) parsers \<Rightarrow> account \<times> account \<times> channel \<Rightarrow> ('k, 'm) caches \<Rightarrow> ('k, 'm) caches \<times> con_event option" where
  "graph_entry P e s =
     (case e of (am, bm, cm) \<Rightarrow>
        (case convert_account_model P am of
           None \<Rightarrow> (s, None)
         | Some src \<Rightarrow>
             (case convert_account_model P bm of
                None \<Rightarrow> (s, None)
              | Some dst \<Rightarrow>
                  (case convert_channel_model P cm (ae_addr src) (ae_addr dst) of
                     None \<Rightarrow> (s, None)
                   | Some new \<Rightarrow>
                       let s = s\<lparr>acc_cache := (acc_cache s)(ae_addr src \<mapsto> src, ae_addr dst \<mapsto> dst)\<rparr>;
                           old = ch_cache s (ps_id P new)
                       in (s\<lparr>ch_cache := (ch_cache s)(ps_id P new \<mapsto> new)\<rparr>, event_of old new)))))"

text \<open>The loop over the stream: \<open>None\<close> stands for an error of the stream, which ends it.\<close>

fun graph_loop ::
  "('k, 'm) parsers \<Rightarrow> (account \<times> account \<times> channel) option list \<Rightarrow> ('k, 'm) caches \<Rightarrow> ('k, 'm) caches \<times> con_event list" where
  "graph_loop P [] s = (s, [])"
| "graph_loop P (None # es) s = (s, [])"
| "graph_loop P (Some e # es) s =
     (let (s1, ev) = graph_entry P e s; (s2, evs) = graph_loop P es s1
      in (s2, (case ev of None \<Rightarrow> evs | Some x \<Rightarrow> x # evs)))"

text \<open>\<open>connect\<close>: the account and channel queries. The caches are filled in place, up to the failing entry.\<close>

fun load_accounts ::
  "('k, 'm) parsers \<Rightarrow> account list \<Rightarrow> (u32 \<Rightarrow> address option) \<Rightarrow> ('k, 'm) caches \<Rightarrow>
     bool \<times> (u32 \<Rightarrow> address option) \<times> ('k, 'm) caches" where
  "load_accounts P [] ids s = (True, ids, s)"
| "load_accounts P (m # ms) ids s =
     (case convert_account_model P m of
        None \<Rightarrow> (False, ids, s)
      | Some a \<Rightarrow> load_accounts P ms (ids(ae_key_id a \<mapsto> ae_addr a)) (s\<lparr>acc_cache := (acc_cache s)(ae_addr a \<mapsto> a)\<rparr>))"

fun load_channels ::
  "('k, 'm) parsers \<Rightarrow> channel list \<Rightarrow> (u32 \<Rightarrow> address option) \<Rightarrow> ('k, 'm) caches \<Rightarrow> bool \<times> ('k, 'm) caches" where
  "load_channels P [] ids s = (True, s)"
| "load_channels P (m # ms) ids s =
     (case ids (ch_source m) of
        None \<Rightarrow> (False, s)
      | Some src \<Rightarrow>
          (case ids (ch_destination m) of
             None \<Rightarrow> (False, s)
           | Some dst \<Rightarrow>
               (case convert_channel_model P m src dst of
                  None \<Rightarrow> (False, s)
                | Some c \<Rightarrow> load_channels P ms ids (s\<lparr>ch_cache := (ch_cache s)(ps_id P c \<mapsto> c)\<rparr>))))"

definition connect_load :: "('k, 'm) parsers \<Rightarrow> account list \<Rightarrow> channel list \<Rightarrow> ('k, 'm) caches \<Rightarrow> bool \<times> ('k, 'm) caches" where
  "connect_load P as cs s =
     (case load_accounts P as (\<lambda>_. None) s of
        (False, _, s') \<Rightarrow> (False, s')
      | (True, ids, s') \<Rightarrow> load_channels P cs ids s')"

section \<open>Subscriptions\<close>

definition snapshot_event :: "chan_entry \<Rightarrow> con_event option" where
  "snapshot_event c =
     (case ce_status c of
        StOpen \<Rightarrow> Some (ChannelOpenedEv c)
      | StPending _ \<Rightarrow> Some (ClosureInitiatedEv c)
      | StClosed \<Rightarrow> None)"

text \<open>The snapshot lists the cache in any order \<open>ids\<close>; then come the live events, all filtered by the faults at hand.\<close>

definition subscribe_with_state_sync :: "chain_faults \<Rightarrow> hash list \<Rightarrow> ('k, 'm) caches \<Rightarrow> con_event list \<Rightarrow> con_event list" where
  "subscribe_with_state_sync f ids s live =
     filter (\<lambda>e. \<not> is_withheld (event_class e) f)
       (List.map_filter (\<lambda>i. Option.bind (ch_cache s i) snapshot_event) ids @ live)"

text \<open>
  What a subscriber that remembers the channel of every event knows.
\<close>

definition apply_event :: "('k, 'm) parsers \<Rightarrow> (hash \<Rightarrow> chan_entry option) \<Rightarrow> con_event \<Rightarrow> (hash \<Rightarrow> chan_entry option)" where
  "apply_event P v e = v(ps_id P (event_channel e) \<mapsto> event_channel e)"

definition subscriber_view :: "('k, 'm) parsers \<Rightarrow> con_event list \<Rightarrow> hash \<Rightarrow> chan_entry option" where
  "subscriber_view P evs = foldl (apply_event P) Map.empty evs"

section \<open>The caches\<close>

definition keyed :: "('k, 'm) parsers \<Rightarrow> ('k, 'm) caches \<Rightarrow> bool" where
  "keyed P s \<longleftrightarrow> (\<forall>i c. ch_cache s i = Some c \<longrightarrow> ps_id P c = i) \<and> (\<forall>a e. acc_cache s a = Some e \<longrightarrow> ae_addr e = a)"

definition no_caches :: "('k, 'm) caches" where
  "no_caches = \<lparr>acc_cache = \<lambda>_. None, ch_cache = \<lambda>_. None\<rparr>"

lemma keyed_no_caches [simp]: "keyed P no_caches"
  by (simp add: keyed_def no_caches_def)

lemma keyed_updates:
  "keyed P s \<Longrightarrow> keyed P (s\<lparr>ch_cache := (ch_cache s)(ps_id P c \<mapsto> c)\<rparr>)"
  "keyed P s \<Longrightarrow> keyed P (s\<lparr>acc_cache := (acc_cache s)(ae_addr a \<mapsto> a)\<rparr>)"
  by (auto simp: keyed_def)

lemma keyed_load_accounts: "keyed P s \<Longrightarrow> load_accounts P as ids s = (r, ids', s') \<Longrightarrow> keyed P s'"
  by (induction P as ids s rule: load_accounts.induct) (auto simp: keyed_updates split: option.splits)

lemma keyed_load_channels: "keyed P s \<Longrightarrow> load_channels P cs ids s = (r, s') \<Longrightarrow> keyed P s'"
  by (induction P cs ids s rule: load_channels.induct) (auto simp: keyed_updates split: option.splits)

lemma keyed_connect_load: "keyed P s \<Longrightarrow> connect_load P as cs s = (r, s') \<Longrightarrow> keyed P s'"
  unfolding connect_load_def
  by (auto split: prod.splits bool.splits dest: keyed_load_accounts keyed_load_channels)

lemma graph_entry_cases:
  assumes "graph_entry P e s = (s', ev)"
  obtains "s' = s" "ev = None"
  | new where "ch_cache s' = (ch_cache s)(ps_id P new \<mapsto> new)" "ev = event_of (ch_cache s (ps_id P new)) new"
      "keyed P s \<Longrightarrow> keyed P s'"
proof -
  obtain am bm cm where e: "e = (am, bm, cm)" by (cases e)
  show thesis
  proof (cases "convert_account_model P am")
    case (Some src)
    note src = Some
    show ?thesis
    proof (cases "convert_account_model P bm")
      case (Some dst)
      note dst = Some
      show ?thesis
      proof (cases "convert_channel_model P cm (ae_addr src) (ae_addr dst)")
        case (Some new)
        let ?t = "s\<lparr>acc_cache := (acc_cache s)(ae_addr src \<mapsto> src, ae_addr dst \<mapsto> dst)\<rparr>"
        have s': "s' = ?t\<lparr>ch_cache := (ch_cache ?t)(ps_id P new \<mapsto> new)\<rparr>" and ev: "ev = event_of (ch_cache s (ps_id P new)) new"
          using assms src dst Some by (auto simp: graph_entry_def e Let_def)
        have "keyed P s'" if "keyed P s"
          using that unfolding s' by (auto simp: keyed_def)
        with s' ev that(2) [of new] show ?thesis by simp
      qed (use assms src dst that(1) in \<open>simp add: graph_entry_def e\<close>)
    qed (use assms src that(1) in \<open>simp add: graph_entry_def e\<close>)
  qed (use assms that(1) in \<open>simp add: graph_entry_def e\<close>)
qed

lemma keyed_graph_loop: "keyed P s \<Longrightarrow> graph_loop P es s = (s', evs) \<Longrightarrow> keyed P s'"
proof (induction P es s arbitrary: evs rule: graph_loop.induct)
  case (3 P e es s)
  obtain s1 ev where 1: "graph_entry P e s = (s1, ev)" by (cases "graph_entry P e s")
  have "keyed P s1" using 1 "3.prems"(1) by (auto elim: graph_entry_cases)
  with 1 "3.prems"(2) "3.IH" [OF refl 1 [symmetric]] show ?case by (auto split: prod.splits)
qed auto

section \<open>Subscribers follow the cache\<close>

text \<open>Agreement on what events report: status (with closure time) and balance.\<close>

definition same_report :: "chan_entry \<Rightarrow> chan_entry \<Rightarrow> bool" where
  "same_report v c \<longleftrightarrow> ce_status v = ce_status c \<and> ce_balance v = ce_balance c"

definition in_sync :: "(hash \<Rightarrow> chan_entry option) \<Rightarrow> (hash \<Rightarrow> chan_entry option) \<Rightarrow> bool" where
  "in_sync v cache \<longleftrightarrow>
     (\<forall>i x. v i = Some x \<longrightarrow> (\<exists>c. cache i = Some c \<and> same_report x c)) \<and>
     (\<forall>i c. cache i = Some c \<longrightarrow> ce_status c = StOpen \<longrightarrow> v i \<noteq> None)"

lemma event_of_channel: "event_of old new = Some e \<Longrightarrow> event_channel e = new"
  by (auto simp: event_of_def split: option.splits if_splits entry_status.splits)

lemma event_of_silent:
  "event_of old new = None \<longleftrightarrow>
     (case old of None \<Rightarrow> ce_status new \<noteq> StOpen | Some c \<Rightarrow> same_report c new)"
  by (auto simp: event_of_def same_report_def split: option.splits entry_status.splits)

lemma in_sync_update:
  assumes "in_sync v cache"
  shows "in_sync (case event_of (cache (ps_id P new)) new of None \<Rightarrow> v | Some e \<Rightarrow> apply_event P v e)
           (cache(ps_id P new \<mapsto> new))"
proof (cases "event_of (cache (ps_id P new)) new")
  case None
  note silent = None [unfolded event_of_silent]
  have "in_sync v (cache(ps_id P new \<mapsto> new))"
  proof (cases "cache (ps_id P new)")
    case None
    then have "v (ps_id P new) = None" using assms by (cases "v (ps_id P new)") (fastforce simp: in_sync_def)+
    then show ?thesis using None silent assms by (auto simp: in_sync_def)
  next
    case (Some c)
    then show ?thesis using silent assms unfolding in_sync_def
      by (simp add: same_report_def) (metis option.inject)
  qed
  with None show ?thesis by simp
next
  case (Some e)
  then show ?thesis using assms by (auto simp: in_sync_def apply_event_def event_of_channel same_report_def)
qed

lemma in_sync_graph_loop:
  "in_sync v (ch_cache s) \<Longrightarrow> graph_loop P es s = (s', evs) \<Longrightarrow> in_sync (foldl (apply_event P) v evs) (ch_cache s')"
proof (induction P es s arbitrary: v evs rule: graph_loop.induct)
  case (3 P e es s)
  obtain s1 ev where 1: "graph_entry P e s = (s1, ev)" by (cases "graph_entry P e s")
  obtain s2 evs' where 2: "graph_loop P es s1 = (s2, evs')" by (cases "graph_loop P es s1")
  have "in_sync (case ev of None \<Rightarrow> v | Some x \<Rightarrow> apply_event P v x) (ch_cache s1)"
    using 1 in_sync_update [OF "3.prems"(1)] "3.prems"(1) by (auto elim!: graph_entry_cases)
  from "3.IH" [OF refl 1 [symmetric] this, of evs'] 1 2 "3.prems"(2) show ?case by (auto split: option.splits)
qed auto

lemma subscriber_view_exact:
  assumes "\<forall>e \<in> set evs. cache (ps_id P (event_channel e)) = Some (event_channel e)"
  shows "subscriber_view P evs i =
    (if i \<in> (\<lambda>e. ps_id P (event_channel e)) ` set evs then cache i else None)"
  using assms by (induction evs rule: rev_induct) (auto simp: subscriber_view_def apply_event_def)

lemma unheard_channel:
  "\<forall>x \<in> set evs. ps_id P (event_channel x) \<noteq> i \<Longrightarrow> foldl (apply_event P) v evs i = v i"
  by (induction evs rule: rev_induct) (auto simp: apply_event_def)

lemma in_sync_snapshot:
  assumes "keyed P s" and "set ids = dom (ch_cache s)"
  shows "in_sync (subscriber_view P (List.map_filter (\<lambda>i. Option.bind (ch_cache s i) snapshot_event) ids)) (ch_cache s)"
proof -
  let ?evs = "List.map_filter (\<lambda>i. Option.bind (ch_cache s i) snapshot_event) ids"
  have mem: "e \<in> set ?evs \<longleftrightarrow> (\<exists>i c. ch_cache s i = Some c \<and> snapshot_event c = Some e)" for e
    using assms(2) by (force simp: map_filter_def bind_eq_Some_conv image_iff dom_def)
  have ch: "snapshot_event c = Some e \<Longrightarrow> event_channel e = c" for c e
    by (auto simp: snapshot_event_def split: entry_status.splits)
  have "\<forall>e \<in> set ?evs. ch_cache s (ps_id P (event_channel e)) = Some (event_channel e)"
    using assms(1) mem ch by (auto simp: keyed_def)
  note view = subscriber_view_exact [OF this]
  have "i \<in> (\<lambda>e. ps_id P (event_channel e)) ` set ?evs" if "ch_cache s i = Some c" "ce_status c = StOpen" for i c
  proof -
    have "ChannelOpenedEv c \<in> set ?evs" unfolding mem using that by (intro exI [of _ i] exI [of _ c]) (simp add: snapshot_event_def)
    moreover have "ps_id P c = i" using assms(1) that(1) by (simp add: keyed_def)
    ultimately show ?thesis by (metis event_channel.simps(1) image_eqI)
  qed
  then show ?thesis unfolding in_sync_def view by (auto simp: same_report_def split: if_splits)
qed

section \<open>Properties\<close>


definition toy_parsers :: "(unit, unit) parsers" where
  "toy_parsers = \<lparr>ps_key = \<lambda>_. Some (), ps_addr = \<lambda>s. Some (replicate (length s) 0), ps_multiaddr = \<lambda>_. None,
     ps_time = \<lambda>_. Some 7, ps_balance = \<lambda>s. Some (length s), ps_build = Some, ps_id = \<lambda>c. ce_src c @ ce_dst c\<rparr>"

definition toy_account :: "string \<Rightarrow> u32 \<Rightarrow> account" where
  "toy_account a k = \<lparr>chain_key = a, keyid = k, multi_addresses = [], packet_key = ''k'', safe_address = None\<rparr>"

definition toy_channel :: "string \<Rightarrow> channel_status \<Rightarrow> channel" where
  "toy_channel b st = \<lparr>ch_balance = b, closure_time = Some ''t'', concrete_channel_id = ''c'', ch_destination = 2, ch_epoch = 1,
     ch_source = 1, ch_status = st, ticket_index = show_nat 0\<rparr>"

definition toy_accounts :: "account list" where
  "toy_accounts = [toy_account ''a'' 1, toy_account ''bb'' 2]"

definition toy_update :: "string \<Rightarrow> channel_status \<Rightarrow> account \<times> account \<times> channel" where
  "toy_update b st = (toy_account ''a'' 1, toy_account ''bb'' 2, toy_channel b st)"

definition toy_entry :: "nat \<Rightarrow> entry_status \<Rightarrow> chan_entry" where
  "toy_entry b st = \<lparr>ce_src = [0], ce_dst = [0, 0], ce_balance = b, ce_ticket_index = 0, ce_status = st, ce_epoch = 1\<rparr>"

definition toy_acc :: "address \<Rightarrow> u32 \<Rightarrow> (unit, unit) acc_entry" where
  "toy_acc a k = \<lparr>ae_key = (), ae_addr = a, ae_key_id = k, ae_type = NotAnnounced, ae_safe = None\<rparr>"

definition toy_caches :: "chan_entry option \<Rightarrow> (unit, unit) caches" where
  "toy_caches c = \<lparr>acc_cache = [[0] \<mapsto> toy_acc [0] 1, [0, 0] \<mapsto> toy_acc [0, 0] 2], ch_cache = (\<lambda>_. None)([0, 0, 0] := c)\<rparr>"

lemmas toy_defs = toy_parsers_def toy_account_def toy_channel_def toy_accounts_def toy_update_def toy_entry_def

lemma toy_convert:
  "convert_account_model toy_parsers (toy_account ''a'' 1) = Some (toy_acc [0] 1)"
  "convert_account_model toy_parsers (toy_account ''bb'' 2) = Some (toy_acc [0, 0] 2)"
  "convert_channel_model toy_parsers (toy_channel b Open) [0] [0, 0] = Some (toy_entry (length b) StOpen)"
  "convert_channel_model toy_parsers (toy_channel b PendingToClose) [0] [0, 0] = Some (toy_entry (length b) (StPending 7))"
  by (simp_all add: toy_defs toy_acc_def convert_account_model_def convert_channel_model_def convert_status_def numeral_2_eq_2)

lemma toy_simps [simp]:
  "ae_addr (toy_acc a k) = a" "ae_key_id (toy_acc a k) = k" "ps_id toy_parsers (toy_entry b st) = [0, 0, 0]"
  "ch_cache (toy_caches c) [0, 0, 0] = c" "ce_status (toy_entry b st) = st" "ce_balance (toy_entry b st) = b"
  by (simp_all add: toy_acc_def toy_entry_def toy_parsers_def toy_caches_def)

lemma toy_graph_entry:
  "graph_entry toy_parsers (toy_update b Open) (toy_caches c) =
     (toy_caches (Some (toy_entry (length b) StOpen)), event_of c (toy_entry (length b) StOpen))"
  "graph_entry toy_parsers (toy_update b PendingToClose) (toy_caches c) =
     (toy_caches (Some (toy_entry (length b) (StPending 7))), event_of c (toy_entry (length b) (StPending 7)))"
  by (simp_all add: graph_entry_def toy_update_def toy_convert Let_def) (simp_all add: toy_caches_def fun_upd_twist)

lemma toy_load: "connect_load toy_parsers toy_accounts [] no_caches = (True, toy_caches None)"
  by (simp add: connect_load_def toy_accounts_def toy_convert) (simp add: toy_caches_def no_caches_def)

lemma toy_dom: "dom (ch_cache (toy_caches c)) = (case c of None \<Rightarrow> {} | Some _ \<Rightarrow> {[0, 0, 0]})"
  by (auto simp: toy_caches_def split: option.splits)


text \<open>A hole in the subscription: the snapshot is collected before the receiver is activated. If an update that
  opens a new channel is processed between the two, the subscriber learns of the channel neither from the snapshot nor
  from later events, for as long as no later update changes the status or the balance of that channel.\<close>

lemma subscription_hole:
  assumes "keyed P s0" and "graph_entry P e s0 = (s1, Some (ChannelOpenedEv c))"
    and "ch_cache s0 (ps_id P c) = None"
    and "graph_loop P es s1 = (s2, live)" and "\<forall>x \<in> set live. ps_id P (event_channel x) \<noteq> ps_id P c"
  shows "subscriber_view P (subscribe_with_state_sync f ids s0 live) (ps_id P c) = None \<and>
    (\<exists>c'. ch_cache s2 (ps_id P c) = Some c' \<and> ce_status c' = StOpen)"
proof
  have "event_channel x = y" if "snapshot_event y = Some x" for x y
    using that by (auto simp: snapshot_event_def split: entry_status.splits)
  then have "\<forall>x \<in> set (subscribe_with_state_sync f ids s0 live). ps_id P (event_channel x) \<noteq> ps_id P c"
    using assms(1,3,5) by (auto simp: subscribe_with_state_sync_def map_filter_def bind_eq_Some_conv keyed_def)
  then show "subscriber_view P (subscribe_with_state_sync f ids s0 live) (ps_id P c) = None"
    unfolding subscriber_view_def by (simp add: unheard_channel)
  obtain new where new: "ch_cache s1 = (ch_cache s0)(ps_id P new \<mapsto> new)" "event_of (ch_cache s0 (ps_id P new)) new = Some (ChannelOpenedEv c)"
    using assms(2) by (auto elim: graph_entry_cases)
  then have "c = new" "ce_status c = StOpen"
    by (auto simp: event_of_def split: option.splits if_splits entry_status.splits)
  moreover have "in_sync (foldl (apply_event P) (ch_cache s1) live) (ch_cache s2)"
    by (rule in_sync_graph_loop [OF _ assms(4)]) (auto simp: in_sync_def same_report_def)
  moreover have "foldl (apply_event P) (ch_cache s1) live (ps_id P c) = ch_cache s1 (ps_id P c)"
    using assms(5) by (simp add: unheard_channel)
  ultimately show "\<exists>c'. ch_cache s2 (ps_id P c) = Some c' \<and> ce_status c' = StOpen"
    using new(1) by (auto simp: in_sync_def same_report_def) (metis fun_upd_same)
qed

lemma subscription_hole_witness:
  "subscriber_view toy_parsers (subscribe_with_state_sync default_faults [] (toy_caches None) []) [0, 0, 0] = None \<and>
   (\<exists>c'. ch_cache (toy_caches (Some (toy_entry 2 StOpen))) [0, 0, 0] = Some c' \<and> ce_status c' = StOpen)"
proof -
  have "graph_entry toy_parsers (toy_update ''10'' Open) (toy_caches None) =
      (toy_caches (Some (toy_entry 2 StOpen)), Some (ChannelOpenedEv (toy_entry 2 StOpen)))"
    by (simp add: toy_graph_entry event_of_def numeral_2_eq_2)
  from subscription_hole [OF _ this, of "[]"] show ?thesis
    by (simp add: keyed_def) (simp add: toy_caches_def)
qed

end
