(* ===== verification/Chain_Info.thy ===== *)
theory Chain_Info
  imports Connector
begin

text \<open>
  Chain information as the test connector reads it, \<open>parse_chain_info_model\<close> in \<open>src/testing/blokli/connector.rs\<close>. What the
  text of a field stands for is decided by outside code, the record \<open>info_parsers\<close>; probabilities are read from reals.
\<close>

record info_model =
  im_grace_period :: string
  im_ledger_dst :: "string option"
  im_registry_dst :: "string option"
  im_channel_dst :: "string option"
  im_min_win_prob :: real
  im_ticket_price :: string
  im_key_binding_fee :: string
  im_chain_id :: "32 word"                              \<comment> \<open>signed\<close>
  im_network :: string
  im_contracts :: string

record 'c info_parsers =
  ip_hash :: "string \<Rightarrow> hash option"
  ip_win_prob :: "real \<Rightarrow> 56 word option"
  ip_balance :: "string \<Rightarrow> nat option"
  ip_contracts :: "string \<Rightarrow> 'c option"

record 'c parsed_info =
  pi_chain_id :: u64
  pi_network :: string
  pi_contracts :: 'c
  pi_ledger :: hash
  pi_registry :: hash
  pi_channel :: hash
  pi_win_prob :: "56 word"
  pi_ticket_price :: nat
  pi_grace_period :: nat

text \<open>A separator that is absent is the zero hash; one that is there must be readable.\<close>

definition parse_separator :: "'c info_parsers \<Rightarrow> string option \<Rightarrow> hash option" where
  "parse_separator I s = (case s of None \<Rightarrow> Some (replicate 32 0) | Some t \<Rightarrow> ip_hash I t)"

definition parse_chain_info_model :: "'c info_parsers \<Rightarrow> info_model \<Rightarrow> 'c parsed_info option" where
  "parse_chain_info_model I m =
     Option.bind (parse_uint 64 (im_grace_period m)) (\<lambda>grace.
     Option.bind (parse_separator I (im_ledger_dst m)) (\<lambda>ledger.
     Option.bind (parse_separator I (im_registry_dst m)) (\<lambda>registry.
     Option.bind (parse_separator I (im_channel_dst m)) (\<lambda>chan.
     Option.bind (ip_win_prob I (im_min_win_prob m)) (\<lambda>win.
     Option.bind (ip_balance I (im_ticket_price m)) (\<lambda>price.
     Option.bind (ip_contracts I (im_contracts m)) (\<lambda>contracts.
       Some \<lparr>pi_chain_id = scast (im_chain_id m), pi_network = im_network m, pi_contracts = contracts,
             pi_ledger = ledger, pi_registry = registry, pi_channel = chan, pi_win_prob = win,
             pi_ticket_price = price, pi_grace_period = from_secs grace\<rparr>)))))))"

lemma parsed_grace_period:
  "parse_chain_info_model I m = Some p \<Longrightarrow> pi_grace_period p \<le> DURATION_MAX"
  by (auto simp: parse_chain_info_model_def bind_eq_Some_conv from_secs_def DURATION_MAX_def dest!: parse_uint_bound)

end
