(* ===== verification/Submission.thy ===== *)
theory Submission
  imports Chain_Info
begin

text \<open>
  The operations of the test connector that send transactions, \<open>src/testing/blokli/connector.rs\<close>: one nonce sequence per
  signer, transfers, safe registration and ticket redemption as futures that are sent when awaited, and the three
  channel operations with injected faults and a confirmation that waits for the connector's own view. The payload
  generator, signing and the client that executes transactions are outside code: the record \<open>chain_client\<close>.
\<close>

section \<open>State\<close>

datatype currency = Native | Token

datatype 'tk payload_req =
    FundReq address nat | InitiateClosureReq address | FinalizeClosureReq address
  | TransferReq address currency nat | RegisterSafeReq address | RedeemReq 'tk

datatype safe_selector = SafeAddressSel address | ChainKeySel address | RegisteredNodeSel address | OwnerSel address

record remote_safe =
  rs_address :: string
  rs_owners :: "string list"
  rs_module :: string
  rs_nodes :: "string list"
  rs_chain_key :: string

record ('g, 'kp, 'tk, 'tx, 'sg, 'st, 'r) chain_client =
  cl_payload :: "'g \<Rightarrow> 'tk payload_req \<Rightarrow> 'tx option"
  cl_sign :: "'tx \<Rightarrow> u64 \<Rightarrow> u64 \<Rightarrow> 'kp \<Rightarrow> 'sg option"          \<comment> \<open>transaction, nonce, chain id, key\<close>
  cl_submit :: "'sg \<Rightarrow> 'st \<Rightarrow> 'r option \<times> 'st"
  cl_query_safe :: "safe_selector \<Rightarrow> 'st \<Rightarrow> remote_safe list option"
  cl_public :: "'kp \<Rightarrow> address"
  cl_channel_id :: "address \<Rightarrow> address \<Rightarrow> hash"
  cl_add :: "nat \<Rightarrow> nat \<Rightarrow> nat"                          \<comment> \<open>addition of balances\<close>

datatype con_error =
    Injected connector_error | NotConnected | ChannelNotFound hash | AlreadyClosed hash
  | PayloadFailed | SigningFailed | SubmitFailed | QueryFailed | ParseFailed
  | SafeAlreadyRegistered address | SafeMissing address | SafeNotFound | AccountNotFound | Unsupported

text \<open>\<open>next_guard\<close> names in-flight guards; \<open>signed_log\<close> records signer and nonce of every transaction that is signed.\<close>

record ('kp, 'g, 'k, 'm) connector =
  my_addr :: address
  con_key :: 'kp
  module_address :: address
  payload_gen :: "'g option"
  con_chain_id :: "u64 option"
  ticket_price :: "nat option"
  ticket_win_prob :: "56 word option"
  nonces :: "address \<Rightarrow> u64 option"
  view :: "('k, 'm) caches"
  con_faults :: flight
  next_guard :: nat
  signed_log :: "(address \<times> u64) list"

record ('tx, 'kp) pending_tx =
  pt_tx :: 'tx
  pt_chain :: u64
  pt_key :: 'kp
  pt_owner :: address

record 'r confirmation =
  cn_op :: chain_op
  cn_id :: hash
  cn_receipt :: 'r
  cn_pred :: "chan_entry \<Rightarrow> bool"
  cn_guard :: nat

definition new_connector :: "address \<Rightarrow> 'kp \<Rightarrow> address \<Rightarrow> ('kp, 'g, 'k, 'm) connector" where
  "new_connector a key module_addr =
     \<lparr>my_addr = a, con_key = key, module_address = module_addr, payload_gen = None, con_chain_id = None, ticket_price = None,
      ticket_win_prob = None, nonces = \<lambda>_. None, view = no_caches, con_faults = flight_init, next_guard = 0, signed_log = []\<rparr>"

section \<open>Connecting\<close>

record ('c, 'g, 'kp, 'st) chain_queries =
  cq_chain_info :: "'st \<Rightarrow> info_model option"
  cq_accounts :: "'st \<Rightarrow> account list option"
  cq_channels :: "'st \<Rightarrow> channel list option"
  cq_generator :: "'kp \<Rightarrow> 'c \<Rightarrow> address \<Rightarrow> 'g"

text \<open>\<open>OnceLock::set\<close>: a value that is there stays.\<close>

definition set_once :: "'a \<Rightarrow> 'a option \<Rightarrow> 'a option" where
  "set_once x o' = (case o' of None \<Rightarrow> Some x | Some y \<Rightarrow> Some y)"

definition set_chain_info ::
  "('c, 'g, 'kp, 'st) chain_queries \<Rightarrow> 'c parsed_info \<Rightarrow> ('kp, 'g, 'k, 'm) connector \<Rightarrow> ('kp, 'g, 'k, 'm) connector" where
  "set_chain_info Q p c =
     c\<lparr>con_chain_id := set_once (pi_chain_id p) (con_chain_id c),
       payload_gen := set_once (cq_generator Q (con_key c) (pi_contracts p) (module_address c)) (payload_gen c),
       ticket_price := set_once (pi_ticket_price p) (ticket_price c),
       ticket_win_prob := set_once (pi_win_prob p) (ticket_win_prob c)\<rparr>"

definition connect ::
  "('c, 'g, 'kp, 'st) chain_queries \<Rightarrow> 'c info_parsers \<Rightarrow> ('k, 'm) parsers \<Rightarrow> ('kp, 'g, 'k, 'm) connector \<Rightarrow> 'st \<Rightarrow>
     (con_error + unit) \<times> ('kp, 'g, 'k, 'm) connector" where
  "connect Q I P c st =
     (case cq_chain_info Q st of
        None \<Rightarrow> (Inl QueryFailed, c)
      | Some raw \<Rightarrow>
          (case parse_chain_info_model I raw of
             None \<Rightarrow> (Inl ParseFailed, c)
           | Some p \<Rightarrow>
               let c = set_chain_info Q p c in
               (case cq_accounts Q st of
                  None \<Rightarrow> (Inl QueryFailed, c)
                | Some as \<Rightarrow>
                    (case load_accounts P as (\<lambda>_. None) (view c) of
                       (False, _, s) \<Rightarrow> (Inl ParseFailed, c\<lparr>view := s\<rparr>)
                     | (True, ids, s) \<Rightarrow>
                         (case cq_channels Q st of
                            None \<Rightarrow> (Inl QueryFailed, c\<lparr>view := s\<rparr>)
                          | Some cs \<Rightarrow>
                              (case load_channels P cs ids s of
                                 (False, s) \<Rightarrow> (Inl ParseFailed, c\<lparr>view := s\<rparr>)
                               | (True, s) \<Rightarrow> (Inr (), c\<lparr>view := s\<rparr>)))))))"

lemma connect_frame:
  assumes "connect Q I P c st = (r, c')"
  shows "my_addr c' = my_addr c" "con_key c' = con_key c" "nonces c' = nonces c" "signed_log c' = signed_log c"
    "con_faults c' = con_faults c" "next_guard c' = next_guard c"
  using assms
  by (auto simp: connect_def set_chain_info_def Let_def split: option.splits prod.splits bool.splits)

text \<open>A connector that has connected is ready to send, and its caches are what \<open>connect_load\<close> makes of the answers.\<close>

lemma connect_success:
  assumes "connect Q I P c st = (Inr u, c')"
  obtains as cs where "cq_accounts Q st = Some as" "cq_channels Q st = Some cs" "connect_load P as cs (view c) = (True, view c')"
    "payload_gen c' \<noteq> None" "con_chain_id c' \<noteq> None" "ticket_price c' \<noteq> None" "ticket_win_prob c' \<noteq> None"
  using assms
  by (fastforce simp: connect_def connect_load_def set_chain_info_def set_once_def Let_def
      split: option.splits prod.splits bool.splits)

section \<open>Transactions\<close>

definition nonce_for :: "address \<Rightarrow> ('kp, 'g, 'k, 'm) connector \<Rightarrow> ('kp, 'g, 'k, 'm) connector" where
  "nonce_for a c = (case nonces c a of None \<Rightarrow> c\<lparr>nonces := (nonces c)(a \<mapsto> 0)\<rparr> | Some _ \<Rightarrow> c)"

text \<open>
  What every sending operation does before its transaction is on its way: build the payload, look up the chain id and
  the counter of the signer.
\<close>

definition prepare_tx ::
  "('g, 'kp, 'tk, 'tx, 'sg, 'st, 'r) chain_client \<Rightarrow> 'tk payload_req \<Rightarrow> 'kp \<Rightarrow> address \<Rightarrow> ('kp, 'g, 'k, 'm) connector \<Rightarrow>
     (con_error + ('tx, 'kp) pending_tx) \<times> ('kp, 'g, 'k, 'm) connector" where
  "prepare_tx C req key owner c =
     (case payload_gen c of
        None \<Rightarrow> (Inl NotConnected, c)
      | Some g \<Rightarrow>
          (case cl_payload C g req of
             None \<Rightarrow> (Inl PayloadFailed, c)
           | Some tx \<Rightarrow>
               (case con_chain_id c of
                  None \<Rightarrow> (Inl NotConnected, c)
                | Some cid \<Rightarrow> (Inr \<lparr>pt_tx = tx, pt_chain = cid, pt_key = key, pt_owner = owner\<rparr>, nonce_for owner c))))"

text \<open>
  The counter is the only part of the connector that \<open>send_tx\<close> touches, in one atomic update, so the order of these
  updates is all that concurrent calls can vary.
\<close>

definition send_tx ::
  "('g, 'kp, 'tk, 'tx, 'sg, 'st, 'r) chain_client \<Rightarrow> ('tx, 'kp) pending_tx \<Rightarrow> ('kp, 'g, 'k, 'm) connector \<Rightarrow> 'st \<Rightarrow>
     (con_error + 'r) \<times> ('kp, 'g, 'k, 'm) connector \<times> 'st" where
  "send_tx C p c st =
     (let n = unwrap_or 0 (nonces c (pt_owner p));
          c = c\<lparr>nonces := (nonces c)(pt_owner p \<mapsto> n + 1), signed_log := signed_log c @ [(cl_public C (pt_key p), n)]\<rparr>
      in case cl_sign C (pt_tx p) n (pt_chain p) (pt_key p) of
           None \<Rightarrow> (Inl SigningFailed, c, st)
         | Some sg \<Rightarrow>
             (case cl_submit C sg st of
                (None, st) \<Rightarrow> (Inl SubmitFailed, c, st)
              | (Some r, st) \<Rightarrow> (Inr r, c, st)))"

definition withdraw_as where
  "withdraw_as C key cur amount recipient c = prepare_tx C (TransferReq recipient cur amount) key (cl_public C key) c"

definition withdraw where
  "withdraw C cur amount recipient c = withdraw_as C (con_key c) cur amount recipient c"

definition register_safe ::
  "('g, 'kp, 'tk, 'tx, 'sg, 'st, 'r) chain_client \<Rightarrow> ('k, 'm) parsers \<Rightarrow> address \<Rightarrow> ('kp, 'g, 'k, 'm) connector \<Rightarrow> 'st \<Rightarrow>
     (con_error + ('tx, 'kp) pending_tx) \<times> ('kp, 'g, 'k, 'm) connector" where
  "register_safe C P safe c st =
     (case cl_query_safe C (RegisteredNodeSel (my_addr c)) st of
        None \<Rightarrow> (Inl QueryFailed, c)
      | Some (s # _) \<Rightarrow>
          (case ps_addr P (rs_address s) of
             None \<Rightarrow> (Inl ParseFailed, c)
           | Some a \<Rightarrow> (Inl (SafeAlreadyRegistered a), c))
      | Some [] \<Rightarrow>
          (case cl_query_safe C (SafeAddressSel safe) st of
             None \<Rightarrow> (Inl QueryFailed, c)
           | Some [] \<Rightarrow> (Inl (SafeMissing safe), c)
           | Some (_ # _) \<Rightarrow> prepare_tx C (RegisterSafeReq safe) (con_key c) (my_addr c) c))"

definition redeem_ticket_tx where
  "redeem_ticket_tx C ticket c = prepare_tx C (RedeemReq ticket) (con_key c) (my_addr c) c"

section \<open>Channel operations\<close>

definition con_gate :: "chain_op \<Rightarrow> ('kp, 'g, 'k, 'm) connector \<Rightarrow> (connector_error + unit) poll \<times> ('kp, 'g, 'k, 'm) connector" where
  "con_gate op c = (fst (gate op (cf (con_faults c))),
     c\<lparr>con_faults := (con_faults c)\<lparr>cf := snd (gate op (cf (con_faults c)))\<rparr>\<rparr>)"

definition track_confirmation ::
  "chain_op \<Rightarrow> hash \<Rightarrow> 'r \<Rightarrow> (chan_entry \<Rightarrow> bool) \<Rightarrow> ('kp, 'g, 'k, 'm) connector \<Rightarrow>
     'r confirmation \<times> ('kp, 'g, 'k, 'm) connector" where
  "track_confirmation op i r pred c =
     (\<lparr>cn_op = op, cn_id = i, cn_receipt = r, cn_pred = pred, cn_guard = next_guard c\<rparr>,
      c\<lparr>con_faults := enter_in_flight (next_guard c) op (con_faults c), next_guard := next_guard c + 1\<rparr>)"

text \<open>Common tail of the three operations, from the payload to the confirmation.\<close>

definition submit_tracked ::
  "('g, 'kp, 'tk, 'tx, 'sg, 'st, 'r) chain_client \<Rightarrow> chain_op \<Rightarrow> 'tk payload_req \<Rightarrow> hash \<Rightarrow> (chan_entry \<Rightarrow> bool) \<Rightarrow>
     ('kp, 'g, 'k, 'm) connector \<Rightarrow> 'st \<Rightarrow> (con_error + 'r confirmation) poll \<times> ('kp, 'g, 'k, 'm) connector \<times> 'st" where
  "submit_tracked C op req i pred c st =
     (case prepare_tx C req (con_key c) (my_addr c) c of
        (Inl e, c) \<Rightarrow> (Ready (Inl e), c, st)
      | (Inr p, c) \<Rightarrow>
          (case send_tx C p c st of
             (Inl e, c, st) \<Rightarrow> (Ready (Inl e), c, st)
           | (Inr r, c, st) \<Rightarrow>
               let (cn, c) = track_confirmation op i r pred c in (Ready (Inr cn), c, st)))"

definition open_channel where
  "open_channel C dst amount c st =
     (case con_gate OpenChannelOp c of
        (Pending, c) \<Rightarrow> (Pending, c, st)
      | (Ready (Inl e), c) \<Rightarrow> (Ready (Inl (Injected e)), c, st)
      | (Ready (Inr _), c) \<Rightarrow>
          submit_tracked C OpenChannelOp (FundReq dst amount) (cl_channel_id C (my_addr c) dst) (\<lambda>x. ce_status x = StOpen) c st)"

definition fund_channel_tx where
  "fund_channel_tx C i amount c st =
     (case con_gate FundChannelOp c of
        (Pending, c) \<Rightarrow> (Pending, c, st)
      | (Ready (Inl e), c) \<Rightarrow> (Ready (Inl (Injected e)), c, st)
      | (Ready (Inr _), c) \<Rightarrow>
          (case ch_cache (view c) i of
             None \<Rightarrow> (Ready (Inl (ChannelNotFound i)), c, st)
           | Some ch \<Rightarrow>
               submit_tracked C FundChannelOp (FundReq (ce_dst ch) amount) i
                 (\<lambda>x. cl_add C (ce_balance ch) amount \<le> ce_balance x) c st))"

definition close_channel where
  "close_channel C i c st =
     (case con_gate CloseChannelOp c of
        (Pending, c) \<Rightarrow> (Pending, c, st)
      | (Ready (Inl e), c) \<Rightarrow> (Ready (Inl (Injected e)), c, st)
      | (Ready (Inr _), c) \<Rightarrow>
          (case ch_cache (view c) i of
             None \<Rightarrow> (Ready (Inl (ChannelNotFound i)), c, st)
           | Some ch \<Rightarrow>
               (case ce_status ch of
                  StClosed \<Rightarrow> (Ready (Inl (AlreadyClosed i)), c, st)
                | StOpen \<Rightarrow>
                    submit_tracked C CloseChannelOp (InitiateClosureReq (ce_dst ch)) i (\<lambda>x. ce_status x \<noteq> ce_status ch) c st
                | StPending _ \<Rightarrow>
                    submit_tracked C CloseChannelOp (FinalizeClosureReq (ce_dst ch)) i (\<lambda>x. ce_status x \<noteq> ce_status ch) c st)))"

text \<open>
  The confirmation: the view of the channel is looked at every two milliseconds, which gives a list of what was seen
  and when (in milliseconds); \<open>None\<close> as result while it is still waiting.
\<close>

definition LIMIT :: nat where "LIMIT = 5000"

datatype view_outcome = CaughtUp | GaveUp

fun await_own_view :: "(chan_entry \<Rightarrow> bool) \<Rightarrow> nat \<Rightarrow> (chan_entry option \<times> nat) list \<Rightarrow> view_outcome option" where
  "await_own_view pred deadline [] = None"
| "await_own_view pred deadline ((v, t) # obs) =
     (if (case v of None \<Rightarrow> False | Some x \<Rightarrow> pred x) then Some CaughtUp
      else if deadline \<le> t then Some GaveUp
      else await_own_view pred deadline obs)"

definition confirmation_poll ::
  "'r confirmation \<Rightarrow> nat \<Rightarrow> (chan_entry option \<times> nat) list \<Rightarrow> chain_faults \<Rightarrow> (con_error + 'r) poll" where
  "confirmation_poll cn start obs f =
     (case await_own_view (cn_pred cn) (start + LIMIT) obs of
        None \<Rightarrow> Pending
      | Some _ \<Rightarrow>
          (case confirm (cn_op cn) f of
             Pending \<Rightarrow> Pending
           | Ready (Inl e) \<Rightarrow> Ready (Inl (Injected e))
           | Ready (Inr _) \<Rightarrow> Ready (Inr (cn_receipt cn))))"

section \<open>Runs\<close>

text \<open>
  A connector in use: calls, futures that are awaited or dropped in any order, graph updates of the background task
  and changes of the faults.
\<close>

datatype ('kp, 'tk) con_label =
    DoOpen address nat | DoFund hash nat | DoClose hash
  | DoWithdraw currency nat address | DoWithdrawFrom 'kp currency nat address | DoRegister address | DoRedeem 'tk
  | DoSend nat | DoDropTx nat | DoFinish nat
  | DoGraph "account \<times> account \<times> channel" | DoChange fault_change

record ('kp, 'g, 'k, 'm, 'st, 'tx, 'r) con_world =
  w_con :: "('kp, 'g, 'k, 'm) connector"
  w_chain :: 'st
  w_pending :: "('tx, 'kp) pending_tx list"
  w_confirms :: "'r confirmation list"

definition remove_nth :: "nat \<Rightarrow> 'a list \<Rightarrow> 'a list" where
  "remove_nth i xs = take i xs @ drop (Suc i) xs"

fun new_confirms :: "(con_error + 'r confirmation) poll \<Rightarrow> 'r confirmation list" where
  "new_confirms (Ready (Inr cn)) = [cn]"
| "new_confirms _ = []"

fun new_pending :: "con_error + ('tx, 'kp) pending_tx \<Rightarrow> ('tx, 'kp) pending_tx list" where
  "new_pending (Inr p) = [p]"
| "new_pending (Inl e) = []"

definition tracked_result where
  "tracked_result r w =
     (case r of (x, c, st) \<Rightarrow>
        w\<lparr>w_con := c, w_chain := st, w_confirms := w_confirms w @ new_confirms x\<rparr>)"

definition prepared_result where
  "prepared_result r w =
     (case r of (x, c) \<Rightarrow> w\<lparr>w_con := c, w_pending := w_pending w @ new_pending x\<rparr>)"

fun con_step where
  "con_step C P (DoOpen dst amount) w = tracked_result (open_channel C dst amount (w_con w) (w_chain w)) w"
| "con_step C P (DoFund i amount) w = tracked_result (fund_channel_tx C i amount (w_con w) (w_chain w)) w"
| "con_step C P (DoClose i) w = tracked_result (close_channel C i (w_con w) (w_chain w)) w"
| "con_step C P (DoWithdraw cur amount to) w = prepared_result (withdraw C cur amount to (w_con w)) w"
| "con_step C P (DoWithdrawFrom key cur amount to) w = prepared_result (withdraw_as C key cur amount to (w_con w)) w"
| "con_step C P (DoRegister safe) w = prepared_result (register_safe C P safe (w_con w) (w_chain w)) w"
| "con_step C P (DoRedeem ticket) w = prepared_result (redeem_ticket_tx C ticket (w_con w)) w"
| "con_step C P (DoSend i) w =
     (if i < length (w_pending w)
      then case send_tx C (w_pending w ! i) (w_con w) (w_chain w) of (_, c, st) \<Rightarrow>
             w\<lparr>w_con := c, w_chain := st, w_pending := remove_nth i (w_pending w)\<rparr>
      else w)"
| "con_step C P (DoDropTx i) w = w\<lparr>w_pending := remove_nth i (w_pending w)\<rparr>"
| "con_step C P (DoFinish i) w =
     (if i < length (w_confirms w)
      then let cn = w_confirms w ! i; c = w_con w in
           w\<lparr>w_con := c\<lparr>con_faults := leave_in_flight (cn_guard cn) (cn_op cn) (con_faults c)\<rparr>,
             w_confirms := remove_nth i (w_confirms w)\<rparr>
      else w)"
| "con_step C P (DoGraph e) w =
     (let c = w_con w in w\<lparr>w_con := c\<lparr>view := fst (graph_entry P e (view c))\<rparr>\<rparr>)"
| "con_step C P (DoChange x) w =
     (let c = w_con w in w\<lparr>w_con := c\<lparr>con_faults := (con_faults c)\<lparr>cf := apply_change x (cf (con_faults c))\<rparr>\<rparr>\<rparr>)"

definition con_run where
  "con_run C P ls w = foldl (\<lambda>w l. con_step C P l w) w ls"

section \<open>Invariants of runs\<close>

text \<open>
  What an invariant has to survive: the seven changes from which every step is composed. \<open>con_run\<close> then keeps it.
\<close>

locale con_invariant =
  fixes C :: "('g, 'kp, 'tk, 'tx, 'sg, 'st, 'r) chain_client" and P :: "('k, 'm) parsers"
    and I :: "('kp, 'g, 'k, 'm) connector \<Rightarrow> ('tx, 'kp) pending_tx list \<Rightarrow> 'r confirmation list \<Rightarrow> bool"
  assumes prepared: "I c ps cs \<Longrightarrow> prepare_tx C req key owner c = (x, c') \<Longrightarrow>
        owner = cl_public C key \<or> key = con_key c \<and> owner = my_addr c \<Longrightarrow>
        I c' (ps @ new_pending x) cs"
    and sent: "I c ps cs \<Longrightarrow> i < length ps \<Longrightarrow> send_tx C (ps ! i) c st = (y, c', st') \<Longrightarrow> I c' (remove_nth i ps) cs"
    and dropped: "I c ps cs \<Longrightarrow> I c (remove_nth i ps) cs"
    and changed: "I c ps cs \<Longrightarrow> I (c\<lparr>con_faults := (con_faults c)\<lparr>cf := apply_change ch (cf (con_faults c))\<rparr>\<rparr>) ps cs"
    and entered: "I c ps cs \<Longrightarrow> track_confirmation op j r pred c = (cn, c') \<Longrightarrow> I c' ps (cs @ [cn])"
    and left: "I c ps cs \<Longrightarrow> i < length cs \<Longrightarrow>
        I (c\<lparr>con_faults := leave_in_flight (cn_guard (cs ! i)) (cn_op (cs ! i)) (con_faults c)\<rparr>) ps (remove_nth i cs)"
    and viewed: "I c ps cs \<Longrightarrow> I (c\<lparr>view := s\<rparr>) ps cs"
begin

abbreviation W :: "('kp, 'g, 'k, 'm, 'st, 'tx, 'r) con_world \<Rightarrow> bool" where
  "W w \<equiv> I (w_con w) (w_pending w) (w_confirms w)"

lemma gated: "I c ps cs \<Longrightarrow> con_gate op c = (x, c') \<Longrightarrow> I c' ps cs"
  using changed [of c ps cs "Called op"] by (auto simp: con_gate_def gate_def Let_def)

lemma submitted:
  assumes "I c ps cs" and "submit_tracked C op req i pred c st = (x, c', st')"
  shows "I c' ps (cs @ new_confirms x)"
proof -
  obtain y c1 where 1: "prepare_tx C req (con_key c) (my_addr c) c = (y, c1)" by (cases "prepare_tx C req (con_key c) (my_addr c) c")
  note I1 = prepared [OF assms(1) 1]
  show ?thesis
  proof (cases y)
    case (Inl e)
    then show ?thesis using I1 1 assms(2) by (auto simp: submit_tracked_def)
  next
    case (Inr p)
    obtain z c2 st2 where 2: "send_tx C p c1 st = (z, c2, st2)" by (cases "send_tx C p c1 st")
    have I2: "I c2 ps cs" using sent [of c1 "ps @ [p]" cs "length ps"] I1 2 Inr by (simp add: remove_nth_def)
    show ?thesis
    proof (cases z)
      case (Inl e)
      then show ?thesis using 1 2 Inr I2 assms(2) by (auto simp: submit_tracked_def)
    next
      case Inr': (Inr r)
      obtain cn c3 where 3: "track_confirmation op i r pred c2 = (cn, c3)" by (cases "track_confirmation op i r pred c2")
      show ?thesis using 1 2 3 Inr Inr' entered [OF I2 3] assms(2) by (auto simp: submit_tracked_def)
    qed
  qed
qed

lemma tracked_results:
  assumes "I c ps cs"
  shows "open_channel C dst amount c st = (x, c', st') \<Longrightarrow> I c' ps (cs @ new_confirms x)"
    and "fund_channel_tx C i amount c st = (x, c', st') \<Longrightarrow> I c' ps (cs @ new_confirms x)"
    and "close_channel C i c st = (x, c', st') \<Longrightarrow> I c' ps (cs @ new_confirms x)"
  using gated [OF assms] unfolding open_channel_def fund_channel_tx_def close_channel_def
  by (auto split: prod.splits poll.splits sum.splits option.splits entry_status.splits dest: submitted)

lemma registered:
  "I c ps cs \<Longrightarrow> register_safe C P safe c st = (x, c') \<Longrightarrow> I c' (ps @ new_pending x) cs"
  unfolding register_safe_def by (auto split: option.splits list.splits intro: prepared)

lemma step_preserves: "W w \<Longrightarrow> W (con_step C P l w)"
proof (cases l)
  case (DoOpen dst amount)
  assume "W w"
  with DoOpen show ?thesis
    by (cases "open_channel C dst amount (w_con w) (w_chain w)") (auto simp: tracked_result_def dest: tracked_results(1))
next
  case (DoFund i amount)
  assume "W w"
  with DoFund show ?thesis
    by (cases "fund_channel_tx C i amount (w_con w) (w_chain w)") (auto simp: tracked_result_def dest: tracked_results(2))
next
  case (DoClose i)
  assume "W w"
  with DoClose show ?thesis
    by (cases "close_channel C i (w_con w) (w_chain w)") (auto simp: tracked_result_def dest: tracked_results(3))
next
  case (DoSend i)
  assume "W w"
  with DoSend show ?thesis
    by (cases "send_tx C (w_pending w ! i) (w_con w) (w_chain w)") (auto dest: sent)
qed (auto simp: prepared_result_def withdraw_def withdraw_as_def redeem_ticket_tx_def Let_def
  intro: prepared registered dropped left viewed changed split: prod.splits)

lemma run_preserves: "W w \<Longrightarrow> W (con_run C P ls w)"
  unfolding con_run_def by (induction ls rule: rev_induct) (auto intro: step_preserves)

end

section \<open>Nonces\<close>

text \<open>
  Counters belong to the key that signs; the nonces a signer has used are \<open>0, 1, 2, \<dots>\<close> in the order of use, and its
  counter holds the next one.
\<close>

definition nonces_of :: "address \<Rightarrow> ('kp, 'g, 'k, 'm) connector \<Rightarrow> u64 list" where
  "nonces_of a c = map snd (filter (\<lambda>(x, _). x = a) (signed_log c))"

definition nonce_inv ::
  "('g, 'kp, 'tk, 'tx, 'sg, 'st, 'r) chain_client \<Rightarrow> ('kp, 'g, 'k, 'm) connector \<Rightarrow> ('tx, 'kp) pending_tx list \<Rightarrow>
     'r confirmation list \<Rightarrow> bool" where
  "nonce_inv C c ps cs \<longleftrightarrow>
     my_addr c = cl_public C (con_key c) \<and> (\<forall>p \<in> set ps. pt_owner p = cl_public C (pt_key p)) \<and>
     (\<forall>a. nonces_of a c = map of_nat [0..<length (nonces_of a c)] \<and>
          unwrap_or 0 (nonces c a) = of_nat (length (nonces_of a c)))"

lemma nonce_for_simps [simp]:
  "my_addr (nonce_for a c) = my_addr c" "con_key (nonce_for a c) = con_key c" "signed_log (nonce_for a c) = signed_log c"
  "con_faults (nonce_for a c) = con_faults c" "next_guard (nonce_for a c) = next_guard c"
  "unwrap_or 0 (nonces (nonce_for a c) b) = unwrap_or 0 (nonces c b)" "nonces_of b (nonce_for a c) = nonces_of b c"
  by (auto simp: nonce_for_def nonces_of_def split: option.splits)

lemma prepare_tx_cases:
  assumes "prepare_tx C req key owner c = (x, c')"
  obtains e where "x = Inl e" "c' = c"
  | p where "x = Inr p" "c' = nonce_for owner c" "pt_key p = key" "pt_owner p = owner"
  using assms that by (auto simp: prepare_tx_def split: option.splits)

lemma send_tx_connector:
  assumes "send_tx C p c st = (y, c', st')"
  defines "n \<equiv> unwrap_or 0 (nonces c (pt_owner p))"
  shows "c' = c\<lparr>nonces := (nonces c)(pt_owner p \<mapsto> n + 1), signed_log := signed_log c @ [(cl_public C (pt_key p), n)]\<rparr>"
  using assms(1) by (auto simp: send_tx_def Let_def n_def split: option.splits prod.splits)

lemma set_remove_nth: "set (remove_nth i xs) \<subseteq> set xs"
  using set_take_subset set_drop_subset by (fastforce simp: remove_nth_def)

lemma nonce_inv_sent:
  assumes "nonce_inv C c ps cs" and "i < length ps" and "send_tx C (ps ! i) c st = (y, c', st')"
  shows "nonce_inv C c' (remove_nth i ps) cs"
proof -
  let ?p = "ps ! i"
  have owner: "pt_owner ?p = cl_public C (pt_key ?p)" using assms(1,2) by (simp add: nonce_inv_def)
  note c' = send_tx_connector [OF assms(3)]
  have "nonces_of a c' = nonces_of a c @ (if a = pt_owner ?p then [of_nat (length (nonces_of a c))] else [])" for a
    using assms(1) by (simp add: c' nonces_of_def owner nonce_inv_def)
  with assms(1) show ?thesis
    using set_remove_nth [of i ps] unfolding nonce_inv_def c' by (auto simp: owner)
qed

interpretation nonce_seq: con_invariant C P "nonce_inv C" for C P
proof (unfold_locales, goal_cases)
  case (1 c ps cs req key owner x c')
  then show ?case by (auto elim!: prepare_tx_cases simp: nonce_inv_def)
next
  case (2 c ps cs i st y c' st')
  then show ?case by (rule nonce_inv_sent)
next
  case (3 c ps cs i)
  then show ?case using set_remove_nth [of i ps] by (auto simp: nonce_inv_def)
qed (auto simp: nonce_inv_def nonces_of_def track_confirmation_def)

section \<open>Outstanding confirmations\<close>

definition flight_ok :: "flight \<Rightarrow> nat \<Rightarrow> 'r confirmation list \<Rightarrow> bool" where
  "flight_ok f n cs \<longleftrightarrow>
     flight_reach f \<and> distinct (map cn_guard cs) \<and> (\<forall>cn \<in> set cs. pcs f (cn_guard cn) = Some (Held (cn_op cn))) \<and>
     (\<forall>g. pcs f g \<noteq> None \<longrightarrow> g < n) \<and>
     (\<forall>g pc. pcs f g = Some pc \<longrightarrow> g \<notin> cn_guard ` set cs \<longrightarrow> (\<exists>op. pc = Left op))"

definition flight_inv ::
  "('kp, 'g, 'k, 'm) connector \<Rightarrow> ('tx, 'kp) pending_tx list \<Rightarrow> 'r confirmation list \<Rightarrow> bool" where
  "flight_inv c ps cs \<longleftrightarrow> flight_ok (con_faults c) (next_guard c) cs"

lemma flight_ok_enter:
  assumes "flight_ok f n cs"
  shows "flight_ok (enter_in_flight n op f) (Suc n) (cs @ [\<lparr>cn_op = op, cn_id = i, cn_receipt = r, cn_pred = q, cn_guard = n\<rparr>])"
proof -
  have fresh: "pcs f n = None" using assms unfolding flight_ok_def by blast
  then have other: "\<forall>cn \<in> set cs. cn_guard cn \<noteq> n" using assms unfolding flight_ok_def by fastforce
  have "flight_reach (enter_in_flight n op f)" using assms fresh by (simp add: flight_ok_def flight_reach_enter)
  with other assms show ?thesis by (auto simp: flight_ok_def less_SucI)
qed

lemma flight_ok_leave:
  assumes "flight_ok f n (xs @ cn # ys)"
  shows "flight_ok (leave_in_flight (cn_guard cn) (cn_op cn) f) n (xs @ ys)"
proof -
  have held: "pcs f (cn_guard cn) = Some (Held (cn_op cn))" using assms by (simp add: flight_ok_def)
  have other: "\<forall>x \<in> set xs \<union> set ys. cn_guard x \<noteq> cn_guard cn"
  proof -
    have "distinct (map cn_guard (xs @ cn # ys))" using assms by (simp only: flight_ok_def)
    then show ?thesis by (auto simp: image_iff)
  qed
  have "flight_reach (leave_in_flight (cn_guard cn) (cn_op cn) f)"
    using assms held by (simp add: flight_ok_def flight_reach_leave)
  moreover have "\<forall>g. ((pcs f)(cn_guard cn \<mapsto> Left (cn_op cn))) g \<noteq> None \<longrightarrow> g < n"
    using assms held unfolding flight_ok_def by (metis fun_upd_apply option.distinct(1))
  moreover have "\<forall>g pc. ((pcs f)(cn_guard cn \<mapsto> Left (cn_op cn))) g = Some pc \<longrightarrow>
      g \<notin> cn_guard ` set (xs @ ys) \<longrightarrow> (\<exists>op. pc = Left op)"
    using assms unfolding flight_ok_def by simp
  ultimately show ?thesis using other assms unfolding flight_ok_def by simp
qed

lemma flight_inv_left:
  assumes "flight_inv c ps cs" and "i < length cs"
  shows "flight_inv (c\<lparr>con_faults := leave_in_flight (cn_guard (cs ! i)) (cn_op (cs ! i)) (con_faults c)\<rparr>) ps (remove_nth i cs)"
  using assms flight_ok_leave [of "con_faults c" "next_guard c" "take i cs" "cs ! i" "drop (Suc i) cs"]
  by (simp add: flight_inv_def remove_nth_def id_take_nth_drop [symmetric])

interpretation in_flight_count: con_invariant C P flight_inv for C P
proof (unfold_locales, goal_cases)
  case (1 c ps cs req key owner x c')
  then show ?case by (auto elim!: prepare_tx_cases simp: flight_inv_def)
next
  case (2 c ps cs i st y c' st')
  then show ?case by (auto dest!: send_tx_connector simp: flight_inv_def)
next
  case (4 c ps cs ch)
  then show ?case using flight_reach.step [of "con_faults c" "Change ch"] by (auto simp: flight_inv_def flight_ok_def)
next
  case (5 c ps cs op j r pred cn c')
  then show ?case by (auto simp: flight_inv_def track_confirmation_def intro: flight_ok_enter)
next
  case (6 c ps cs i)
  then show ?case by (rule flight_inv_left)
qed (simp_all add: flight_inv_def)

lemma flight_ok_counts:
  assumes "flight_ok f n cs"
  shows "{g. on (counted_op op) (pcs f g)} = cn_guard ` {cn \<in> set cs. cn_op cn = op}"
    and "{g. pcs f g = Some (Held op)} = cn_guard ` {cn \<in> set cs. cn_op cn = op}"
    and "{g. on counted_total (pcs f g)} = cn_guard ` set cs"
    and "{g. \<exists>op. pcs f g = Some (Held op)} = cn_guard ` set cs"
proof -
  have held: "cn \<in> set cs \<Longrightarrow> pcs f (cn_guard cn) = Some (Held (cn_op cn))" for cn using assms by (simp add: flight_ok_def)
  have pc: "pcs f g = None \<or> (\<exists>op. pcs f g = Some (Left op)) \<or> (\<exists>cn \<in> set cs. cn_guard cn = g \<and> pcs f g = Some (Held (cn_op cn)))" for g
    using assms held unfolding flight_ok_def by (cases "pcs f g") (force simp: image_iff)+
  show "{g. on (counted_op op) (pcs f g)} = cn_guard ` {cn \<in> set cs. cn_op cn = op}"
    using held pc by (auto simp: image_iff) (metis counted_op.simps(4,6) on_simps)
  show "{g. pcs f g = Some (Held op)} = cn_guard ` {cn \<in> set cs. cn_op cn = op}"
    using held pc by (auto simp: image_iff) (metis guard_pc.distinct(27) guard_pc.inject(4) option.distinct(1) option.inject)
  show "{g. on counted_total (pcs f g)} = cn_guard ` set cs"
    using held pc by (auto simp: image_iff) (metis counted_total.simps(6) on_simps)
  show "{g. \<exists>op. pcs f g = Some (Held op)} = cn_guard ` set cs"
    using held pc by (auto simp: image_iff) (metis guard_pc.distinct(27) option.distinct(1) option.inject)
qed

lemma card_guards:
  assumes "distinct (map cn_guard cs)"
  shows "card (cn_guard ` {cn \<in> set cs. Q cn}) = length (filter Q cs)"
proof -
  have "distinct (map cn_guard (filter Q cs))" using assms by (rule distinct_map_filter)
  from distinct_card [OF this] show ?thesis by simp
qed

section \<open>Confirmations\<close>

lemma await_own_view_cases:
  assumes "await_own_view pred deadline obs = Some out"
  shows "(\<exists>x t. (Some x, t) \<in> set obs \<and> pred x) \<or> (\<exists>v t. (v, t) \<in> set obs \<and> deadline \<le> t)"
  using assms by (induction pred deadline obs rule: await_own_view.induct) (force split: if_splits option.splits)+

lemma await_own_view_returns:
  assumes "(v, t) \<in> set obs" and "deadline \<le> t"
  shows "await_own_view pred deadline obs \<noteq> None"
  using assms by (induction pred deadline obs rule: await_own_view.induct) auto

lemma submit_tracked_confirmed:
  assumes "submit_tracked C op req i pred c st = (Ready (Inr cn), c', st')"
  shows "cn_op cn = op \<and> cn_id cn = i \<and> cn_pred cn = pred \<and>
    (\<exists>g tx cid sg. payload_gen c = Some g \<and> con_chain_id c = Some cid \<and> cl_payload C g req = Some tx \<and>
       cl_sign C tx (unwrap_or 0 (nonces c (my_addr c))) cid (con_key c) = Some sg \<and> cl_submit C sg st = (Some (cn_receipt cn), st'))"
  using assms
  by (auto simp: submit_tracked_def prepare_tx_def send_tx_def track_confirmation_def Let_def
      split: option.splits sum.splits prod.splits)

lemma con_gate_frame [simp]:
  assumes "con_gate op c = (x, c')"
  shows "view c' = view c" "payload_gen c' = payload_gen c" "con_chain_id c' = con_chain_id c" "con_key c' = con_key c"
    "my_addr c' = my_addr c" "nonces c' = nonces c"
  using assms by (auto simp: con_gate_def)

text \<open>
  Closing in two steps: a channel that is open gets its closure initiated, one that is pending gets it finalized; a
  confirmation that succeeds carries the receipt of that transaction, and the connector's view has left the status it
  had, unless the five seconds are over.
\<close>

lemma close_channel_confirmed:
  assumes "close_channel C i c st = (Ready (Inr cn), c', st')" and "confirmation_poll cn start obs f = Ready (Inr r)"
  obtains ch req g tx cid sg where "ch_cache (view c) i = Some ch"
    and "ce_status ch = StOpen \<and> req = InitiateClosureReq (ce_dst ch) \<or>
         (\<exists>t. ce_status ch = StPending t) \<and> req = FinalizeClosureReq (ce_dst ch)"
    and "payload_gen c = Some g" "cl_payload C g req = Some tx" "con_chain_id c = Some cid"
    and "cl_sign C tx (unwrap_or 0 (nonces c (my_addr c))) cid (con_key c) = Some sg"
    and "cl_submit C sg st = (Some r, st')"
    and "(\<exists>x t. (Some x, t) \<in> set obs \<and> ce_status x \<noteq> ce_status ch) \<or> (\<exists>v t. (v, t) \<in> set obs \<and> start + LIMIT \<le> t)"
proof -
  obtain x c1 where 1: "con_gate CloseChannelOp c = (x, c1)" by (cases "con_gate CloseChannelOp c")
  note frame = con_gate_frame [OF 1]
  obtain ch req where ch: "ch_cache (view c) i = Some ch"
    and req: "ce_status ch = StOpen \<and> req = InitiateClosureReq (ce_dst ch) \<or>
         (\<exists>t. ce_status ch = StPending t) \<and> req = FinalizeClosureReq (ce_dst ch)"
    and sub: "submit_tracked C CloseChannelOp req i (\<lambda>x. ce_status x \<noteq> ce_status ch) c1 st = (Ready (Inr cn), c', st')"
    using assms(1) 1 frame(1) by (auto simp: close_channel_def split: poll.splits sum.splits option.splits entry_status.splits)
  from assms(2) obtain out where "await_own_view (cn_pred cn) (start + LIMIT) obs = Some out" and r: "r = cn_receipt cn"
    by (auto simp: confirmation_poll_def split: option.splits poll.splits sum.splits)
  from await_own_view_cases [OF this(1)] submit_tracked_confirmed [OF sub] that [OF ch req] show thesis
    by (auto simp: frame r)
qed

section \<open>Properties\<close>

definition start_world :: "('kp, 'g, 'k, 'm) connector \<Rightarrow> 'st \<Rightarrow> ('kp, 'g, 'k, 'm, 'st, 'tx, 'r) con_world" where
  "start_world c st = \<lparr>w_con = c, w_chain = st, w_pending = [], w_confirms = []\<rparr>"

text \<open>C36. Every signer has its own gapless nonce sequence: whatever is called on a connector, and in whatever order the
  futures it returns are awaited or dropped, the transactions signed by one address carry the nonces \<open>0, 1, 2, \<dots>\<close>
  in the order in which they are signed, so no nonce is used twice before the counter wraps; a submission that fails
  has used its nonce. The connector's address is that of its key, as \<open>create_test_blokli_connector\<close> makes it.\<close>

theorem signer_nonces_consecutive:
  fixes w :: "('kp, 'g, 'k, 'm, 'st, 'tx, 'r) con_world"
  assumes "a = cl_public C key" and "connect Q I P (new_connector a key module_addr) st = (r, c)"
    and "w = con_run C P ls (start_world c st)"
  shows "nonces_of b (w_con w) = map of_nat [0..<length (nonces_of b (w_con w))] \<and>
    (length (nonces_of b (w_con w)) \<le> 2 ^ 64 \<longrightarrow> distinct (nonces_of b (w_con w)))"
proof -
  have "nonce_inv C (w_con w) (w_pending w) (w_confirms w)"
    unfolding assms(3)
    by (rule nonce_seq.run_preserves)
      (simp add: assms(1) nonce_inv_def start_world_def connect_frame [OF assms(2)] new_connector_def nonces_of_def)
  then have eq: "nonces_of b (w_con w) = map of_nat [0..<length (nonces_of b (w_con w))]" by (simp add: nonce_inv_def)
  moreover have "distinct (map (of_nat :: nat \<Rightarrow> u64) [0..<k])" if "k \<le> 2 ^ 64" for k
    using that by (auto simp: distinct_map inj_on_def word_of_nat_eq_iff take_bit_nat_eq_self)
  ultimately show ?thesis by metis
qed

definition toy_client :: "(unit, address, unit, unit, unit, nat, nat) chain_client" where
  "toy_client = \<lparr>cl_payload = \<lambda>_ _. Some (), cl_sign = \<lambda>_ _ _ _. Some (), cl_submit = \<lambda>_ n. (if n < 2 then Some n else None, n + 1),
     cl_query_safe = \<lambda>_ _. Some [], cl_public = \<lambda>k. k, cl_channel_id = \<lambda>a b. a @ b, cl_add = (+)\<rparr>"

definition toy_info_parsers :: "unit info_parsers" where
  "toy_info_parsers = \<lparr>ip_hash = \<lambda>_. None, ip_win_prob = \<lambda>_. Some 1, ip_balance = \<lambda>s. Some (length s), ip_contracts = \<lambda>_. Some ()\<rparr>"

definition toy_info :: info_model where
  "toy_info = \<lparr>im_grace_period = show_nat 60, im_ledger_dst = None, im_registry_dst = None, im_channel_dst = None,
     im_min_win_prob = 1, im_ticket_price = ''1'', im_key_binding_fee = ''0'', im_chain_id = 100, im_network = ''n'',
     im_contracts = ''{}''\<rparr>"

definition toy_queries :: "(unit, unit, address, nat) chain_queries" where
  "toy_queries = \<lparr>cq_chain_info = \<lambda>_. Some toy_info, cq_accounts = \<lambda>_. Some toy_accounts, cq_channels = \<lambda>_. Some [],
     cq_generator = \<lambda>_ _ _. ()\<rparr>"

definition toy_connector :: "(address, unit, unit, unit) connector" where
  "toy_connector = snd (connect toy_queries toy_info_parsers toy_parsers (new_connector [7] [7] []) 0)"

lemma toy_connects: "connect toy_queries toy_info_parsers toy_parsers (new_connector [7] [7] []) 0 = (Inr (), toy_connector)"
proof -
  have "\<exists>p. parse_chain_info_model toy_info_parsers toy_info = Some p"
    by (simp add: parse_chain_info_model_def toy_info_parsers_def toy_info_def parse_separator_def)
  then have "fst (connect toy_queries toy_info_parsers toy_parsers (new_connector [7] [7] []) 0) = Inr ()"
    using toy_load by (auto simp: connect_def toy_queries_def set_chain_info_def new_connector_def connect_load_def Let_def
        split: prod.splits bool.splits)
  then show ?thesis by (simp add: toy_connector_def prod_eq_iff)
qed

text \<open>Two transfers by the connector, the second awaited first, one by another key, and one that is dropped.\<close>

definition toy_run :: "(address, unit) con_label list" where
  "toy_run = [DoWithdraw Native 1 [9], DoWithdraw Token 2 [9], DoWithdrawFrom [5] Native 3 [9], DoSend 1, DoSend 1, DoSend 0,
     DoWithdraw Native 4 [9], DoDropTx 0]"

theorem signer_nonces_consecutive_witness:
  "\<exists>w :: (address, unit, unit, unit, nat, unit, nat) con_world.
     w = con_run toy_client toy_parsers toy_run (start_world toy_connector 0) \<and>
     signed_log (w_con w) = [([7], 0), ([5], 0), ([7], 1)] \<and>
     nonces_of [7] (w_con w) = map of_nat [0..<length (nonces_of [7] (w_con w))]"
proof -
  define w :: "(address, unit, unit, unit, nat, unit, nat) con_world" where
    "w = con_run toy_client toy_parsers toy_run (start_world toy_connector 0)"
  obtain cid where c: "payload_gen toy_connector = Some ()" "con_chain_id toy_connector = Some cid"
      "nonces toy_connector = (\<lambda>_. None)" "signed_log toy_connector = []" "con_key toy_connector = [7]" "my_addr toy_connector = [7]"
    using connect_success [OF toy_connects] connect_frame [OF toy_connects] by (auto simp: new_connector_def)
  have "signed_log (w_con w) = [([7], 0), ([5], 0), ([7], 1)]"
    by (simp add: w_def con_run_def toy_run_def start_world_def withdraw_def withdraw_as_def c
        prepare_tx_def send_tx_def nonce_for_def prepared_result_def remove_nth_def toy_client_def Let_def)
  moreover have "nonces_of [7] (w_con w) = map of_nat [0..<length (nonces_of [7] (w_con w))]"
    using signer_nonces_consecutive [OF _ toy_connects w_def] by (simp add: toy_client_def)
  ultimately show ?thesis using w_def by blast
qed

text \<open>C37. The in-flight counters of a connector are exact: at any point of any run, the count of an operation is the
  number of its confirmations that are neither resolved nor dropped, the total is the number of all of them, and the
  watermarks are at least that.\<close>

theorem in_flight_is_outstanding:
  fixes C :: "('g, 'kp, 'tk, 'tx, 'sg, 'st, 'r) chain_client" and P :: "('k, 'm) parsers"
    and Q :: "('c, 'g, 'kp, 'st) chain_queries" and I and ls and a and key :: 'kp and module_addr and st :: 'st
  defines "w \<equiv> con_run C P ls (start_world (snd (connect Q I P (new_connector a key module_addr) st)) st)"
  shows "unwrap_or 0 (in_flight (cf (con_faults (w_con w))) op) = length (filter (\<lambda>cn. cn_op cn = op) (w_confirms w)) \<and>
    in_flight_total (cf (con_faults (w_con w))) = length (w_confirms w) \<and>
    length (filter (\<lambda>cn. cn_op cn = op) (w_confirms w)) \<le> peak_of op (cf (con_faults (w_con w))) \<and>
    length (w_confirms w) \<le> peak_in_flight_total (cf (con_faults (w_con w)))"
proof -
  have "flight_inv (w_con w) (w_pending w) (w_confirms w)"
    unfolding w_def
    by (rule in_flight_count.run_preserves)
      (simp add: flight_inv_def flight_ok_def start_world_def connect_frame [OF surjective_pairing] new_connector_def
        flight_reach.init flight_init_def [THEN arg_cong [of _ _ pcs]])
  then have ok: "flight_ok (con_faults (w_con w)) (next_guard (w_con w)) (w_confirms w)" by (simp add: flight_inv_def)
  then have reach: "flight_reach (con_faults (w_con w))" and d: "distinct (map cn_guard (w_confirms w))"
    by (simp_all add: flight_ok_def)
  have total: "card (cn_guard ` set (w_confirms w)) = length (w_confirms w)"
    using card_guards [OF d, of "\<lambda>_. True"] by simp
  show ?thesis
    using in_flight_exact [OF reach, of op] in_flight_total_exact [OF reach] held_covered(1) [OF reach, of op] held_covered(2) [OF reach]
    by (simp add: flight_ok_counts [OF ok] card_guards [OF d] total)
qed

end
