(* ===== verification/Queries.thy ===== *)
theory Queries
  imports Submission
begin

text \<open>
  The operations of the test connector that only read, \<open>src/testing/blokli/connector.rs\<close>: streams and lookups over its
  caches, values of the chain asked from the client, and registered safes. Some of them pass a gate of injected faults,
  which counts the call. The order in which a concurrent map is iterated is an argument, the list of its keys.
\<close>

section \<open>Caches\<close>

datatype 'a stream_result = PendingStream | Entries "'a list"

definition con_gate_stream ::
  "chain_op \<Rightarrow> ('kp, 'g, 'k, 'm) connector \<Rightarrow> (connector_error + fault) \<times> ('kp, 'g, 'k, 'm) connector" where
  "con_gate_stream op c = (fst (gate_stream op (cf (con_faults c))),
     c\<lparr>con_faults := (con_faults c)\<lparr>cf := snd (gate_stream op (cf (con_faults c)))\<rparr>\<rparr>)"

definition stream_accounts ::
  "(('k, 'm) acc_entry \<Rightarrow> bool) \<Rightarrow> address list \<Rightarrow> ('kp, 'g, 'k, 'm) connector \<Rightarrow>
     (con_error + ('k, 'm) acc_entry stream_result) \<times> ('kp, 'g, 'k, 'm) connector" where
  "stream_accounts sel keys c =
     (case con_gate_stream StreamAccounts c of
        (Inl e, c) \<Rightarrow> (Inl (Injected e), c)
      | (Inr f, c) \<Rightarrow>
          (Inr (if f = Hang then PendingStream
                else Entries (filter sel (List.map_filter (acc_cache (view c)) keys))), c))"

definition count_accounts :: "(('k, 'm) acc_entry \<Rightarrow> bool) \<Rightarrow> address list \<Rightarrow> ('kp, 'g, 'k, 'm) connector \<Rightarrow> nat" where
  "count_accounts sel keys c = length (filter sel (List.map_filter (acc_cache (view c)) keys))"

definition find_by_key :: "'k \<Rightarrow> address list \<Rightarrow> ('kp, 'g, 'k, 'm) connector \<Rightarrow> ('k, 'm) acc_entry option" where
  "find_by_key key keys c = find (\<lambda>e. ae_key e = key) (List.map_filter (acc_cache (view c)) keys)"

definition await_key_binding :: "'k \<Rightarrow> address list \<Rightarrow> ('kp, 'g, 'k, 'm) connector \<Rightarrow> con_error + ('k, 'm) acc_entry" where
  "await_key_binding key keys c =
     (case find_by_key key keys c of None \<Rightarrow> Inl AccountNotFound | Some e \<Rightarrow> Inr e)"

definition chain_key_to_packet_key :: "address \<Rightarrow> ('kp, 'g, 'k, 'm) connector \<Rightarrow> 'k option" where
  "chain_key_to_packet_key a c = map_option ae_key (acc_cache (view c) a)"

definition packet_key_to_chain_key :: "'k \<Rightarrow> address list \<Rightarrow> ('kp, 'g, 'k, 'm) connector \<Rightarrow> address option" where
  "packet_key_to_chain_key key keys c = map_option ae_addr (find_by_key key keys c)"

definition channel_by_id :: "hash \<Rightarrow> ('kp, 'g, 'k, 'm) connector \<Rightarrow> chan_entry option" where
  "channel_by_id i c = ch_cache (view c) i"

definition stream_channels ::
  "(chan_entry \<Rightarrow> bool) \<Rightarrow> hash list \<Rightarrow> ('kp, 'g, 'k, 'm) connector \<Rightarrow>
     (con_error + chan_entry stream_result) \<times> ('kp, 'g, 'k, 'm) connector" where
  "stream_channels sel keys c =
     (case con_gate_stream StreamChannels c of
        (Inl e, c) \<Rightarrow> (Inl (Injected e), c)
      | (Inr f, c) \<Rightarrow>
          (Inr (if f = Hang then PendingStream
                else Entries (filter sel (List.map_filter (ch_cache (view c)) keys))), c))"

definition incoming_ticket_values :: "('kp, 'g, 'k, 'm) connector \<Rightarrow> con_error + 56 word \<times> nat" where
  "incoming_ticket_values c =
     (case ticket_win_prob c of
        None \<Rightarrow> Inl NotConnected
      | Some w \<Rightarrow> (case ticket_price c of None \<Rightarrow> Inl NotConnected | Some p \<Rightarrow> Inr (w, p)))"

section \<open>Values of the chain\<close>

text \<open>
  The answers of the client, \<open>None\<close> for an error; amounts and counters come as text.
\<close>

record 'st value_queries =
  vq_chain_info :: "'st \<Rightarrow> info_model option"
  vq_token_balance :: "address \<Rightarrow> 'st \<Rightarrow> string option"
  vq_native_balance :: "address \<Rightarrow> 'st \<Rightarrow> string option"
  vq_allowance :: "address \<Rightarrow> 'st \<Rightarrow> string option"
  vq_redeemed_stats :: "address \<Rightarrow> 'st \<Rightarrow> (string \<times> string) option"   \<comment> \<open>count and amount\<close>

text \<open>A call behind a gate: the client is asked only when no fault is set.\<close>

definition gated ::
  "chain_op \<Rightarrow> (con_error + 'a) \<Rightarrow> ('kp, 'g, 'k, 'm) connector \<Rightarrow> (con_error + 'a) poll \<times> ('kp, 'g, 'k, 'm) connector" where
  "gated op r c =
     (case con_gate op c of
        (Pending, c) \<Rightarrow> (Pending, c)
      | (Ready (Inl e), c) \<Rightarrow> (Ready (Inl (Injected e)), c)
      | (Ready (Inr _), c) \<Rightarrow> (Ready r, c))"

definition parsed_answer :: "(string \<Rightarrow> 'a option) \<Rightarrow> string option \<Rightarrow> con_error + 'a" where
  "parsed_answer parse s =
     (case s of None \<Rightarrow> Inl QueryFailed | Some t \<Rightarrow> (case parse t of None \<Rightarrow> Inl ParseFailed | Some x \<Rightarrow> Inr x))"

definition balance where
  "balance V ptoken pnative cur a c st =
     gated Balance
       (case cur of
          Token \<Rightarrow> parsed_answer ptoken (vq_token_balance V a st)
        | Native \<Rightarrow> parsed_answer pnative (vq_native_balance V a st)) c"

definition safe_allowance :: "'st value_queries \<Rightarrow> (string \<Rightarrow> nat option) \<Rightarrow> currency \<Rightarrow> address \<Rightarrow> 'st \<Rightarrow> con_error + nat" where
  "safe_allowance V ptoken cur a st =
     (case cur of Token \<Rightarrow> parsed_answer ptoken (vq_allowance V a st) | Native \<Rightarrow> Inl Unsupported)"

definition fetch_parsed_chain_info :: "'st value_queries \<Rightarrow> 'c info_parsers \<Rightarrow> 'st \<Rightarrow> con_error + 'c parsed_info" where
  "fetch_parsed_chain_info V I st =
     (case vq_chain_info V st of
        None \<Rightarrow> Inl QueryFailed
      | Some m \<Rightarrow> (case parse_chain_info_model I m of None \<Rightarrow> Inl ParseFailed | Some p \<Rightarrow> Inr p))"

definition minimum_incoming_ticket_win_prob where
  "minimum_incoming_ticket_win_prob V I c st = gated WinProb (map_sum id pi_win_prob (fetch_parsed_chain_info V I st)) c"

definition minimum_ticket_price where
  "minimum_ticket_price V I c st = gated TicketPrice (map_sum id pi_ticket_price (fetch_parsed_chain_info V I st)) c"

definition domain_separators where
  "domain_separators V I st = map_sum id (\<lambda>p. (pi_ledger p, pi_registry p, pi_channel p)) (fetch_parsed_chain_info V I st)"

definition channel_closure_notice_period where
  "channel_closure_notice_period V I st = map_sum id pi_grace_period (fetch_parsed_chain_info V I st)"

definition chain_info where
  "chain_info V I st = map_sum id (\<lambda>p. (pi_chain_id p, pi_network p, pi_contracts p)) (fetch_parsed_chain_info V I st)"

definition key_binding_fee :: "'st value_queries \<Rightarrow> (string \<Rightarrow> nat option) \<Rightarrow> 'st \<Rightarrow> con_error + nat" where
  "key_binding_fee V ptoken st = parsed_answer ptoken (map_option im_key_binding_fee (vq_chain_info V st))"

definition redemption_stats ::
  "'st value_queries \<Rightarrow> (string \<Rightarrow> nat option) \<Rightarrow> (string \<Rightarrow> nat option) \<Rightarrow> address \<Rightarrow> 'st \<Rightarrow> con_error + nat \<times> nat" where
  "redemption_stats V pcount ptoken a st =
     (case vq_redeemed_stats V a st of
        None \<Rightarrow> Inl QueryFailed
      | Some (n, v) \<Rightarrow>
          (case pcount n of
             None \<Rightarrow> Inl ParseFailed
           | Some k \<Rightarrow> (case ptoken v of None \<Rightarrow> Inl ParseFailed | Some x \<Rightarrow> Inr (k, x))))"

definition typical_resolution_time :: "('kp, 'g, 'k, 'm) connector \<Rightarrow> (con_error + nat) poll \<times> ('kp, 'g, 'k, 'm) connector" where
  "typical_resolution_time c = gated ResolutionTime (Inr (from_secs 5)) c"

section \<open>What the connector does not support\<close>

text \<open>The interfaces a test does not exercise: fixed answers, and errors for the writes.\<close>

datatype unsupported_write = Announce | DeploySafe | PredictModuleAddress

definition unsupported_call :: "unsupported_write \<Rightarrow> con_error + 'r" where
  "unsupported_call w = Inl Unsupported"

datatype 'ty service_write = RegisterService 'ty "byte list" | UpdateService 'ty "byte list" | DeregisterService 'ty

definition service_write :: "'ty service_write \<Rightarrow> con_error + 'r" where
  "service_write w = Inl Unsupported"

definition stream_services :: "'sel \<Rightarrow> con_error + 'entry list" where
  "stream_services sel = Inr []"

definition count_services :: "'sel \<Rightarrow> con_error + nat" where
  "count_services sel = Inr 0"

definition get_service_type_config :: "'ty \<Rightarrow> con_error + 'conf option" where
  "get_service_type_config ty = Inr None"

definition get_service_registry_config :: "con_error + nat \<times> address" where
  "get_service_registry_config = Inr (0, replicate 20 0)"

definition map_key_to_id :: "'k \<Rightarrow> u32 option" where "map_key_to_id key = None"

definition map_id_to_public :: "u32 \<Rightarrow> 'k option" where "map_id_to_public i = None"

definition packet_payload_size :: nat where "packet_payload_size = 1036"

section \<open>Safes\<close>

record safe_entry =
  se_address :: address
  se_owners :: "address list"
  se_module :: address
  se_nodes :: "address list"
  se_deployer :: address

definition parse_safe :: "('k, 'm) parsers \<Rightarrow> remote_safe \<Rightarrow> safe_entry option" where
  "parse_safe P s =
     Option.bind (ps_addr P (rs_address s)) (\<lambda>a.
     Option.bind (those (map (ps_addr P) (rs_owners s))) (\<lambda>os.
     Option.bind (ps_addr P (rs_module s)) (\<lambda>m.
     Option.bind (those (map (ps_addr P) (rs_nodes s))) (\<lambda>ns.
     Option.bind (ps_addr P (rs_chain_key s)) (\<lambda>d.
       Some \<lparr>se_address = a, se_owners = os, se_module = m, se_nodes = ns, se_deployer = d\<rparr>)))))"

definition safe_info where
  "safe_info C P sel c st =
     gated SafeInfo
       (case cl_query_safe C sel st of
          None \<Rightarrow> Inl QueryFailed
        | Some [] \<Rightarrow> Inr None
        | Some (s # _) \<Rightarrow> (case parse_safe P s of None \<Rightarrow> Inl ParseFailed | Some e \<Rightarrow> Inr (Some e))) c"

definition await_safe_deployment where
  "await_safe_deployment C P sel c st =
     (case safe_info C P sel c st of
        (Pending, c) \<Rightarrow> (Pending, c)
      | (Ready (Inl e), c) \<Rightarrow> (Ready (Inl e), c)
      | (Ready (Inr None), c) \<Rightarrow> (Ready (Inl SafeNotFound), c)
      | (Ready (Inr (Some s)), c) \<Rightarrow> (Ready (Inr s), c))"

section \<open>Setting up a node\<close>

definition create_test_blokli_connector where
  "create_test_blokli_connector C Q I P key module_addr st =
     (case connect Q I P (new_connector (cl_public C key) key module_addr) st of
        (Inl e, _) \<Rightarrow> Inl e
      | (Inr _, c) \<Rightarrow> Inr c)"

definition register_test_safe where
  "register_test_safe C P node keys c st =
     (case stream_accounts (\<lambda>e. ae_addr e = node) keys c of
        (Inl e, c) \<Rightarrow> (Ready (Inl e), c, st)
      | (Inr PendingStream, c) \<Rightarrow> (Pending, c, st)
      | (Inr (Entries []), c) \<Rightarrow> (Ready (Inl AccountNotFound), c, st)
      | (Inr (Entries (a # _)), c) \<Rightarrow>
          (case ae_safe a of
             None \<Rightarrow> (Ready (Inl SafeNotFound), c, st)
           | Some s \<Rightarrow>
               (case register_safe C P s c st of
                  (Inl e, c) \<Rightarrow> (Ready (Inl e), c, st)
                | (Inr p, c) \<Rightarrow>
                    (case send_tx C p c st of
                       (Inl e, c, st) \<Rightarrow> (Ready (Inl e), c, st)
                     | (Inr _, c, st) \<Rightarrow> (Ready (Inr ()), c, st)))))"

section \<open>Lemmas\<close>

lemma set_entries: "set keys = dom m \<Longrightarrow> set (List.map_filter m keys) = ran m"
  by (force simp: map_filter_def ran_def dom_def image_iff)

text \<open>The two key lookups are inverse to each other when no packet key belongs to two accounts.\<close>

lemma key_lookups_inverse:
  assumes "keyed P (view c)" and "set keys = dom (acc_cache (view c))"
    and "inj_on ae_key (ran (acc_cache (view c)))"
  shows "packet_key_to_chain_key k keys c = Some a \<longleftrightarrow> chain_key_to_packet_key a c = Some k"
proof -
  let ?es = "List.map_filter (acc_cache (view c)) keys"
  note mem = set_entries [OF assms(2)]
  have found: "find_by_key k keys c = Some e \<longleftrightarrow> e \<in> ran (acc_cache (view c)) \<and> ae_key e = k" for e
  proof
    assume "find_by_key k keys c = Some e"
    then have "e \<in> set ?es \<and> ae_key e = k" by (auto simp: find_by_key_def find_Some_iff)
    then show "e \<in> ran (acc_cache (view c)) \<and> ae_key e = k" using mem by simp
  next
    assume e: "e \<in> ran (acc_cache (view c)) \<and> ae_key e = k"
    then have "find_by_key k keys c \<noteq> None" using mem by (auto simp: find_by_key_def find_None_iff)
    then obtain e' where e': "find_by_key k keys c = Some e'" by auto
    then have "e' \<in> set ?es \<and> ae_key e' = k" by (auto simp: find_by_key_def find_Some_iff)
    with e mem assms(3) have "e' = e" by (auto dest: inj_onD)
    with e' show "find_by_key k keys c = Some e" by simp
  qed
  have ran: "e \<in> ran (acc_cache (view c)) \<and> ae_addr e = a \<longleftrightarrow> acc_cache (view c) a = Some e" for e
    using assms(1) by (auto simp: keyed_def ran_def)
  show ?thesis
    unfolding packet_key_to_chain_key_def chain_key_to_packet_key_def map_option_eq_Some found
    using ran by blast
qed

text \<open>A gate counts the call and changes nothing else of the connector; without a fault the answer is that of the client.\<close>

lemma gated_effect:
  assumes "gated op r c = (x, c')"
  shows "c' = c\<lparr>con_faults := (con_faults c)\<lparr>cf := record_call op (cf (con_faults c))\<rparr>\<rparr> \<and>
    (case fault_of op (cf (con_faults c)) of
       NoFault \<Rightarrow> x = Ready r | Fail \<Rightarrow> x = Ready (Inl (Injected (InjectedFault op))) | Hang \<Rightarrow> x = Pending)"
proof -
  define d where "d = c\<lparr>con_faults := (con_faults c)\<lparr>cf := record_call op (cf (con_faults c))\<rparr>\<rparr>"
  define f where "f = fault_of op (cf (con_faults c))"
  have "fault_of op (record_call op s) = fault_of op s" for s by (simp add: fault_of_def record_call_def)
  then have "con_gate op c = (resolve f op, d)"
    unfolding con_gate_def gate_def Let_def d_def f_def by simp
  then have "c' = d \<and> (case f of NoFault \<Rightarrow> x = Ready r | Fail \<Rightarrow> x = Ready (Inl (Injected (InjectedFault op))) | Hang \<Rightarrow> x = Pending)"
    using assms by (cases f) (simp_all add: gated_def)
  then show ?thesis unfolding d_def f_def .
qed

end
