(* ===== verification/Builder.thy ===== *)
theory Builder
  imports Connector
begin

text \<open>
  The builder of test states, \<open>BlokliTestStateBuilder\<close> in \<open>src/testing/blokli/mod.rs\<close>: accounts, channels, balances and
  allowances are written into the state of the emulated chain in the text formats of its interface. A panic is the
  result \<open>None\<close>. Printing and key generation are outside code, the record \<open>formats\<close>. Loading a connector from a built
  state gives back the entries it was built from.
\<close>

section \<open>Operations\<close>

record ('k, 'm) formats =
  fm_key :: "'k \<Rightarrow> string"
  fm_multiaddr :: "'m \<Rightarrow> string"
  fm_time :: "nat \<Rightarrow> string"
  fm_id :: "chan_entry \<Rightarrow> hash"                     \<comment> \<open>\<open>get_id\<close>\<close>
  fm_base :: "nat \<Rightarrow> nat"                           \<comment> \<open>\<open>new_base\<close>\<close>
  fm_generate :: "address \<Rightarrow> 'k \<times> address"            \<comment> \<open>packet key and safe derived from an address\<close>
  fm_generate_multiaddr :: "nat \<Rightarrow> 'k \<Rightarrow> 'm"

fun get_multiaddrs :: "'m entry_type \<Rightarrow> 'm list" where
  "get_multiaddrs (Announced ms) = ms"
| "get_multiaddrs NotAnnounced = []"

definition DEFAULT_ALLOWANCE :: nat where
  "DEFAULT_ALLOWANCE = 10000000000000"

definition account_model :: "chain_env \<Rightarrow> ('k, 'm) formats \<Rightarrow> ('k, 'm) acc_entry \<Rightarrow> account" where
  "account_model E F a =
     \<lparr>chain_key = hex E (ae_addr a), keyid = ae_key_id a,
      multi_addresses = map (fm_multiaddr F) (get_multiaddrs (ae_type a)),
      packet_key = fm_key F (ae_key a), safe_address = map_option (hex E) (ae_safe a)\<rparr>"

definition fund_account :: "chain_env \<Rightarrow> ('k, 'm) formats \<Rightarrow> ('k, 'm) acc_entry \<Rightarrow> nat \<Rightarrow> nat \<Rightarrow> bstate \<Rightarrow> bstate" where
  "fund_account E F a token native st =
     (let st = (case ae_safe a of
            None \<Rightarrow> st
          | Some s \<Rightarrow> st\<lparr>deployed_safes := im_put (hex E s) \<lparr>safe_addr = hex E s, registered_nodes = []\<rparr> (deployed_safes st)\<rparr>);
          st = st\<lparr>token_balances := im_put (hex E (ae_addr a)) (show_token E 0) (token_balances st),
            native_balances := im_put (hex E (ae_addr a)) (show_native E native) (native_balances st)\<rparr>
      in case ae_safe a of
           None \<Rightarrow> st
         | Some s \<Rightarrow>
             st\<lparr>token_balances := im_put (hex E s) (show_token E token) (token_balances st),
               native_balances := im_put (hex E s) (show_native E 0) (native_balances st),
               safe_allowances := im_put (hex E s) (show_token E (fm_base F DEFAULT_ALLOWANCE)) (safe_allowances st)\<rparr>)"

fun with_accounts :: "chain_env \<Rightarrow> ('k, 'm) formats \<Rightarrow> (('k, 'm) acc_entry \<times> nat \<times> nat) list \<Rightarrow> bstate \<Rightarrow> bstate option" where
  "with_accounts E F [] st = Some st"
| "with_accounts E F ((a, token, native) # as) st =
     (case map_of (accounts st) (ae_key_id a) of
        Some _ \<Rightarrow> None
      | None \<Rightarrow>
          with_accounts E F as
            (fund_account E F a token native (st\<lparr>accounts := accounts st @ [(ae_key_id a, account_model E F a)]\<rparr>)))"

definition account_id :: "chain_env \<Rightarrow> address \<Rightarrow> bstate \<Rightarrow> u32 option" where
  "account_id E a st = map_option keyid (find (\<lambda>x. chain_key x = hex E a) (map snd (accounts st)))"

fun model_status :: "entry_status \<Rightarrow> channel_status" where
  "model_status StClosed = Closed"
| "model_status StOpen = Open"
| "model_status (StPending t) = PendingToClose"

definition channel_model :: "chain_env \<Rightarrow> ('k, 'm) formats \<Rightarrow> bstate \<Rightarrow> chan_entry \<Rightarrow> (string \<times> channel) option" where
  "channel_model E F st c =
     (case account_id E (ce_src c) st of
        None \<Rightarrow> None
      | Some src \<Rightarrow>
          (case account_id E (ce_dst c) st of
             None \<Rightarrow> None
           | Some dst \<Rightarrow>
               Some (hex E (fm_id F c),
                 \<lparr>ch_balance = show_token E (ce_balance c),
                  closure_time = (case ce_status c of StPending t \<Rightarrow> Some (fm_time F t) | _ \<Rightarrow> None),
                  concrete_channel_id = hex E (fm_id F c), ch_destination = dst, ch_epoch = ce_epoch c, ch_source = src,
                  ch_status = model_status (ce_status c), ticket_index = show_nat (ce_ticket_index c)\<rparr>)))"

fun with_channels :: "chain_env \<Rightarrow> ('k, 'm) formats \<Rightarrow> chan_entry list \<Rightarrow> bstate \<Rightarrow> bstate option" where
  "with_channels E F [] st = Some st"
| "with_channels E F (c # cs) st =
     (case channel_model E F st c of
        None \<Rightarrow> None
      | Some (k, m) \<Rightarrow> with_channels E F cs (st\<lparr>channels := im_put k m (channels st)\<rparr>))"

text \<open>Of a safe the state of the model keeps address and registered nodes.\<close>

definition with_deployed_safes :: "chain_env \<Rightarrow> (address \<times> address list) list \<Rightarrow> bstate \<Rightarrow> bstate" where
  "with_deployed_safes E ss st =
     st\<lparr>deployed_safes :=
       foldl (\<lambda>m (a, nodes). im_put (hex E a) \<lparr>safe_addr = hex E a, registered_nodes = map (hex E) nodes\<rparr> m) (deployed_safes st) ss\<rparr>"

definition with_generated_accounts ::
  "chain_env \<Rightarrow> ('k, 'm) formats \<Rightarrow> address list \<Rightarrow> bool \<Rightarrow> nat \<Rightarrow> nat \<Rightarrow> bstate \<Rightarrow> bstate option" where
  "with_generated_accounts E F addresses public native token st =
     (let max_id = (if accounts st = [] then 0 else Max (set (map fst (accounts st))) + 1) in
      with_accounts E F
        (map (\<lambda>(i, a). (\<lparr>ae_key = fst (fm_generate F a), ae_addr = a, ae_key_id = max_id + of_nat i,
              ae_type = (if public then Announced [fm_generate_multiaddr F i (fst (fm_generate F a))] else NotAnnounced),
              ae_safe = Some (snd (fm_generate F a))\<rparr>, token, native))
           (enumerate 0 addresses)) st)"

definition with_native_balances :: "chain_env \<Rightarrow> (address \<times> nat) list \<Rightarrow> bstate \<Rightarrow> bstate" where
  "with_native_balances E bs st =
     st\<lparr>native_balances := foldl (\<lambda>m (a, b). im_put (hex E a) (show_native E b) m) (native_balances st) bs\<rparr>"

definition with_token_balances :: "chain_env \<Rightarrow> (address \<times> nat) list \<Rightarrow> bstate \<Rightarrow> bstate" where
  "with_token_balances E bs st =
     st\<lparr>token_balances := foldl (\<lambda>m (a, b). im_put (hex E a) (show_token E b) m) (token_balances st) bs\<rparr>"

definition with_safe_allowances :: "chain_env \<Rightarrow> (address \<times> nat) list \<Rightarrow> bstate \<Rightarrow> bstate" where
  "with_safe_allowances E bs st =
     st\<lparr>safe_allowances := foldl (\<lambda>m (a, b). im_put (hex E a) (show_token E b) m) (safe_allowances st) bs\<rparr>"

definition with_closure_grace_period :: "nat \<Rightarrow> bstate \<Rightarrow> bstate" where
  "with_closure_grace_period d st = st\<lparr>closure_grace_period := show_nat (d div from_secs 1)\<rparr>"

section \<open>Loading what was built\<close>

text \<open>What the formats promise: what is printed can be parsed again, and the id of an entry is computed alike.\<close>

definition formats_agree :: "chain_env \<Rightarrow> ('k, 'm) formats \<Rightarrow> ('k, 'm) parsers \<Rightarrow> bool" where
  "formats_agree E F P \<longleftrightarrow>
     (\<forall>k. ps_key P (fm_key F k) = Some k) \<and> (\<forall>a. ps_addr P (hex E a) = Some a) \<and>
     (\<forall>m. ps_multiaddr P (fm_multiaddr F m) = Some m) \<and> (\<forall>t. ps_time P (fm_time F t) = Some t) \<and>
     (\<forall>b < 2 ^ 256. ps_balance P (show_token E b) = Some b) \<and> (\<forall>c. ps_build P c = Some c) \<and> (\<forall>c. ps_id P c = fm_id F c)"

text \<open>An announcement of no address is loaded as no announcement.\<close>

definition loaded_account :: "('k, 'm) acc_entry \<Rightarrow> ('k, 'm) acc_entry" where
  "loaded_account a = (if ae_type a = Announced [] then a\<lparr>ae_type := NotAnnounced\<rparr> else a)"

lemma hex_inject: "formats_agree E F P \<Longrightarrow> hex E a = hex E b \<longleftrightarrow> a = b"
  unfolding formats_agree_def by (metis option.inject)

lemma loaded_account_simps [simp]: "ae_addr (loaded_account a) = ae_addr a" "ae_key_id (loaded_account a) = ae_key_id a"
  by (simp_all add: loaded_account_def)

lemma map_filter_left_inverse: "(\<And>x. g (f x) = Some x) \<Longrightarrow> List.map_filter g (map f xs) = xs"
  by (induction xs) (simp_all add: map_filter_simps)

lemma convert_account_roundtrip:
  assumes "formats_agree E F P"
  shows "convert_account_model P (account_model E F a) = Some (loaded_account a)"
proof -
  have "List.map_filter (ps_multiaddr P) (map (fm_multiaddr F) ms) = ms" for ms
    using assms by (intro map_filter_left_inverse) (simp add: formats_agree_def)
  then show ?thesis using assms
    by (cases a; cases "ae_type a"; cases "ae_safe a")
      (auto simp: convert_account_model_def account_model_def loaded_account_def formats_agree_def)
qed

text \<open>The widths of the fields of a channel: a balance has 256 bits, a ticket index 64.\<close>

definition fits :: "chan_entry \<Rightarrow> bool" where
  "fits c \<longleftrightarrow> ce_balance c < 2 ^ 256 \<and> ce_ticket_index c < 2 ^ 64"

lemma convert_channel_roundtrip:
  assumes "formats_agree E F P" and "channel_model E F st c = Some (k, m)" and "fits c"
  shows "k = hex E (fm_id F c) \<and> convert_channel_model P m (ce_src c) (ce_dst c) = Some c \<and>
    account_id E (ce_src c) st = Some (ch_source m) \<and> account_id E (ce_dst c) st = Some (ch_destination m)"
  using assms by (cases c; cases "ce_status c")
    (auto simp: channel_model_def convert_channel_model_def convert_status_def formats_agree_def fits_def split: option.splits)

lemma fund_account_frame [simp]:
  "accounts (fund_account E F a t n st) = accounts st" "channels (fund_account E F a t n st) = channels st"
  by (simp_all add: fund_account_def Let_def split: option.splits)

lemma with_accounts_distinct:
  "with_accounts E F as st = Some st' \<Longrightarrow> distinct (map fst (accounts st)) \<Longrightarrow> distinct (map fst (accounts st'))"
  by (induction E F as st rule: with_accounts.induct) (auto split: option.splits simp: map_of_eq_None_iff)

lemma with_accounts_result:
  "with_accounts E F as st = Some st' \<Longrightarrow>
     accounts st' = accounts st @ map (\<lambda>x. (ae_key_id (fst x), account_model E F (fst x))) as \<and> channels st' = channels st"
  by (induction E F as st rule: with_accounts.induct) (auto split: option.splits)

text \<open>The builder panics exactly when a key id is taken twice.\<close>

lemma with_accounts_panics:
  "distinct (map fst (accounts st)) \<Longrightarrow>
     with_accounts E F as st = None \<longleftrightarrow> \<not> distinct (map fst (accounts st) @ map (\<lambda>x. ae_key_id (fst x)) as)"
proof (induction E F as st rule: with_accounts.induct)
  case (2 E F a token native as st)
  show ?case
  proof (cases "map_of (accounts st) (ae_key_id a)")
    case None
    then have "ae_key_id a \<notin> fst ` set (accounts st)" by (simp add: map_of_eq_None_iff)
    then show ?thesis using 2 None by auto
  next
    case (Some m)
    then have "ae_key_id a \<in> fst ` set (accounts st)" by (force dest: map_of_SomeD)
    then show ?thesis using Some by auto
  qed
qed simp

lemma map_add_put: "m ++ map_of (rev ((k, v) # xs)) = m(k \<mapsto> v) ++ map_of (rev xs)"
  by (simp add: map_add_assoc)

lemma map_of_rev: "distinct (map fst xs) \<Longrightarrow> map_of (rev xs) = map_of xs"
  by (metis distinct_rev map_of_inject_set rev_map set_rev)

lemma load_accounts_result:
  assumes "formats_agree E F P"
  shows "load_accounts P (map (account_model E F) as) ids s =
    (True, ids ++ map_of (rev (map (\<lambda>a. (ae_key_id a, ae_addr a)) as)),
     s\<lparr>acc_cache := acc_cache s ++ map_of (rev (map (\<lambda>a. (ae_addr a, loaded_account a)) as))\<rparr>)"
proof (induction as arbitrary: ids s)
  case (Cons a as)
  show ?case
    by (simp only: list.map load_accounts.simps convert_account_roundtrip [OF assms] option.case Cons.IH map_add_put
        loaded_account_simps caches.simps)
      (simp add: map_add_put)
qed simp

lemma account_id_sound:
  assumes "formats_agree E F P" and "accounts st = map (\<lambda>x. (ae_key_id (fst x), account_model E F (fst x))) as"
    and "distinct (map fst (accounts st))" and "account_id E x st = Some i"
  shows "map_of (map (\<lambda>x. (ae_key_id (fst x), ae_addr (fst x))) as) i = Some x"
proof -
  obtain m where "find (\<lambda>m. chain_key m = hex E x) (map snd (accounts st)) = Some m" and i: "i = keyid m"
    using assms(4) by (auto simp: account_id_def)
  then have "m \<in> set (map snd (accounts st))" and k: "chain_key m = hex E x"
    by (auto simp: find_Some_iff)
  then obtain y where "y \<in> set as" "m = account_model E F (fst y)" using assms(2) by auto
  moreover from this k have "ae_addr (fst y) = x" using hex_inject [OF assms(1)] by (simp add: account_model_def)
  ultimately have "(i, x) \<in> set (map (\<lambda>x. (ae_key_id (fst x), ae_addr (fst x))) as)" by (force simp: i account_model_def)
  moreover have "distinct (map fst (map (\<lambda>x. (ae_key_id (fst x), ae_addr (fst x))) as))"
    using assms(2,3) by (simp add: comp_def)
  ultimately show ?thesis by (simp add: map_of_is_SomeI)
qed

lemma im_put_fresh: "k \<notin> fst ` set m \<Longrightarrow> im_put k v m = m @ [(k, v)]"
  by (induction m) auto

lemma channel_model_accounts: "channel_model E F (st\<lparr>channels := m\<rparr>) c = channel_model E F st c"
proof -
  have "account_id E a (st\<lparr>channels := m\<rparr>) = account_id E a st" for a by (simp add: account_id_def)
  then show ?thesis by (simp only: channel_model_def)
qed

lemma channel_model_key: "channel_model E F st c = Some (k, m) \<Longrightarrow> k = hex E (fm_id F c)"
  by (auto simp: channel_model_def split: option.splits)

lemma with_channels_result:
  "with_channels E F cs st = Some st' \<Longrightarrow> distinct (map fst (channels st) @ map (\<lambda>c. hex E (fm_id F c)) cs) \<Longrightarrow>
     accounts st' = accounts st \<and> channels st' = channels st @ map (\<lambda>c. the (channel_model E F st c)) cs \<and>
     (\<forall>c \<in> set cs. channel_model E F st c \<noteq> None)"
proof (induction E F cs st rule: with_channels.induct)
  case (2 E F c cs st)
  then obtain k m where c: "channel_model E F st c = Some (k, m)" by (auto split: option.splits)
  have "im_put k m (channels st) = channels st @ [(k, m)]"
    using 2(3) channel_model_key [OF c] by (intro im_put_fresh) auto
  with 2 c channel_model_key [OF c] show ?case by (auto simp: channel_model_accounts)
qed simp

lemma load_channels_result:
  assumes "formats_agree E F P"
    and "\<forall>c \<in> set cs. channel_model E F st c \<noteq> None \<and> fits c"
    and "\<And>x i. account_id E x st = Some i \<Longrightarrow> ids i = Some x"
  shows "load_channels P (map (\<lambda>c. snd (the (channel_model E F st c))) cs) ids s =
    (True, s\<lparr>ch_cache := ch_cache s ++ map_of (rev (map (\<lambda>c. (fm_id F c, c)) cs))\<rparr>)"
  using assms(2)
proof (induction cs arbitrary: s)
  case (Cons c cs)
  then obtain k m where c: "channel_model E F st c = Some (k, m)" by auto
  note r = convert_channel_roundtrip [OF assms(1) c]
  have "ps_id P c = fm_id F c" using assms(1) by (simp add: formats_agree_def)
  moreover have "ids (ch_source m) = Some (ce_src c)" "ids (ch_destination m) = Some (ce_dst c)"
    using r assms(3) Cons.prems by auto
  ultimately show ?case using Cons r by (simp add: c map_add_put [simplified])
qed simp

section \<open>Properties\<close>

text \<open>C38. What is built is what a connector sees: accounts with distinct addresses and channels with distinct ids are
  written into an empty state and loaded by a connector; it finds exactly these accounts and channels, in all their
  fields, except that an announcement of no address comes back as none. (The formats are inverse to the parsers, and
  the numbers fit their width.)\<close>

theorem built_state_loads_back:
  assumes "formats_agree E F P" and "accounts st = []" "channels st = []"
    and "with_accounts E F as st = Some st1" and "with_channels E F cs st1 = Some st2"
    and "distinct (map (\<lambda>x. ae_addr (fst x)) as)" and "distinct (map (fm_id F) cs)"
    and "\<forall>c \<in> set cs. fits c"
  shows "connect_load P (map snd (accounts st2)) (map snd (channels st2)) no_caches =
    (True, \<lparr>acc_cache = map_of (map (\<lambda>x. (ae_addr (fst x), loaded_account (fst x))) as),
            ch_cache = map_of (map (\<lambda>c. (fm_id F c, c)) cs)\<rparr>)"
proof -
  have a1: "accounts st1 = map (\<lambda>x. (ae_key_id (fst x), account_model E F (fst x))) as" and c1: "channels st1 = []"
    using with_accounts_result [OF assms(4)] assms(2,3) by simp_all
  have d1: "distinct (map fst (accounts st1))" using with_accounts_distinct [OF assms(4)] assms(2) by simp
  have "distinct (map (\<lambda>c. hex E (fm_id F c)) cs)"
    using assms(7) hex_inject [OF assms(1)] by (simp add: distinct_map inj_on_def)
  then have st2: "accounts st2 = accounts st1" "channels st2 = map (\<lambda>c. the (channel_model E F st1 c)) cs"
      "\<forall>c \<in> set cs. channel_model E F st1 c \<noteq> None"
    using with_channels_result [OF assms(5)] c1 by simp_all
  let ?ids = "map_of (rev (map (\<lambda>a. (ae_key_id a, ae_addr a)) (map fst as)))"
  have "?ids = map_of (map (\<lambda>x. (ae_key_id (fst x), ae_addr (fst x))) as)"
    using d1 a1 by (subst map_of_rev) (simp_all add: comp_def)
  then have ids: "account_id E x st1 = Some i \<Longrightarrow> ?ids i = Some x" for x i
    using account_id_sound [OF assms(1) a1 d1] by simp
  have acc: "map_of (rev (map (\<lambda>a. (ae_addr a, loaded_account a)) (map fst as))) =
      map_of (map (\<lambda>x. (ae_addr (fst x), loaded_account (fst x))) as)"
    using assms(6) by (subst map_of_rev) (simp_all add: comp_def)
  have ch: "map_of (rev (map (\<lambda>c. (fm_id F c, c)) cs)) = map_of (map (\<lambda>c. (fm_id F c, c)) cs)"
    using assms(7) by (subst map_of_rev) (simp_all add: comp_def)
  have "map snd (accounts st2) = map (account_model E F) (map fst as)" by (simp add: st2(1) a1)
  with load_accounts_result [OF assms(1), of "map fst as" Map.empty "no_caches :: ('a, 'b) caches"]
    load_channels_result [OF assms(1) _ ids, of cs] st2(2,3) assms(8) acc ch
  show ?thesis by (simp add: connect_load_def no_caches_def comp_def)
qed

text \<open>Concrete formats: bytes as characters, numbers in unary.\<close>

definition unary :: "nat \<Rightarrow> string" where
  "unary n = replicate n CHR ''1''"

definition byte_string :: "byte list \<Rightarrow> string" where
  "byte_string = map (\<lambda>b. char_of (unat b))"

definition demo_env :: chain_env where
  "demo_env = (plain_env (FundChannel [] 0) [])\<lparr>hex := byte_string, show_token := unary\<rparr>"

definition demo_formats :: "(unit, nat) formats" where
  "demo_formats = \<lparr>fm_key = \<lambda>_. [], fm_multiaddr = unary, fm_time = unary, fm_id = \<lambda>c. ce_src c @ ce_dst c, fm_base = \<lambda>n. n,
     fm_generate = \<lambda>a. ((), 0 # a), fm_generate_multiaddr = \<lambda>i _. i\<rparr>"

definition demo_parsers :: "(unit, nat) parsers" where
  "demo_parsers = \<lparr>ps_key = \<lambda>_. Some (), ps_addr = \<lambda>s. Some (map (\<lambda>c. of_nat (of_char c)) s), ps_multiaddr = \<lambda>s. Some (length s),
     ps_time = \<lambda>s. Some (length s), ps_balance = \<lambda>s. Some (length s), ps_build = Some, ps_id = \<lambda>c. ce_src c @ ce_dst c\<rparr>"

lemma byte_string_parse: "map (\<lambda>c. of_nat (of_char c)) (byte_string bs) = bs"
proof -
  have "of_nat (of_char (char_of (unat b) :: char)) = b" for b :: byte
    using unsigned_less [of b, where 'a = nat] by (simp add: of_char_of)
  then show ?thesis by (simp add: byte_string_def comp_def)
qed

lemma demo_formats_agree: "formats_agree demo_env demo_formats demo_parsers"
  by (simp add: formats_agree_def demo_env_def demo_formats_def demo_parsers_def byte_string_parse unary_def)

definition demo_accounts :: "((unit, nat) acc_entry \<times> nat \<times> nat) list" where
  "demo_accounts =
     [(\<lparr>ae_key = (), ae_addr = [1], ae_key_id = 4, ae_type = Announced [3], ae_safe = Some [9]\<rparr>, 5, 6),
      (\<lparr>ae_key = (), ae_addr = [2], ae_key_id = 5, ae_type = NotAnnounced, ae_safe = None\<rparr>, 0, 1)]"

definition demo_channel :: chan_entry where
  "demo_channel = \<lparr>ce_src = [1], ce_dst = [2], ce_balance = 2, ce_ticket_index = 3, ce_status = StPending 4, ce_epoch = 1\<rparr>"

theorem built_state_loads_back_witness:
  "\<exists>st1 st2. with_accounts demo_env demo_formats demo_accounts ((two_accounts 0 0)\<lparr>accounts := []\<rparr>) = Some st1 \<and>
     with_channels demo_env demo_formats [demo_channel] st1 = Some st2 \<and>
     connect_load demo_parsers (map snd (accounts st2)) (map snd (channels st2)) no_caches =
       (True, \<lparr>acc_cache = map_of (map (\<lambda>x. (ae_addr (fst x), loaded_account (fst x))) demo_accounts),
               ch_cache = map_of (map (\<lambda>c. (fm_id demo_formats c, c)) [demo_channel])\<rparr>)"
proof -
  let ?st = "(two_accounts 0 0)\<lparr>accounts := []\<rparr>"
  obtain st1 where 1: "with_accounts demo_env demo_formats demo_accounts ?st = Some st1"
    by (cases "with_accounts demo_env demo_formats demo_accounts ?st") (auto simp: with_accounts_panics demo_accounts_def)
  have "account_id demo_env [1] st1 = Some 4" "account_id demo_env [2] st1 = Some 5"
    using with_accounts_result [OF 1] hex_inject [OF demo_formats_agree]
    by (simp_all add: account_id_def demo_accounts_def account_model_def)
  then obtain st2 where 2: "with_channels demo_env demo_formats [demo_channel] st1 = Some st2"
    by (simp add: channel_model_def demo_channel_def)
  have e: "channels ?st = []" by (simp add: two_accounts_def)
  show ?thesis
    using 1 2 built_state_loads_back [OF demo_formats_agree _ e 1 2]
    by (simp add: demo_accounts_def demo_channel_def fits_def)
qed

end
