(* ===== verification/Builder_Registry.thy ===== *)
theory Builder_Registry
  imports Builder Chain_Info
begin

text \<open>
  The rest of \<open>BlokliTestStateBuilder\<close> in \<open>src/testing/blokli/mod.rs\<close>: chain information and the service registry. They
  extend the state of \<open>Emulator\<close>, whose actions do not touch them.
\<close>

record service_record =
  sr_type :: string
  sr_node :: string
  sr_safe :: string
  sr_metadata :: string
  sr_registered_at :: string
  sr_updated_at :: string

record service_type_info =
  st_type :: string
  st_owner :: "string option"
  st_requirement :: "string option"
  st_registration_burn :: string
  st_update_burn :: string

record test_state = bstate +
  ts_chain_id :: "32 word"
  ts_network :: string
  ts_ticket_price :: string
  ts_min_win_prob :: real
  ts_services :: "(string \<times> service_record) list"
  ts_service_types :: "(string \<times> service_type_info) list"
  ts_registration_fee :: string
  ts_node_safe_registry :: string

text \<open>A service as the builder takes it; times are nanoseconds since the epoch and may be negative.\<close>

record 'ty service =
  sv_type :: 'ty
  sv_node :: address
  sv_safe :: address
  sv_metadata :: "byte list"
  sv_registered_at :: int
  sv_updated_at :: int

record service_config =
  sc_owner :: "address option"
  sc_requirement :: "address option"
  sc_registration_burn :: nat
  sc_update_burn :: nat

record ('ty, 'c) registry_formats =
  rf_type :: "'ty \<Rightarrow> string"
  rf_key :: "string \<Rightarrow> address \<Rightarrow> string"            \<comment> \<open>\<open>service_entry_key\<close>\<close>
  rf_contracts :: "'c \<Rightarrow> string"
  rf_network :: "string \<Rightarrow> (u64 \<times> 'c) option"         \<comment> \<open>\<open>contract_addresses_for_network\<close>\<close>
  rf_win_prob :: "56 word \<Rightarrow> real"

text \<open>\<open>None\<close> is the panic on a time before the epoch.\<close>

definition unix_seconds :: "int \<Rightarrow> string option" where
  "unix_seconds t = (if t < 0 then None else Some (show_nat (nat t div 1000000000)))"

definition service_record_of :: "chain_env \<Rightarrow> ('ty, 'c) registry_formats \<Rightarrow> 'ty service \<Rightarrow> service_record option" where
  "service_record_of E R s =
     (case unix_seconds (sv_registered_at s) of
        None \<Rightarrow> None
      | Some ra \<Rightarrow>
          (case unix_seconds (sv_updated_at s) of
             None \<Rightarrow> None
           | Some ua \<Rightarrow>
               Some \<lparr>sr_type = rf_type R (sv_type s), sr_node = hex E (sv_node s), sr_safe = hex E (sv_safe s),
                     sr_metadata = ''0x'' @ hex E (sv_metadata s), sr_registered_at = ra, sr_updated_at = ua\<rparr>))"

fun with_services :: "chain_env \<Rightarrow> ('ty, 'c) registry_formats \<Rightarrow> 'ty service list \<Rightarrow> test_state \<Rightarrow> test_state option" where
  "with_services E R [] st = Some st"
| "with_services E R (s # ss) st =
     (let k = rf_key R (rf_type R (sv_type s)) (sv_node s) in
      case map_of (ts_services st) k of
        Some _ \<Rightarrow> None
      | None \<Rightarrow>
          (case service_record_of E R s of
             None \<Rightarrow> None
           | Some r \<Rightarrow> with_services E R ss (st\<lparr>ts_services := ts_services st @ [(k, r)]\<rparr>)))"

fun with_service_types ::
  "chain_env \<Rightarrow> ('ty, 'c) registry_formats \<Rightarrow> ('ty \<times> service_config) list \<Rightarrow> test_state \<Rightarrow> test_state option" where
  "with_service_types E R [] st = Some st"
| "with_service_types E R ((ty, sc) # ss) st =
     (case map_of (ts_service_types st) (rf_type R ty) of
        Some _ \<Rightarrow> None
      | None \<Rightarrow>
          with_service_types E R ss (st\<lparr>ts_service_types := ts_service_types st @
            [(rf_type R ty, \<lparr>st_type = rf_type R ty, st_owner = map_option (hex E) (sc_owner sc),
                st_requirement = map_option (hex E) (sc_requirement sc),
                st_registration_burn = show_token E (sc_registration_burn sc),
                st_update_burn = show_token E (sc_update_burn sc)\<rparr>)]\<rparr>))"

definition with_service_registry_config :: "chain_env \<Rightarrow> nat \<Rightarrow> address \<Rightarrow> test_state \<Rightarrow> test_state" where
  "with_service_registry_config E fee registry st =
     st\<lparr>ts_registration_fee := show_token E fee, ts_node_safe_registry := hex E registry\<rparr>"

definition with_chain_info :: "('ty, 'c) registry_formats \<Rightarrow> u64 \<Rightarrow> string \<Rightarrow> 'c \<Rightarrow> test_state \<Rightarrow> test_state" where
  "with_chain_info R cid network contracts st =
     st\<lparr>contract_addresses := rf_contracts R contracts, ts_chain_id := ucast cid, ts_network := network\<rparr>"

definition with_hopr_network_chain_info :: "('ty, 'c) registry_formats \<Rightarrow> string \<Rightarrow> test_state \<Rightarrow> test_state option" where
  "with_hopr_network_chain_info R network st =
     (case rf_network R network of
        None \<Rightarrow> None
      | Some (cid, contracts) \<Rightarrow>
          Some (st\<lparr>contract_addresses := rf_contracts R contracts, ts_chain_id := ucast cid, ts_network := network\<rparr>))"

definition with_ticket_price :: "chain_env \<Rightarrow> nat \<Rightarrow> test_state \<Rightarrow> test_state" where
  "with_ticket_price E price st = st\<lparr>ts_ticket_price := show_token E price\<rparr>"

definition with_minimum_win_prob :: "('ty, 'c) registry_formats \<Rightarrow> 56 word \<Rightarrow> test_state \<Rightarrow> test_state" where
  "with_minimum_win_prob R prob st = st\<lparr>ts_min_win_prob := rf_win_prob R prob\<rparr>"

text \<open>\<open>with_balances\<close> panics on a currency other than the two.\<close>

datatype currency_type = XDai | WxHOPR | OtherCurrency

definition with_balances :: "chain_env \<Rightarrow> currency_type \<Rightarrow> (address \<times> nat) list \<Rightarrow> bstate \<Rightarrow> bstate option" where
  "with_balances E cur bs st =
     (case cur of
        XDai \<Rightarrow> Some (with_native_balances E bs st)
      | WxHOPR \<Rightarrow> Some (with_token_balances E bs st)
      | OtherCurrency \<Rightarrow> None)"

text \<open>The default builder: \<open>st0\<close> is the default state of the client library, \<open>parse_addr\<close> and \<open>parse_token\<close> read an
  address and an amount, \<open>registry\<close> is the node-safe registry of the contracts. Every \<open>expect\<close> is a \<open>None\<close>.\<close>

definition state_builder_default ::
  "chain_env \<Rightarrow> ('ty, 'c) registry_formats \<Rightarrow> (string \<Rightarrow> address option) \<Rightarrow> (string \<Rightarrow> nat option) \<Rightarrow> ('c \<Rightarrow> address) \<Rightarrow> 'ty \<Rightarrow>
     test_state \<Rightarrow> test_state option" where
  "state_builder_default E R parse_addr parse_amount registry gvpn_exit st0 =
     Option.bind (rf_network R ''anvil-localhost'') (\<lambda>(_, addresses).
     Option.bind (with_hopr_network_chain_info R ''anvil-localhost'' st0) (\<lambda>st.
     Option.bind (parse_addr ''0xf39fd6e51aad88f6f4ce6ab8827279cfffb92266'') (\<lambda>owner.
     Option.bind (parse_amount ''1000000000000000000000 wei wxHOPR'') (\<lambda>burn.
     Option.bind (parse_amount ''100000000000000000000 wei wxHOPR'') (\<lambda>update.
     Option.bind (with_service_types E R
       [(gvpn_exit, \<lparr>sc_owner = Some owner, sc_requirement = None, sc_registration_burn = burn, sc_update_burn = update\<rparr>)] st)
       (\<lambda>st.
     map_option (\<lambda>fee. with_service_registry_config E fee (registry addresses) st)
       (parse_amount ''1000000000000000000 wei wxHOPR'')))))))"

section \<open>Lemmas\<close>

text \<open>On an empty state the default builder panics only when the network or one of its constants cannot be
  read, and leaves the single service type of the exit registry.\<close>

lemma state_builder_default_result:
  assumes "ts_service_types st0 = []" and "rf_network R ''anvil-localhost'' = Some (cid, contracts)"
    and "\<And>s. parse_addr s \<noteq> None" and "\<And>s. parse_amount s \<noteq> None"
  shows "\<exists>st. state_builder_default E R parse_addr parse_amount registry gvpn st0 = Some st \<and>
    map fst (ts_service_types st) = [rf_type R gvpn] \<and> ts_network st = ''anvil-localhost'' \<and>
    ts_node_safe_registry st = hex E (registry contracts) \<and> accounts st = accounts st0"
  using assms(1,2) assms(3) [of "''0xf39fd6e51aad88f6f4ce6ab8827279cfffb92266''"]
    assms(4) [of "''1000000000000000000000 wei wxHOPR''"] assms(4) [of "''100000000000000000000 wei wxHOPR''"]
    assms(4) [of "''1000000000000000000 wei wxHOPR''"]
  by (auto simp: state_builder_default_def with_hopr_network_chain_info_def with_service_registry_config_def)


text \<open>Services: the builder panics exactly on a key taken twice and on times before the epoch.\<close>

lemma with_services_panics:
  assumes "distinct (map fst (ts_services st))"
  shows "with_services E R ss st = None \<longleftrightarrow>
    \<not> distinct (map fst (ts_services st) @ map (\<lambda>s. rf_key R (rf_type R (sv_type s)) (sv_node s)) ss) \<or>
    (\<exists>s \<in> set ss. sv_registered_at s < 0 \<or> sv_updated_at s < 0)"
  using assms
proof (induction E R ss st rule: with_services.induct)
  case (2 E R s ss st)
  let ?k = "rf_key R (rf_type R (sv_type s)) (sv_node s)"
  show ?case
  proof (cases "map_of (ts_services st) ?k")
    case None
    then have fresh: "?k \<notin> fst ` set (ts_services st)" by (simp add: map_of_eq_None_iff)
    show ?thesis
    proof (cases "service_record_of E R s")
      case None
      then have "sv_registered_at s < 0 \<or> sv_updated_at s < 0"
        by (auto simp: service_record_of_def unix_seconds_def split: if_splits)
      with None \<open>map_of (ts_services st) ?k = None\<close> show ?thesis by (auto simp: Let_def)
    next
      case (Some r)
      then have "\<not> sv_registered_at s < 0" "\<not> sv_updated_at s < 0"
        by (auto simp: service_record_of_def unix_seconds_def split: if_splits)
      with "2.IH" [OF refl \<open>map_of (ts_services st) ?k = None\<close> Some] "2.prems" fresh Some \<open>map_of (ts_services st) ?k = None\<close>
      show ?thesis by (auto simp: Let_def)
    qed
  next
    case (Some x)
    then have "?k \<in> fst ` set (ts_services st)" by (force dest: map_of_SomeD)
    then show ?thesis using Some by (auto simp: Let_def)
  qed
qed simp

text \<open>Chain information that was set is what a connector parses, up to the 32 bits in which the chain id is kept.\<close>

definition info_of :: "test_state \<Rightarrow> string option \<Rightarrow> string option \<Rightarrow> string option \<Rightarrow> string \<Rightarrow> info_model" where
  "info_of st ledger registry chan fee =
     \<lparr>im_grace_period = closure_grace_period st, im_ledger_dst = ledger, im_registry_dst = registry, im_channel_dst = chan,
      im_min_win_prob = ts_min_win_prob st, im_ticket_price = ts_ticket_price st, im_key_binding_fee = fee,
      im_chain_id = ts_chain_id st, im_network = ts_network st, im_contracts = contract_addresses st\<rparr>"

lemma scast_ucast_small:
  fixes cid :: u64
  assumes "unat cid < 2 ^ 31"
  shows "scast (ucast cid :: 32 word) = cid"
proof -
  have "take_bit 31 (unat cid) = unat cid" using assms by (simp add: take_bit_nat_eq_self)
  then have "bit (unat cid) n \<Longrightarrow> n < 31" for n by (metis bit_take_bit_iff)
  then have high: "bit cid n \<Longrightarrow> n < 31" for n by (metis bit_imp_le_length bit_unsigned_iff possible_bit_nat)
  show ?thesis
    by (rule bit_word_eqI) (auto simp: bit_signed_iff bit_unsigned_iff min_def dest: high)
qed

lemma chain_info_roundtrip:
  assumes "with_chain_info R cid network contracts st = st1" and "with_ticket_price E price st1 = st2"
    and "with_minimum_win_prob R prob st2 = st3" and "unat cid < 2 ^ 31"
    and "ip_contracts I (rf_contracts R contracts) = Some contracts" "ip_balance I (show_token E price) = Some price"
    and "ip_win_prob I (rf_win_prob R prob) = Some prob" "parse_uint 64 (closure_grace_period st) = Some secs"
  shows "parse_chain_info_model I (info_of st3 None None None fee) =
    Some \<lparr>pi_chain_id = cid, pi_network = network, pi_contracts = contracts, pi_ledger = replicate 32 0,
          pi_registry = replicate 32 0, pi_channel = replicate 32 0, pi_win_prob = prob, pi_ticket_price = price,
          pi_grace_period = from_secs secs\<rparr>"
  using assms
  by (auto simp: parse_chain_info_model_def info_of_def with_chain_info_def with_ticket_price_def with_minimum_win_prob_def
      parse_separator_def scast_ucast_small)

end
