(* ===== verification/Emulator_Types.thy ===== *)
theory Emulator_Types
  imports Emulator
begin

text \<open>
  Well-typed states of the emulated chain (\<open>testing/blokli/emulator.rs\<close>). The state keeps amounts, counters and indices
  as text; a state is well-typed if every one of them can be read. Every action keeps a state well-typed, also when it
  fails halfway, and on a well-typed state no transaction fails because a text could not be read.
\<close>

section \<open>Typing\<close>

definition token_ok :: "chain_env \<Rightarrow> string \<Rightarrow> bool" where
  "token_ok E s \<longleftrightarrow> parse_token E s \<noteq> None"

definition native_ok :: "chain_env \<Rightarrow> string \<Rightarrow> bool" where
  "native_ok E s \<longleftrightarrow> parse_native E s \<noteq> None"

definition channel_ok :: "chain_env \<Rightarrow> channel \<Rightarrow> bool" where
  "channel_ok E c \<longleftrightarrow> token_ok E (ch_balance c) \<and> parse_uint 64 (ticket_index c) \<noteq> None"

definition stats_ok :: "chain_env \<Rightarrow> redeemed_stats \<Rightarrow> bool" where
  "stats_ok E s \<longleftrightarrow> token_ok E (redeemed_amount s) \<and> parse_uint 64 (redemption_count s) \<noteq> None"

definition vals_ok :: "('v \<Rightarrow> bool) \<Rightarrow> ('k \<times> 'v) list \<Rightarrow> bool" where
  "vals_ok ok m \<longleftrightarrow> (\<forall>(k, v) \<in> set m. ok v)"

definition state_ok :: "chain_env \<Rightarrow> bstate \<Rightarrow> bool" where
  "state_ok E st \<longleftrightarrow>
     vals_ok (token_ok E) (token_balances st) \<and> vals_ok (native_ok E) (native_balances st) \<and>
     vals_ok (token_ok E) (safe_allowances st) \<and> vals_ok (channel_ok E) (channels st) \<and>
     vals_ok (stats_ok E) (safe_redeem_stats st) \<and> parse_uint 64 (closure_grace_period st) \<noteq> None \<and>
     parse_addresses E (contract_addresses st) \<noteq> None"

text \<open>Amounts have 256 bits; what is printed within them can be read, and what is read or added stays within them.\<close>

definition env_types :: "chain_env \<Rightarrow> bool" where
  "env_types E \<longleftrightarrow>
     (\<forall>n < 2 ^ 256. parse_token E (show_token E n) \<noteq> None \<and> parse_native E (show_native E n) \<noteq> None) \<and>
     (\<forall>s n. parse_token E s = Some n \<or> parse_native E s = Some n \<longrightarrow> n < 2 ^ 256) \<and>
     (\<forall>a b. a < 2 ^ 256 \<longrightarrow> b < 2 ^ 256 \<longrightarrow> balance_add E a b < 2 ^ 256)"

fun action_ok :: "chain_action \<Rightarrow> bool" where
  "action_ok (WithdrawNative d n p) \<longleftrightarrow> n < 2 ^ 256"
| "action_ok (WithdrawToken d n p) \<longleftrightarrow> n < 2 ^ 256"
| "action_ok (Approve s n p) \<longleftrightarrow> n < 2 ^ 256"
| "action_ok (FundChannel d n) \<longleftrightarrow> n < 2 ^ 256"
| "action_ok (RedeemTicket c i n) \<longleftrightarrow> n < 2 ^ 256"
| "action_ok _ \<longleftrightarrow> True"

definition format_errors :: "emu_error set" where
  "format_errors = {BadContractAddresses, BadBalance, BadAllowance, BadChannelBalance, BadGracePeriod, BadTicketIndex,
     BadRedeemedValue, BadRedeemedCount}"

definition well_typed :: "chain_env \<Rightarrow> (emu_error + 'a) \<times> bstate \<Rightarrow> bool" where
  "well_typed E r \<longleftrightarrow> state_ok E (snd r) \<and> (case fst r of Inl e \<Rightarrow> e \<notin> format_errors | Inr _ \<Rightarrow> True)"

section \<open>Lemmas\<close>

lemma vals_ok_put [intro]: "vals_ok ok m \<Longrightarrow> ok v \<Longrightarrow> vals_ok ok (im_put k v m)"
  by (induction k v m rule: im_put.induct) (auto simp: vals_ok_def)

lemma vals_ok_modify [intro]: "vals_ok ok m \<Longrightarrow> (\<And>v. ok v \<Longrightarrow> ok (f v)) \<Longrightarrow> vals_ok ok (im_modify k f m)"
  by (induction m) (auto simp: vals_ok_def split: if_splits)

lemma vals_ok_lookup: "vals_ok ok m \<Longrightarrow> map_of m k = Some v \<Longrightarrow> ok v"
  by (auto simp: vals_ok_def dest!: map_of_SomeD)

lemma well_typed_simps [simp]:
  "well_typed E (Inl e, st) \<longleftrightarrow> state_ok E st \<and> e \<notin> format_errors" "well_typed E (Inr x, st) \<longleftrightarrow> state_ok E st"
  by (simp_all add: well_typed_def)

lemma token_ok_show [simp]: "env_types E \<Longrightarrow> n < 2 ^ 256 \<Longrightarrow> token_ok E (show_token E n)"
  by (simp add: env_types_def token_ok_def)

lemma native_ok_show [simp]: "env_types E \<Longrightarrow> n < 2 ^ 256 \<Longrightarrow> native_ok E (show_native E n)"
  by (simp add: env_types_def native_ok_def)

lemma parsed_bound:
  "env_types E \<Longrightarrow> parse_token E s = Some n \<Longrightarrow> n < 2 ^ 256" "env_types E \<Longrightarrow> parse_native E s = Some n \<Longrightarrow> n < 2 ^ 256"
  unfolding env_types_def by blast+

lemma added_bound: "env_types E \<Longrightarrow> a < 2 ^ 256 \<Longrightarrow> b < 2 ^ 256 \<Longrightarrow> balance_add E a b < 2 ^ 256"
  unfolding env_types_def by blast

lemma parse_digit [simp]: "parse_uint 64 ''0'' = Some 0" "parse_uint 64 ''1'' = Some 1"
  by (simp_all add: parse_uint_def is_digit_def digits_value_def)

lemma parse_show_word [simp]: "parse_uint 64 (show_nat (unat (w :: u64))) = Some (unat w)"
  by (rule parse_show_nat) (use unsigned_less [of w, where 'a = nat] in simp)

lemma well_typed_and_then:
  "well_typed E r \<Longrightarrow> (\<And>st. r = (Inr (), st) \<Longrightarrow> state_ok E st \<Longrightarrow> well_typed E (f st)) \<Longrightarrow> well_typed E (and_then r f)"
  by (cases r; cases "fst r") (auto simp: well_typed_def)

lemma state_ok_frame [simp]:
  "state_ok E (st\<lparr>accounts := x\<rparr>) = state_ok E st" "state_ok E (st\<lparr>deployed_safes := y\<rparr>) = state_ok E st"
  "state_ok E (st\<lparr>tx_counts := z\<rparr>) = state_ok E st"
  by (simp_all add: state_ok_def)

lemma state_ok_update:
  "state_ok E st \<Longrightarrow> vals_ok (token_ok E) m \<Longrightarrow> state_ok E (st\<lparr>token_balances := m\<rparr>)"
  "state_ok E st \<Longrightarrow> vals_ok (native_ok E) m \<Longrightarrow> state_ok E (st\<lparr>native_balances := m\<rparr>)"
  "state_ok E st \<Longrightarrow> vals_ok (token_ok E) m \<Longrightarrow> state_ok E (st\<lparr>safe_allowances := m\<rparr>)"
  "state_ok E st \<Longrightarrow> vals_ok (channel_ok E) cs \<Longrightarrow> state_ok E (st\<lparr>channels := cs\<rparr>)"
  "state_ok E st \<Longrightarrow> vals_ok (stats_ok E) rs \<Longrightarrow> state_ok E (st\<lparr>safe_redeem_stats := rs\<rparr>)"
  by (simp_all add: state_ok_def)

lemma state_ok_parts:
  assumes "state_ok E st"
  shows "vals_ok (token_ok E) (token_balances st)" "vals_ok (native_ok E) (native_balances st)"
    "vals_ok (token_ok E) (safe_allowances st)" "vals_ok (channel_ok E) (channels st)"
    "vals_ok (stats_ok E) (safe_redeem_stats st)" "\<exists>p. parse_uint 64 (closure_grace_period st) = Some p"
    "\<exists>cc. parse_addresses E (contract_addresses st) = Some cc"
  using assms by (auto simp: state_ok_def)

lemmas ok_rules = state_ok_update vals_ok_put vals_ok_modify

lemma lookup_parses:
  "vals_ok (token_ok E) m \<Longrightarrow> map_of m k = Some s \<Longrightarrow> \<exists>n. parse_token E s = Some n"
  "vals_ok (native_ok E) m \<Longrightarrow> map_of m k = Some s \<Longrightarrow> \<exists>n. parse_native E s = Some n"
  "vals_ok (channel_ok E) cs \<Longrightarrow> map_of cs k = Some c \<Longrightarrow>
     (\<exists>n. parse_token E (ch_balance c) = Some n) \<and> (\<exists>i. parse_uint 64 (ticket_index c) = Some i)"
  "vals_ok (stats_ok E) rs \<Longrightarrow> map_of rs k = Some x \<Longrightarrow>
     (\<exists>n. parse_token E (redeemed_amount x) = Some n) \<and> (\<exists>i. parse_uint 64 (redemption_count x) = Some i)"
  by (auto dest!: vals_ok_lookup simp: token_ok_def native_ok_def channel_ok_def stats_ok_def)

lemma transfer_ok:
  assumes "transfer_balance parse shw add key dst amount m = (r, m')" and "vals_ok (\<lambda>s. parse s \<noteq> None) m"
    and "\<forall>n < 2 ^ 256. parse (shw n) \<noteq> None" and "\<forall>s n. parse s = Some n \<longrightarrow> n < 2 ^ 256"
    and "\<forall>a b. a < 2 ^ 256 \<longrightarrow> b < 2 ^ 256 \<longrightarrow> add a b < 2 ^ 256" and "amount < 2 ^ 256"
  shows "vals_ok (\<lambda>s. parse s \<noteq> None) m' \<and> (\<forall>e. r = Inl e \<longrightarrow> e \<notin> format_errors)"
proof (cases "Option.bind key (\<lambda>k. map_option (Pair k) (map_of m k))")
  case None
  then show ?thesis using assms(1,2) by (auto simp: transfer_balance_def format_errors_def)
next
  case (Some kb)
  then obtain k bal where kb: "kb = (k, bal)" "map_of m k = Some bal" by (auto simp: bind_eq_Some_conv)
  then obtain n where n: "parse bal = Some n" using vals_ok_lookup [OF assms(2)] by fastforce
  let ?m = "im_modify k (\<lambda>_. shw (n - amount)) m"
  have "n < 2 ^ 256" using assms(4) n by blast
  then have "parse (shw (n - amount)) \<noteq> None" using assms(3) by (meson diff_le_self le_less_trans)
  then have ok: "vals_ok (\<lambda>s. parse s \<noteq> None) ?m" using assms(2) by blast
  show ?thesis
  proof (cases "map_of ?m dst")
    case None
    have "vals_ok (\<lambda>s. parse s \<noteq> None) (im_put dst (shw amount) ?m)" using ok assms(3,6) by blast
    then show ?thesis using assms(1,2) Some kb n None
      by (auto simp: transfer_balance_def Let_def format_errors_def split: if_splits)
  next
    case dst: (Some b)
    then obtain d where d: "parse b = Some d" using vals_ok_lookup [OF ok] by fastforce
    have "add d amount < 2 ^ 256" using assms(4-6) d by blast
    then have "vals_ok (\<lambda>s. parse s \<noteq> None) (im_modify dst (\<lambda>_. shw (add d amount)) ?m)" using ok assms(3) by blast
    then show ?thesis using assms(1,2) Some kb n dst d
      by (auto simp: transfer_balance_def Let_def format_errors_def split: if_splits)
  qed
qed

lemma withdraw_ok:
  assumes "env_types E" and "state_ok E st" and "n < 2 ^ 256"
  shows "well_typed E (withdraw_native E sender d n p st)" "well_typed E (withdraw_token E sender d n p st)"
proof -
  have t: "token_ok E = (\<lambda>s. parse_token E s \<noteq> None)" "native_ok E = (\<lambda>s. parse_native E s \<noteq> None)"
    by (simp_all add: fun_eq_iff token_ok_def native_ok_def)
  let ?nk = "case p of Eoa \<Rightarrow> Some (hex E sender) | Safe \<Rightarrow> safe_native_key E st sender"
  let ?tk = "case p of Eoa \<Rightarrow> Some (hex E sender) | Safe \<Rightarrow> safe_token_key E st sender"
  obtain r m where 1: "transfer_balance (parse_native E) (show_native E) (balance_add E) ?nk (hex E d) n (native_balances st) = (r, m)"
    by fastforce
  have "vals_ok (native_ok E) m \<and> (\<forall>e. r = Inl e \<longrightarrow> e \<notin> format_errors)"
    using transfer_ok [OF 1] assms unfolding t state_ok_def env_types_def by blast
  then show "well_typed E (withdraw_native E sender d n p st)"
    using 1 assms(2) by (cases r) (simp_all add: withdraw_native_def Let_def state_ok_def)
  obtain r' m' where 2: "transfer_balance (parse_token E) (show_token E) (balance_add E) ?tk (hex E d) n (token_balances st) = (r', m')"
    by fastforce
  have "vals_ok (token_ok E) m' \<and> (\<forall>e. r' = Inl e \<longrightarrow> e \<notin> format_errors)"
    using transfer_ok [OF 2] assms unfolding t state_ok_def env_types_def by blast
  then show "well_typed E (withdraw_token E sender d n p st)"
    using 2 assms(2) by (cases r') (simp_all add: withdraw_token_def Let_def state_ok_def)
qed

lemma debit_ok:
  assumes "env_types E" and "state_ok E st"
  shows "well_typed E (debit_safe E sender n st)" "well_typed E (debit_allowance E sender n st)"
proof -
  note parts = state_ok_parts [OF assms(2)]
  have put: "vals_ok (token_ok E) (im_modify k (\<lambda>_. show_token E (b - n)) m)"
    if "vals_ok (token_ok E) m" "parse_token E s = Some b" for m k b s
    using that parsed_bound(1) [OF assms(1) that(2)] assms(1) by (intro vals_ok_modify) (simp_all add: less_imp_diff_less)
  show "well_typed E (debit_safe E sender n st)"
  proof (cases "Option.bind (safe_token_key E st sender) (\<lambda>k. map_option (Pair k) (map_of (token_balances st) k))")
    case (Some kb)
    then obtain k s where kb: "kb = (k, s)" "map_of (token_balances st) k = Some s" by (auto simp: bind_eq_Some_conv)
    then obtain b where "parse_token E s = Some b" using lookup_parses(1) [OF parts(1)] by blast
    with put [OF parts(1) this] Some kb assms(2) show ?thesis
      by (simp add: debit_safe_def state_ok_update format_errors_def)
  qed (use assms(2) in \<open>simp add: debit_safe_def format_errors_def\<close>)
  show "well_typed E (debit_allowance E sender n st)"
  proof (cases "Option.bind (safe_allowance_key E st sender) (\<lambda>k. map_option (Pair k) (map_of (safe_allowances st) k))")
    case (Some kb)
    then obtain k s where kb: "kb = (k, s)" "map_of (safe_allowances st) k = Some s" by (auto simp: bind_eq_Some_conv)
    then obtain b where "parse_token E s = Some b" using lookup_parses(1) [OF parts(3)] by blast
    with put [OF parts(3) this] Some kb assms(2) show ?thesis
      by (simp add: debit_allowance_def state_ok_update format_errors_def)
  qed (use assms(2) in \<open>simp add: debit_allowance_def format_errors_def\<close>)
qed

lemma reopen_ok: "channel_ok E c \<Longrightarrow> channel_ok E (reopen c)"
  by (simp add: channel_ok_def reopen_def)

lemma credit_ok:
  assumes "env_types E" and "state_ok E st" and "n < 2 ^ 256"
  shows "well_typed E (credit_channel E sender dst source destination n st)"
proof (cases "find_channel (\<lambda>c. ch_source c = keyid source \<and> ch_destination c = keyid destination) st")
  case None
  have "channel_ok E \<lparr>ch_balance = show_token E n, closure_time = None, concrete_channel_id = i, ch_destination = d,
      ch_epoch = 1, ch_source = s, ch_status = Open, ticket_index = ''0''\<rparr>" for i d s
    using assms(1,3) by (simp add: channel_ok_def)
  then show ?thesis using None assms(2) state_ok_parts(4) [OF assms(2)]
    by (simp add: credit_channel_def Let_def ok_rules)
next
  case (Some kc)
  then obtain k c where kc: "kc = (k, c)" "(k, c) \<in> set (channels st)"
    by (cases kc) (auto simp: find_channel_def find_Some_iff intro: nth_mem dest: nth_mem)
  let ?cs = "im_modify k reopen (channels st)"
  have cs: "vals_ok (channel_ok E) ?cs" using state_ok_parts(4) [OF assms(2)] reopen_ok by blast
  have "k \<in> fst ` set ?cs" using kc(2) by (metis fst_conv image_eqI keys_im_modify set_map)
  then obtain c' where c': "map_of ?cs k = Some c'" by (cases "map_of ?cs k") (auto simp: map_of_eq_None_iff)
  then obtain b where b: "parse_token E (ch_balance c') = Some b" using lookup_parses(3) [OF cs] by blast
  have "balance_add E b n < 2 ^ 256" using added_bound [OF assms(1) parsed_bound(1) [OF assms(1) b] assms(3)] .
  then have "channel_ok E (x\<lparr>ch_balance := show_token E (balance_add E b n)\<rparr>)" if "channel_ok E x" for x
    using that assms(1) by (simp add: channel_ok_def)
  with cs have "vals_ok (channel_ok E) (im_modify k (\<lambda>x. x\<lparr>ch_balance := show_token E (balance_add E b n)\<rparr>) ?cs)" by blast
  then show ?thesis using Some kc c' b cs assms(2) by (simp add: credit_channel_def Let_def ok_rules)
qed

lemma fund_ok:
  assumes "env_types E" and "state_ok E st" and "n < 2 ^ 256"
  shows "well_typed E (fund_channel E sender dst n st)"
proof -
  have "well_typed E (and_then (debit_safe E sender n st) (\<lambda>st. and_then (debit_allowance E sender n st)
      (credit_channel E sender dst s d n)))" for s d
    using assms by (intro well_typed_and_then debit_ok credit_ok) auto
  then show ?thesis using assms(2) by (auto simp: fund_channel_def format_errors_def split: option.splits)
qed

lemma status_ok: "channel_ok E c \<Longrightarrow> channel_ok E (c\<lparr>ch_status := x\<rparr>)" "channel_ok E c \<Longrightarrow> channel_ok E (c\<lparr>ch_status := x, closure_time := t\<rparr>)"
  by (simp_all add: channel_ok_def)

lemma closure_ok:
  assumes "state_ok E st"
  shows "well_typed E (initialize_closure E c st)" "well_typed E (finalize_closure E c st)" "well_typed E (incoming_closure E c st)"
  using assms state_ok_parts(4,6) [OF assms] status_ok
  by (auto simp: initialize_closure_def finalize_closure_def incoming_closure_def format_errors_def ok_rules split: option.splits)

lemma redeem_from_ok:
  assumes "env_types E" and "state_ok E st"
  shows "well_typed E (redeem_from_channel E c i n st)"
proof (cases "on_channel E c st")
  case (Some kc)
  then obtain k ch where kc: "kc = (k, ch)" "map_of (channels st) k = Some ch" by (auto simp: on_channel_def bind_eq_Some_conv)
  note cs = state_ok_parts(4) [OF assms(2)]
  obtain b ti where p: "parse_token E (ch_balance ch) = Some b" "parse_uint 64 (ticket_index ch) = Some ti"
    using lookup_parses(3) [OF cs kc(2)] by blast
  have "b - n < 2 ^ 256" using parsed_bound(1) [OF assms(1) p(1)] by simp
  then have "channel_ok E (x\<lparr>ticket_index := show_nat (unat (i + 1)), ch_balance := show_token E (b - n)\<rparr>)" for x
    using assms(1) by (simp add: channel_ok_def)
  with cs have "vals_ok (channel_ok E) (im_modify k
      (\<lambda>x. x\<lparr>ticket_index := show_nat (unat (i + 1)), ch_balance := show_token E (b - n)\<rparr>) (channels st))"
    by (intro vals_ok_modify)
  with Some kc p assms(2) show ?thesis by (simp add: redeem_from_channel_def state_ok_update format_errors_def)
qed (use assms(2) in \<open>simp add: redeem_from_channel_def format_errors_def\<close>)

lemma stats_update_ok:
  assumes "env_types E" and "state_ok E st" and "n < 2 ^ 256"
  shows "well_typed E (update_redeem_stats E sa n st)"
proof (cases "map_of (safe_redeem_stats st) sa")
  case None
  have "stats_ok E \<lparr>redeemed_amount = show_token E n, redemption_count = ''1'', rejected_amount = ''0'', rejection_count = ''0''\<rparr>"
    using assms(1,3) by (simp add: stats_ok_def)
  with None assms(2) state_ok_parts(5) [OF assms(2)] show ?thesis by (simp add: update_redeem_stats_def ok_rules)
next
  case (Some x)
  note rs = state_ok_parts(5) [OF assms(2)]
  obtain a m where p: "parse_token E (redeemed_amount x) = Some a" "parse_uint 64 (redemption_count x) = Some m"
    using lookup_parses(4) [OF rs Some] by blast
  have "balance_add E a n < 2 ^ 256" using added_bound [OF assms(1) parsed_bound(1) [OF assms(1) p(1)] assms(3)] .
  then have "stats_ok E (y\<lparr>redeemed_amount := show_token E (balance_add E a n),
      redemption_count := show_nat (unat (of_nat m + 1 :: u64))\<rparr>)" for y
    using assms(1) by (simp only: stats_ok_def redeemed_stats.simps parse_show_word token_ok_show) simp
  with rs have "vals_ok (stats_ok E) (im_modify sa (\<lambda>y. y\<lparr>redeemed_amount := show_token E (balance_add E a n),
      redemption_count := show_nat (unat (of_nat m + 1 :: u64))\<rparr>) (safe_redeem_stats st))" by (intro vals_ok_modify)
  with Some p assms(2) show ?thesis by (simp add: update_redeem_stats_def state_ok_update)
qed

lemma beneficiary_ok:
  assumes "env_types E" and "state_ok E st" and "n < 2 ^ 256"
  shows "well_typed E (redeem_to_beneficiary E c n st)"
proof (cases "find_channel (\<lambda>x. ch_source x = ch_destination c \<and> ch_destination x = ch_source c) st")
  case (Some ko)
  then obtain k oc where ko: "ko = (k, oc)" "(k, oc) \<in> set (channels st)"
    by (cases ko) (auto simp: find_channel_def find_Some_iff intro: nth_mem dest: nth_mem)
  note cs = state_ok_parts(4) [OF assms(2)]
  obtain b where b: "parse_token E (ch_balance oc) = Some b"
    using cs ko(2) by (auto simp: vals_ok_def channel_ok_def token_ok_def)
  have "balance_add E b n < 2 ^ 256" using added_bound [OF assms(1) parsed_bound(1) [OF assms(1) b] assms(3)] .
  then have "channel_ok E x \<Longrightarrow> channel_ok E (x\<lparr>ch_balance := show_token E (balance_add E b n)\<rparr>)" for x
    using assms(1) by (simp add: channel_ok_def)
  with Some ko b cs assms(2) show ?thesis by (simp add: redeem_to_beneficiary_def ok_rules)
next
  case None
  let ?safe = "Option.bind (Option.bind (map_of (accounts st) (ch_destination c)) safe_address)
                  (\<lambda>sa. map_option (Pair sa) (map_of (token_balances st) sa))"
  note tb = state_ok_parts(1) [OF assms(2)]
  show ?thesis
  proof (cases ?safe)
    case safe: (Some sb)
    then obtain sa bal where sb: "sb = (sa, bal)" "map_of (token_balances st) sa = Some bal"
      by (auto simp: bind_eq_Some_conv)
    obtain b where b: "parse_token E bal = Some b" using lookup_parses(1) [OF tb sb(2)] by blast
    have "balance_add E b n < 2 ^ 256" using added_bound [OF assms(1) parsed_bound(1) [OF assms(1) b] assms(3)] .
    then have "state_ok E (st\<lparr>token_balances := im_modify sa (\<lambda>_. show_token E (balance_add E b n)) (token_balances st)\<rparr>)"
      using assms(1,2) tb by (simp add: ok_rules)
    with None safe sb b stats_update_ok [OF assms(1) _ assms(3)] show ?thesis by (simp add: redeem_to_beneficiary_def)
  qed (use None assms(2) in \<open>simp add: redeem_to_beneficiary_def\<close>)
qed

lemma redeem_ok:
  assumes "env_types E" and "state_ok E st" and "n < 2 ^ 256"
  shows "well_typed E (redeem_ticket E c i n st)"
  using redeem_from_ok [OF assms(1,2), of c i n] beneficiary_ok [OF assms(1) _ assms(3)]
  by (auto simp: redeem_ticket_def format_errors_def split: prod.splits sum.splits option.splits)

lemma perform_ok:
  assumes "env_types E" and "state_ok E st" and "action_ok a"
  shows "well_typed E (perform E cc sender a st)"
  using assms withdraw_ok fund_ok closure_ok redeem_ok
proof (cases a)
  case (RegisterSafeAddress x)
  with assms show ?thesis by (auto simp: register_safe_address_def Let_def format_errors_def split: option.splits)
next
  case (Announce pk ma)
  with assms show ?thesis by (auto simp: announce_def Let_def format_errors_def split: option.splits)
next
  case (Approve sp n p)
  with assms state_ok_parts(3) [OF assms(2)] show ?thesis
    by (auto simp: approve_def format_errors_def ok_rules split: option.splits)
qed auto

lemma charge_ok:
  assumes "env_types E" and "state_ok E st"
  shows "well_typed E (charge_tx E sender st)"
proof (cases "map_of (native_balances st) (hex E sender)")
  case (Some bal)
  note nb = state_ok_parts(2) [OF assms(2)]
  obtain b where b: "parse_native E bal = Some b" using lookup_parses(2) [OF nb Some] by blast
  have "b - EMULATED_TX_PRICE < 2 ^ 256" using parsed_bound(2) [OF assms(1) b] by simp
  with Some b nb assms show ?thesis by (simp add: charge_tx_def Let_def format_errors_def ok_rules)
qed (use assms(2) in \<open>simp add: charge_tx_def Let_def format_errors_def\<close>)

section \<open>Properties\<close>

text \<open>C40. Type soundness of the emulated chain: a transaction keeps a well-typed state well-typed, whether it succeeds
  or fails after part of its effects, and it never fails because an amount, a counter, an index or the grace period in
  the state could not be read.\<close>

theorem emulator_type_sound:
  assumes "env_types E" and "state_ok E st" and "\<forall>a sender. parse_tx E tx = Some (a, sender) \<longrightarrow> action_ok a"
    and "full_update_state E interceptor tx st = (r, st', acts)"
  shows "state_ok E st' \<and> (\<forall>e. r = Inl e \<longrightarrow> e \<notin> format_errors)"
proof (cases "parse_tx E tx")
  case None
  then show ?thesis using assms(2,4) state_ok_parts(7) [OF assms(2)]
    by (auto simp: full_update_state_def format_errors_def)
next
  case (Some q)
  then obtain a sender where at: "parse_tx E tx = Some (a, sender)" by (cases q) auto
  have ok: "well_typed E (and_then (perform E cc sender a st) (charge_tx E sender))" for cc
    using perform_ok [OF assms(1,2) assms(3) [rule_format, OF at]] charge_ok [OF assms(1)] by (rule well_typed_and_then)
  obtain cc where "parse_addresses E (contract_addresses st) = Some cc" using state_ok_parts(7) [OF assms(2)] by blast
  with at ok [of cc] assms(4) show ?thesis
    by (auto simp: full_update_state_def format_errors_def split: prod.splits sum.splits option.splits if_splits)
qed

definition saturating_env :: "chain_action \<Rightarrow> address \<Rightarrow> chain_env" where
  "saturating_env a sender = (plain_env a sender)\<lparr>balance_add := \<lambda>a b. min (a + b) (2 ^ 256 - 1)\<rparr>"

lemma saturating_env_types: "env_types (saturating_env a sender)"
  by (auto simp: env_types_def saturating_env_def plain_env_def dest: parse_uint_bound)

text \<open>Funding beyond the allowance fails after the safe was debited; the state is still well-typed.\<close>

theorem emulator_type_sound_witness:
  "\<exists>st' acts. full_update_state (saturating_env (FundChannel [66] 60) [65]) None [] (two_accounts 100 50) =
       (Inl InsufficientAllowance, st', acts) \<and> token_balances st' = [(''s'', show_nat 40)] \<and>
     state_ok (saturating_env (FundChannel [66] 60) [65]) st'"
proof -
  let ?E = "saturating_env (FundChannel [66] 60) [65]"
  obtain st' acts where run: "full_update_state ?E None [] (two_accounts 100 50) = (Inl InsufficientAllowance, st', acts)"
    and tb: "token_balances st' = [(''s'', show_nat 40)]"
    by (simp add: full_update_state_def saturating_env_def plain_env_def byte_char_def two_accounts_def fund_channel_def
        debit_safe_def debit_allowance_def)
  have tx: "\<forall>a sender. parse_tx ?E [] = Some (a, sender) \<longrightarrow> action_ok a"
    by (auto simp: saturating_env_def plain_env_def)
  have "parse_uint 64 ''60'' = Some 60" by (simp add: parse_uint_def is_digit_def digits_value_def)
  then have "state_ok ?E (two_accounts 100 50)"
    by (simp add: state_ok_def two_accounts_def vals_ok_def token_ok_def native_ok_def saturating_env_def plain_env_def)
  from emulator_type_sound [OF saturating_env_types this tx run] run tb show ?thesis by blast
qed

end
