(* ===== verification/Lifecycle.thy ===== *)
theory Lifecycle
  imports Submission Builder Emulator_Types
begin

text \<open>
  The connector over the emulated chain: what happens to a channel from \<open>open_channel\<close> (\<open>connector.rs\<close>) through the
  action of the emulator (\<open>emulator.rs\<close>) and the graph update that reports it, to the confirmation of the call.
\<close>

text \<open>
  What the client between them promises: a transaction that it confirms was executed by the emulator, and a signed
  funding transaction parses as that action of its signer.
\<close>

definition executes_on_emulator ::
  "('g, 'kp, 'tk, 'tx, byte list, bstate, 'r) chain_client \<Rightarrow> chain_env \<Rightarrow> bool option \<Rightarrow> bool" where
  "executes_on_emulator C E interceptor \<longleftrightarrow>
     (\<forall>sg st r st'. cl_submit C sg st = (Some r, st') \<longrightarrow>
        (\<exists>acts. full_update_state E interceptor sg st = (Inr (), st', acts)))"

definition signs_funding :: "('g, 'kp, 'tk, 'tx, byte list, bstate, 'r) chain_client \<Rightarrow> chain_env \<Rightarrow> bool" where
  "signs_funding C E \<longleftrightarrow>
     (\<forall>g dst amount tx n cid key sg. cl_payload C g (FundReq dst amount) = Some tx \<longrightarrow> cl_sign C tx n cid key = Some sg \<longrightarrow>
        parse_tx E sg = Some (FundChannel dst amount, cl_public C key))"

lemma debit_frame:
  "debit_safe E sender n st = (r, st') \<Longrightarrow> channels st' = channels st"
  "debit_allowance E sender n st = (r, st') \<Longrightarrow> channels st' = channels st"
  "charge_tx E sender st = (r, st') \<Longrightarrow> channels st' = channels st"
  by (auto simp: debit_safe_def debit_allowance_def charge_tx_def Let_def split: option.splits if_splits)

lemma and_then_Inr: "and_then p f = (Inr u, st') \<longleftrightarrow> (\<exists>st1. p = (Inr (), st1) \<and> f st1 = (Inr u, st'))"
  by (cases p; cases "fst p") auto

lemma fund_new_channel:
  assumes "fund_channel E sender dst stake st = (Inr (), st')"
    and "account_key E st sender = Some i" "map_of (accounts st) i = Some source"
    and "account_key E st dst = Some j" "map_of (accounts st) j = Some destination"
    and "find_channel (\<lambda>c. ch_source c = keyid source \<and> ch_destination c = keyid destination) st = None"
  defines "k \<equiv> hex E (channel_id_of E sender dst)"
  shows "map_of (channels st') k = Some
     \<lparr>ch_balance = show_token E stake, closure_time = None, concrete_channel_id = k, ch_destination = keyid destination,
      ch_epoch = 1, ch_source = keyid source, ch_status = Open, ticket_index = ''0''\<rparr>"
proof -
  obtain st1 st2 where d: "debit_safe E sender stake st = (Inr (), st1)" "debit_allowance E sender stake st1 = (Inr (), st2)"
    and c: "credit_channel E sender dst source destination stake st2 = (Inr (), st')"
    using assms(1-5) by (auto simp: fund_channel_def and_then_Inr split: if_splits)
  have "channels st2 = channels st" using debit_frame(1) [OF d(1)] debit_frame(2) [OF d(2)] by simp
  with assms(6) c show ?thesis by (auto simp: credit_channel_def find_channel_def k_def Let_def)
qed

lemma executed_funding:
  assumes "full_update_state E interceptor sg st = (Inr (), st', acts)" and "parse_tx E sg = Some (FundChannel dst stake, sender)"
  obtains st1 where "fund_channel E sender dst stake st = (Inr (), st1)" "channels st' = channels st1"
proof -
  obtain cc where "and_then (perform E cc sender (FundChannel dst stake) st) (charge_tx E sender) = (Inr (), st')"
    using assms by (auto simp: full_update_state_def split: option.splits prod.splits sum.splits if_splits)
  then show thesis using that by (auto simp: and_then_Inr dest: debit_frame(3))
qed

section \<open>Built states are well-typed\<close>

lemma fund_account_ok:
  assumes "env_types E" and "state_ok E st" and "t < 2 ^ 256" "n < 2 ^ 256" "fm_base F DEFAULT_ALLOWANCE < 2 ^ 256"
  shows "state_ok E (fund_account E F a t n st)"
  using assms state_ok_parts [OF assms(2)] unfolding fund_account_def Let_def
  by (auto intro!: ok_rules simp: state_ok_def split: option.splits)

lemma with_accounts_ok:
  "with_accounts E F as st = Some st' \<Longrightarrow> env_types E \<Longrightarrow> state_ok E st \<Longrightarrow> fm_base F DEFAULT_ALLOWANCE < 2 ^ 256 \<Longrightarrow>
     \<forall>(a, t, n) \<in> set as. t < 2 ^ 256 \<and> n < 2 ^ 256 \<Longrightarrow> state_ok E st'"
  by (induction E F as st rule: with_accounts.induct) (auto split: option.splits simp: fund_account_ok)

lemma with_channels_ok:
  "with_channels E F cs st = Some st' \<Longrightarrow> env_types E \<Longrightarrow> state_ok E st \<Longrightarrow> \<forall>c \<in> set cs. fits c \<Longrightarrow> state_ok E st'"
proof (induction E F cs st rule: with_channels.induct)
  case (2 E F c cs st)
  obtain k m where m: "channel_model E F st c = Some (k, m)" using 2(2) by (auto split: option.splits)
  then have "channel_ok E m" using 2(3,5) by (auto simp: channel_model_def channel_ok_def fits_def split: option.splits)
  with 2 m state_ok_parts(4) [OF 2(4)] show ?case by (simp add: ok_rules)
qed simp

section \<open>Properties\<close>

text \<open>C39. Opening a channel works from end to end: a call of \<open>open_channel\<close> that is accepted leaves an open channel with
  the amount in the emulated state; the graph update that carries it puts it under the id that the call waits for, open
  and with that balance, into the connector's cache and raises \<open>ChannelOpened\<close> if the connector did not know the
  channel; and the confirmation resolves at the next look at the view, with the receipt of the transaction, unless a
  fault of confirmations is injected. (There was no channel between the two accounts.)\<close>

theorem opened_channel_is_confirmed:
  assumes "executes_on_emulator C E interceptor" "signs_funding C E" "formats_agree E F P"
    and "my_addr c = cl_public C (con_key c)" and "\<forall>e. fm_id F e = cl_channel_id C (ce_src e) (ce_dst e)"
    and "account_key E st (my_addr c) = Some i" "map_of (accounts st) i = Some (account_model E F a)" "ae_addr a = my_addr c"
    and "account_key E st dst = Some j" "map_of (accounts st) j = Some (account_model E F b)" "ae_addr b = dst"
    and "find_channel (\<lambda>x. ch_source x = ae_key_id a \<and> ch_destination x = ae_key_id b) st = None"
    and "amount < 2 ^ 256" and "open_channel C dst amount c st = (Ready (Inr cn), c', st')"
  shows "\<exists>m e. map_of (channels st') (hex E (channel_id_of E (my_addr c) dst)) = Some m \<and>
    ce_status e = StOpen \<and> ce_balance e = amount \<and>
    (\<exists>s' ev. graph_entry P (account_model E F a, account_model E F b, m) (view c') = (s', ev) \<and>
       ch_cache s' (cn_id cn) = Some e \<and> (ch_cache (view c') (cn_id cn) = None \<longrightarrow> ev = Some (ChannelOpenedEv e)) \<and>
       (confirmation_fault OpenChannelOp f = NoFault \<longrightarrow>
          confirmation_poll cn start ((ch_cache s' (cn_id cn), t) # obs) f = Ready (Inr (cn_receipt cn))))"
proof -
  obtain x c1 where gate: "con_gate OpenChannelOp c = (x, c1)" by (cases "con_gate OpenChannelOp c")
  note frame = con_gate_frame [OF gate]
  have sub: "submit_tracked C OpenChannelOp (FundReq dst amount) (cl_channel_id C (my_addr c) dst)
      (\<lambda>x. ce_status x = StOpen) c1 st = (Ready (Inr cn), c', st')"
    using assms(14) gate frame by (auto simp: open_channel_def split: poll.splits sum.splits)
  from submit_tracked_confirmed [OF sub] obtain g tx cid n sg where cn: "cn_op cn = OpenChannelOp"
      "cn_id cn = cl_channel_id C (my_addr c) dst" "cn_pred cn = (\<lambda>x. ce_status x = StOpen)"
    and tx: "cl_payload C g (FundReq dst amount) = Some tx" "cl_sign C tx n cid (con_key c1) = Some sg"
      "cl_submit C sg st = (Some (cn_receipt cn), st')"
    by auto
  have "parse_tx E sg = Some (FundChannel dst amount, my_addr c)"
    using assms(2,4) tx(1,2) frame by (simp add: signs_funding_def)
  moreover obtain acts where "full_update_state E interceptor sg st = (Inr (), st', acts)"
    using assms(1) tx(3) unfolding executes_on_emulator_def by metis
  ultimately obtain st1 where "fund_channel E (my_addr c) dst amount st = (Inr (), st1)" "channels st' = channels st1"
    using executed_funding by metis
  then obtain m where m: "map_of (channels st') (hex E (channel_id_of E (my_addr c) dst)) = Some m"
    and fields: "ch_balance m = show_token E amount" "ch_status m = Open" "ticket_index m = ''0''" "ch_epoch m = 1"
    using fund_new_channel [OF _ assms(6,7,9,10)] assms(12) by (fastforce simp: account_model_def)
  let ?e = "\<lparr>ce_src = my_addr c, ce_dst = dst, ce_balance = amount, ce_ticket_index = 0, ce_status = StOpen, ce_epoch = 1\<rparr>"
  have conv: "convert_channel_model P m (my_addr c) dst = Some ?e"
    using assms(3,13) fields by (simp add: convert_channel_model_def convert_status_def formats_agree_def)
  have id: "ps_id P ?e = cn_id cn" using assms(3,5) cn(2) by (simp add: formats_agree_def)
  let ?s = "(view c')\<lparr>acc_cache := (acc_cache (view c'))(my_addr c \<mapsto> loaded_account a, dst \<mapsto> loaded_account b)\<rparr>"
  let ?t = "?s\<lparr>ch_cache := (ch_cache (view c'))(cn_id cn \<mapsto> ?e)\<rparr>"
  have graph: "graph_entry P (account_model E F a, account_model E F b, m) (view c') =
      (?t, event_of (ch_cache (view c') (cn_id cn)) ?e)"
    using conv id by (simp add: graph_entry_def convert_account_roundtrip [OF assms(3)] assms(8,11) Let_def)
  have "confirmation_poll cn start ((ch_cache ?t (cn_id cn), t) # obs) f = Ready (Inr (cn_receipt cn))"
    if "confirmation_fault OpenChannelOp f = NoFault"
    using that by (simp add: confirmation_poll_def confirm_def cn)
  moreover have "event_of None ?e = Some (ChannelOpenedEv ?e)" by (simp add: event_of_def)
  moreover have "ch_cache ?t (cn_id cn) = Some ?e" "ce_status ?e = StOpen" "ce_balance ?e = amount" by simp_all
  ultimately show ?thesis using m graph by (metis (no_types, lifting))
qed

text \<open>A client that hands every transaction to the emulator, and a call to open a channel over two built accounts.\<close>

definition life_env :: chain_env where
  "life_env = demo_env\<lparr>parse_tx := \<lambda>_. Some (FundChannel [2] 3, [1]), parse_token := \<lambda>s. Some (length s),
     account_key := \<lambda>st x. map_option fst (find (\<lambda>(_, m). chain_key m = byte_string x) (accounts st))\<rparr>"

definition life_client :: "(unit, unit, unit, unit, byte list, bstate, nat) chain_client" where
  "life_client = \<lparr>cl_payload = \<lambda>_ req. if req = FundReq [2] 3 then Some () else None, cl_sign = \<lambda>_ _ _ _. Some [],
     cl_submit = \<lambda>sg st. (case full_update_state life_env None sg st of
       (Inr _, st', _) \<Rightarrow> (Some 0, st') | (Inl _, st', _) \<Rightarrow> (None, st')),
     cl_query_safe = \<lambda>_ _. Some [], cl_public = \<lambda>_. [1], cl_channel_id = \<lambda>a b. a @ b, cl_add = (+)\<rparr>"

definition life_account :: "address \<Rightarrow> u32 \<Rightarrow> (unit, nat) acc_entry" where
  "life_account a i = \<lparr>ae_key = (), ae_addr = a, ae_key_id = i, ae_type = NotAnnounced, ae_safe = None\<rparr>"

definition life_state :: bstate where
  "life_state = (two_accounts 0 0)\<lparr>
     accounts := [(4, account_model life_env demo_formats (life_account [1] 4)),
                  (5, account_model life_env demo_formats (life_account [2] 5))],
     token_balances := [(''s'', unary 9)], safe_allowances := [(''s'', unary 5)],
     native_balances := [(byte_string [1], show_nat 5)]\<rparr>"

definition life_connector :: "(unit, unit, unit, nat) connector" where
  "life_connector = (new_connector [1] () [])\<lparr>payload_gen := Some (), con_chain_id := Some 1\<rparr>"

lemma life_promises:
  "executes_on_emulator life_client life_env None" "signs_funding life_client life_env"
  "formats_agree life_env demo_formats demo_parsers"
proof -
  show "executes_on_emulator life_client life_env None"
    by (auto simp: executes_on_emulator_def life_client_def split: prod.splits sum.splits)
  show "signs_funding life_client life_env"
    by (auto simp: signs_funding_def life_client_def life_env_def split: if_splits)
  show "formats_agree life_env demo_formats demo_parsers"
    using demo_formats_agree by (simp add: formats_agree_def life_env_def)
qed

lemma life_keys: "byte_string [1] \<noteq> byte_string [2]" "byte_string [2] \<noteq> byte_string [1]"
  using hex_inject [OF demo_formats_agree, of "[1]" "[2]"] by (simp_all add: demo_env_def)

lemma life_lookup:
  "account_key life_env life_state [1] = Some 4" "account_key life_env life_state [2] = Some 5"
  "map_of (accounts life_state) 4 = Some (account_model life_env demo_formats (life_account [1] 4))"
  "map_of (accounts life_state) 5 = Some (account_model life_env demo_formats (life_account [2] 5))"
  using life_keys by (simp_all add: life_env_def life_state_def demo_env_def account_model_def life_account_def)

lemma life_executes: "\<exists>st'. full_update_state life_env None [] life_state = (Inr (), st', [])"
proof -
  have sim: "parse_addresses life_env x = Some [9]" "parse_tx life_env x' = Some (FundChannel [2] 3, [1])"
    "parse_token life_env t = Some (length t)" "parse_native life_env (show_nat 5) = Some 5" "hex life_env [1] = byte_string [1]"
    "safe_token_key life_env st a = Some ''s''" "safe_allowance_key life_env st a = Some ''s''" for x x' t st a
    by (simp_all add: life_env_def demo_env_def plain_env_def)
  have len: "length (unary n) = n" for n by (simp add: unary_def)
  have field: "channels life_state = []" "token_balances life_state = [(''s'', unary 9)]"
    "safe_allowances life_state = [(''s'', unary 5)]" "native_balances life_state = [(byte_string [1], show_nat 5)]"
    by (simp_all add: life_state_def two_accounts_def)
  define s1 where "s1 = life_state\<lparr>token_balances := [(''s'', show_token life_env 6)]\<rparr>"
  define s2 where "s2 = s1\<lparr>safe_allowances := [(''s'', show_token life_env 2)]\<rparr>"
  have d: "debit_safe life_env [1] 3 life_state = (Inr (), s1)"
    by (simp add: debit_safe_def sim field len s1_def)
  have al: "debit_allowance life_env [1] 3 s1 = (Inr (), s2)"
    by (simp add: debit_allowance_def sim s1_def field len s2_def)
  obtain ch where cr: "credit_channel life_env [1] [2] source destination 3 s2 = (Inr (), s2\<lparr>channels := ch source destination\<rparr>)"
    for source destination
    by (rule that [of "\<lambda>source destination. channels (snd (credit_channel life_env [1] [2] source destination 3 s2))"])
      (simp add: credit_channel_def find_channel_def s2_def s1_def field Let_def)
  define A where "A = account_model life_env demo_formats (life_account [1] 4)"
  define B where "B = account_model life_env demo_formats (life_account [2] 5)"
  note look = life_lookup [folded A_def B_def]
  define st1 where "st1 = s2\<lparr>channels := ch A B\<rparr>"
  have fund: "fund_channel life_env [1] [2] 3 life_state = (Inr (), st1)"
    unfolding fund_channel_def look Option.bind.simps option.case prod.case by (simp add: d al cr st1_def)
  have native: "native_balances st1 = [(byte_string [1], show_nat 5)]" by (simp add: st1_def s2_def s1_def field)
  show ?thesis by (simp add: full_update_state_def sim fund charge_tx_def native Let_def EMULATED_TX_PRICE_def)
qed

lemma life_opens: "\<exists>cn c' st'. open_channel life_client [2] 3 life_connector life_state = (Ready (Inr cn), c', st')"
proof -
  obtain st' where "full_update_state life_env None [] life_state = (Inr (), st', [])" using life_executes by blast
  then have submit: "cl_submit life_client [] life_state = (Some 0, st')" by (simp add: life_client_def)
  have client: "cl_payload life_client () (FundReq [2] 3) = Some ()" "cl_sign life_client () n i k = Some []" for n i k
    by (simp_all add: life_client_def)
  have "fst (con_gate OpenChannelOp life_connector) = Ready (Inr ())"
    by (simp add: con_gate_def gate_def fault_of_def record_call_def life_connector_def
        new_connector_def flight_init_def default_faults_def Let_def)
  then obtain c where gate: "con_gate OpenChannelOp life_connector = (Ready (Inr ()), c)" by (metis prod.collapse)
  have c: "payload_gen c = Some ()" "con_chain_id c = Some 1" "con_key c = ()" "my_addr c = [1]"
    using con_gate_frame [OF gate] by (simp_all add: life_connector_def new_connector_def)
  obtain c1 where prep: "prepare_tx life_client (FundReq [2] 3) () [1] c =
      (Inr \<lparr>pt_tx = (), pt_chain = 1, pt_key = (), pt_owner = [1]\<rparr>, c1)"
    by (simp add: prepare_tx_def c client)
  obtain c2 where send: "send_tx life_client \<lparr>pt_tx = (), pt_chain = 1, pt_key = (), pt_owner = [1]\<rparr> c1 life_state = (Inr 0, c2, st')"
    by (simp add: send_tx_def client submit Let_def)
  show ?thesis by (simp add: open_channel_def gate submit_tracked_def c prep send track_confirmation_def)
qed

theorem opened_channel_is_confirmed_witness:
  "\<exists>cn c' st'. open_channel life_client [2] 3 life_connector life_state = (Ready (Inr cn), c', st') \<and>
     (\<exists>m. map_of (channels st') (hex life_env (channel_id_of life_env [1] [2])) = Some m)"
proof -
  obtain cn c' st' where run: "open_channel life_client [2] 3 life_connector life_state = (Ready (Inr cn), c', st')"
    using life_opens by blast
  have con: "my_addr life_connector = cl_public life_client (con_key life_connector)" "my_addr life_connector = [1]"
    by (simp_all add: life_connector_def new_connector_def life_client_def)
  have acc: "ae_addr (life_account x i) = x" "ae_key_id (life_account x i) = i" for x i
    by (simp_all add: life_account_def)
  have "find_channel Q life_state = None" for Q by (simp add: find_channel_def life_state_def two_accounts_def)
  moreover have "\<forall>e. fm_id demo_formats e = cl_channel_id life_client (ce_src e) (ce_dst e)"
    by (simp add: demo_formats_def life_client_def)
  ultimately have "\<exists>m. map_of (channels st') (hex life_env (channel_id_of life_env (my_addr life_connector) [2])) = Some m"
    using opened_channel_is_confirmed [OF life_promises con(1) _ life_lookup(1) [folded con(2)] life_lookup(3) _ life_lookup(2,4) _ _ _ run]
    by (simp add: acc con(2)) blast
  then have "\<exists>m. map_of (channels st') (hex life_env (channel_id_of life_env [1] [2])) = Some m" by (simp only: con(2))
  with run show ?thesis by blast
qed

end
