(* ===== verification/Spec2Isabelle.thy ===== *)
theory Spec2Isabelle
  imports Prelude Arbitration Admission Wakeups CpuPool Decode_Path Windowed Averages Weighted Addr Diagnostics Abortables Stream_Copy Emulator Sinks Faults Udp Capture Platform Connector Chain_Info Submission Queries Builder Builder_Registry Emulator_Types Lifecycle
begin

text \<open>
  A verification development of the Rust crate \<open>hopr-utilities\<close> (sources under \<open>src/src\<close>; the file names below are
  relative to it). The crate is a collection of building blocks of a mixnet node: a CPU task pool with fair admission
  of packet decoding, statistics, stream, sink and socket adapters, task and poll instrumentation, and an emulated
  chain for tests. The blocks are largely independent; where one uses another the theories do as well: the task pool
  runs the admission loop, the UDP stream and the packet capture use the endpoint model of stream copying, the UDP
  stream and the forwarding future rely on the contract of a sink.

  \<^bold>\<open>How the program is modelled.\<close> Pure functions are HOL functions with the machine integers at their width (\<open>usize\<close>
  is 64 bits) wherever wrap-around or saturation matters. Code that mutates state passes a record; code that fails
  returns a sum whose left values are its errors, together with the state as it was left. Async functions are their
  poll functions. Code that runs concurrently is a step function on single atomic operations, with reachability as
  an inductive predicate, so that the theorems quantify over every interleaving. What is outside the repository
  (sockets, channels, wrapped readers and writers, the clock, the file system, the chain client) is a parameter: a
  function argument, or a script of outcomes over which the theorems quantify; an exhausted script means pending or
  full. Fields marked as logs record what happened for the statements only and are never read by an operation.

  \<^bold>\<open>Theories.\<close>

  \<^item> \<open>Prelude\<close>: words, saturating arithmetic, decimal parsing and printing, insertion-ordered maps (\<open>IndexMap\<close>) as
    association lists, \<open>Poll\<close>, counting of owners in a family of processes.
  \<^item> \<open>Arbitration\<close> (\<open>parallelize/cpu/arbitration.rs\<close>): configuration, the policy \<open>decode_admit_cap\<close>, guards. The cap is
    characterised over the natural numbers.
  \<^item> \<open>Admission\<close> (same file): \<open>admit_decode\<close> and \<open>try_reserve_decode\<close> as a machine of atomic operations (\<open>admit_step\<close>)
    with any number of admitters: the cap is a hard bound throughout every period in which the pool is saturated
    (\<open>period\<close>, \<open>saturated\<close>), whatever encode tasks and threads come and go, slots are accounted for, no wake-up that is owed gets lost;
    two situations in which nobody is woken are exhibited. A notification lets every listener proceed, which
    over-approximates the code, where each notification wakes one more.
  \<^item> \<open>Wakeups\<close> (same file): the same machine with its listeners one by one, as the documentation of the event library
    describes them (\<open>w_step\<close>). It refines \<open>Admission\<close>, and no admitter is ever stranded; a release that opens the gate
    for several admitters wakes one of them.
  \<^item> \<open>CpuPool\<close> (\<open>parallelize/mod.rs\<close>): queue limit, slots, tagged tasks, cancellation, metrics (\<open>task_step\<close>, \<open>pool_step\<close>):
    counters balance in every interleaving, the limit holds although it is checked after the increment, cancelled
    tasks never run.
  \<^item> \<open>Decode_Path\<close> (same file): \<open>spawn_decode_blocking\<close> as the composition of \<open>Admission\<close> and \<open>CpuPool\<close> on the shared
    counters (\<open>path_step\<close>). It refines the admission machine, counts exactly the admitted calls, carries the hard cap to
    them (\<open>path_period\<close>) and keeps the queue limit; a decode task whose caller has left runs on uncounted.
  \<^item> \<open>Windowed\<close> (\<open>statistics/moving/windowed.rs\<close>): the ring of lazily cleared buckets refines the complete log of records
    restricted to the window.
  \<^item> \<open>Averages\<close> (\<open>statistics/moving/simple.rs\<close>, \<open>exponential.rs\<close>): the trait \<open>SMA\<close> as the locale \<open>sma\<close>, interpreted by both
    implementations, which therefore agree; the exponential average over the reals (floating-point rounding is not
    modelled). Sample types whose operators panic are the checked variants of the pushes.
  \<^item> \<open>Weighted\<close> (\<open>statistics/weighted.rs\<close>): weighted picks and shuffles with the random draw as argument, over the reals.
  \<^item> \<open>Addr\<close> (\<open>network_types/addr.rs\<close>, \<open>types.rs\<close>): which addresses count as public; host resolution.
  \<^item> \<open>Diagnostics\<close> and \<open>Abortables\<close> (\<open>runtime.rs\<close>): rate-limited warnings under races, child counters, the transparent
    instrumentation; abortable tasks with an explicit store of abort flags, and the locales \<open>abortable\<close> and
    \<open>abort_contract\<close> for what \<open>Abortable\<close> promises, interpreted on task trees and on handles.
  \<^item> \<open>Stream_Copy\<close> (\<open>network_types/utils.rs\<close>): \<open>CopyBuffer\<close>, one direction of a transfer, \<open>copy_duplex\<close> with aborts and
    datagram mode. The locale \<open>copy_invariant\<close> carries an invariant through the copying loop once and is interpreted
    twice: for the bytes delivered and for the boundaries of datagrams.
  \<^item> \<open>Sinks\<close> (\<open>network_types/crossfire_sink.rs\<close>, \<open>timeout.rs\<close>): the laws of a sink as the locales \<open>sink_laws\<close>, \<open>inner_sink\<close> and
    \<open>timed_sink\<close>; the timeout adaptor turns the first into the last (a sublocale), the crossfire sink interprets them,
    and the forwarding future is proved correct inside \<open>timed_sink\<close>: no item is lost silently, it completes, the
    deadline is not extended by polling.
  \<^item> \<open>Udp\<close> (\<open>network_types/udp.rs\<close>): sizing of the socket pool, the builder, the interleaved receive and transmit tasks around
    one counterparty, and the write side over any sink with \<open>sink_laws\<close>.
  \<^item> \<open>Capture\<close> (\<open>network_types/capture.rs\<close>): what a capture holds and that the file can be read back.
  \<^item> \<open>Platform\<close> (\<open>platform/file.rs\<close>, \<open>error.rs\<close>, \<open>time.rs\<close>): path joining, file helpers, \<open>trace_timed!\<close>.
  \<^item> \<open>Emulator\<close> (\<open>testing/blokli/emulator.rs\<close>): every chain action on the test state; successful transactions conserve the
    supply, tickets are redeemed once, and a failing one that loses money.
  \<^item> \<open>Faults\<close> (\<open>testing/blokli/faults.rs\<close>): fault configuration and the in-flight watermarks under interleaved guards.
  \<^item> \<open>Emulator_Types\<close>: every text in the state of the emulated chain stays readable, also through failing transactions.
  \<^item> \<open>Connector\<close> (\<open>testing/blokli/connector.rs\<close>): the caches of the test connector, loading them and the events derived
    from graph updates; a subscriber stays in agreement with the caches. \<open>Chain_Info\<close>: chain information.
  \<^item> \<open>Submission\<close> (same file): connecting, nonces per signer, sending, channel operations and confirmations; runs of a
    connector keep the invariants of the locale \<open>con_invariant\<close>, interpreted for nonces and for the in-flight guards of
    \<open>Faults\<close>. \<open>Queries\<close>: the operations that only read, and the set-up of a node.
  \<^item> \<open>Builder\<close>, \<open>Builder_Registry\<close> (\<open>testing/blokli/mod.rs\<close>): initial test states; a connector loads back what was built.
  \<^item> \<open>Lifecycle\<close>: connector, emulator and builder together, from a call of \<open>open_channel\<close> to its confirmation.

  \<^bold>\<open>Bounds and fuel.\<close> No operation of the model has fuel: loops are structural recursion over a script, or
  functions with a termination proof (\<open>poll_copy\<close>, \<open>crossfire_ready\<close>, \<open>forward_poll\<close>, \<open>udp_poll_write\<close>). The numbers of polls in
  \<open>forward_polls\<close> and \<open>udp_write\<close> count polls by the executor; \<open>forward_completes\<close> says how many suffice. Counters of
  live owners are assumed to stay below \<open>2 ^ 64\<close>, as a process cannot own that many tasks.

  \<^bold>\<open>Not modelled.\<close> Log output, tracing spans, histograms and the text of error messages (an error is a value); the
  order in which Rayon picks up tasks; memory orderings weaker than sequential consistency; floating-point rounding;
  the cooperative budget of \<open>tokio_unstable\<close> builds; the byte format of pcapng; benchmarks and
  tests. Counters that are only read by getters, formatting impls and re-exports
  are left out.

  The properties are numbered C1, C2, \<dots> in their theories; each stands next to a witness where it has hypotheses.
\<close>

end
